(* ===== verification/Prelude.thy ===== *)
theory Prelude
  imports Main "HOL-Library.Word"
begin

text \<open>
  Shared vocabulary of the development: machine integers and byte strings, the outcome of a
  Rust computation that may return an error or panic, checked indexing and slicing, checked
  arithmetic on \<open>u32\<close> and \<open>usize\<close>, big-endian \<open>u16\<close> fields, the validity of UTF-8 and the
  \<open>str\<close> operations the program uses, and the iteration order of a \<open>HashMap\<close>.
  The collection \<open>no_panic\<close> holds the equations that say when a computation panics.
\<close>

unbundle bit_operations_syntax

named_theorems no_panic \<open>equations that say when a computation panics\<close>
named_theorems outcome_simps \<open>equations that take outcomes apart\<close>

type_synonym u8 = "8 word"
type_synonym u16 = "16 word"
type_synonym u32 = "32 word"
type_synonym u64 = "64 word"
type_synonym bytes = "u8 list"

section \<open>Outcomes\<close>

text \<open>
  \<open>Ok\<close> and \<open>Err\<close> are the two constructors of Rust's \<open>Result\<close>; \<open>Panic\<close> is a computation that
  unwinds (an index or a slice out of range, an arithmetic overflow in a debug build, an
  \<open>assert!\<close> that fails).
\<close>

datatype ('e, 'a) outcome = Ok 'a | Err 'e | Panic

fun and_then :: "('e, 'a) outcome \<Rightarrow> ('a \<Rightarrow> ('e, 'b) outcome) \<Rightarrow> ('e, 'b) outcome" where
  "and_then (Ok x) f = f x"
| "and_then (Err e) f = Err e"
| "and_then Panic f = Panic"

fun map_err :: "('e \<Rightarrow> 'f) \<Rightarrow> ('e, 'a) outcome \<Rightarrow> ('f, 'a) outcome" where
  "map_err g (Ok x) = Ok x"
| "map_err g (Err e) = Err (g e)"
| "map_err g Panic = Panic"

fun map_ok :: "('a \<Rightarrow> 'b) \<Rightarrow> ('e, 'a) outcome \<Rightarrow> ('e, 'b) outcome" where
  "map_ok g (Ok x) = Ok (g x)"
| "map_ok g (Err e) = Err e"
| "map_ok g Panic = Panic"

fun ok_or :: "'e \<Rightarrow> 'a option \<Rightarrow> ('e, 'a) outcome" where
  "ok_or e None = Err e"
| "ok_or e (Some x) = Ok x"

lemma and_then_cong [fundef_cong]:
  "r = r' \<Longrightarrow> (\<And>x. r' = Ok x \<Longrightarrow> f x = g x) \<Longrightarrow> and_then r f = and_then r' g"
  by (cases r') auto

lemma and_then_Ok_iff [outcome_simps]:
  "and_then r f = Ok y \<longleftrightarrow> (\<exists>x. r = Ok x \<and> f x = Ok y)"
  by (cases r) auto

lemma and_then_Err_iff [outcome_simps]:
  "and_then r f = Err e \<longleftrightarrow> r = Err e \<or> (\<exists>x. r = Ok x \<and> f x = Err e)"
  by (cases r) auto

lemma and_then_assoc: "and_then (and_then r f) g = and_then r (\<lambda>x. and_then (f x) g)"
  by (cases r) auto

lemma and_then_Panic_iff [no_panic]:
  "and_then r f = Panic \<longleftrightarrow> r = Panic \<or> (\<exists>x. r = Ok x \<and> f x = Panic)"
  by (cases r) auto

lemma map_err_Ok_iff [outcome_simps, simp]: "map_err g r = Ok x \<longleftrightarrow> r = Ok x"
  by (cases r) auto

lemma map_err_Err_iff [outcome_simps]: "map_err g r = Err e \<longleftrightarrow> (\<exists>e'. r = Err e' \<and> e = g e')"
  by (cases r) auto

lemma map_err_Panic_iff [simp]: "map_err g r = Panic \<longleftrightarrow> r = Panic"
  by (cases r) auto

lemma map_ok_Ok_iff [outcome_simps]: "map_ok g r = Ok y \<longleftrightarrow> (\<exists>x. r = Ok x \<and> y = g x)"
  by (cases r) auto

lemma map_ok_Err_iff [outcome_simps, simp]: "map_ok g r = Err e \<longleftrightarrow> r = Err e"
  by (cases r) auto

lemma map_ok_Panic_iff [simp]: "map_ok g r = Panic \<longleftrightarrow> r = Panic"
  by (cases r) auto

lemma ok_or_no_panic [simp]: "ok_or e x \<noteq> Panic"
  by (cases x) auto

lemma ok_or_Ok_iff [outcome_simps, simp]: "ok_or e v = Ok x \<longleftrightarrow> v = Some x"
  by (cases v) auto

section \<open>Checked indexing, slicing and arithmetic\<close>

definition idx :: "'a list \<Rightarrow> nat \<Rightarrow> ('e, 'a) outcome" where
  "idx xs i = (if i < length xs then Ok (xs ! i) else Panic)"

text \<open>\<open>&xs[a..b]\<close> and \<open>&xs[a..]\<close>.\<close>

definition subslice :: "'a list \<Rightarrow> nat \<Rightarrow> nat \<Rightarrow> ('e, 'a list) outcome" where
  "subslice xs a b = (if a \<le> b \<and> b \<le> length xs then Ok (take (b - a) (drop a xs)) else Panic)"

definition slice_from :: "'a list \<Rightarrow> nat \<Rightarrow> ('e, 'a list) outcome" where
  "slice_from xs a = (if a \<le> length xs then Ok (drop a xs) else Panic)"

lemma idx_ok [simp]: "i < length xs \<Longrightarrow> idx xs i = Ok (xs ! i)"
  by (simp add: idx_def)

lemma idx_Ok_iff [outcome_simps]: "idx xs i = Ok x \<longleftrightarrow> i < length xs \<and> x = xs ! i"
  by (auto simp: idx_def)

lemma idx_not_Err [simp]: "idx xs i \<noteq> Err e"
  by (simp add: idx_def)

lemma idx_Panic_iff [no_panic]: "idx xs i = Panic \<longleftrightarrow> length xs \<le> i"
  by (auto simp: idx_def)

lemma subslice_ok [simp]: "a \<le> b \<Longrightarrow> b \<le> length xs \<Longrightarrow> subslice xs a b = Ok (take (b - a) (drop a xs))"
  by (simp add: subslice_def)

lemma subslice_Ok_iff [outcome_simps]:
  "subslice xs a b = Ok ys \<longleftrightarrow> a \<le> b \<and> b \<le> length xs \<and> ys = take (b - a) (drop a xs)"
  by (auto simp: subslice_def)

lemma subslice_not_Err [simp]: "subslice xs a b \<noteq> Err e"
  by (simp add: subslice_def)

lemma subslice_Panic_iff [no_panic]: "subslice xs a b = Panic \<longleftrightarrow> b < a \<or> length xs < b"
  by (auto simp: subslice_def)

lemma slice_from_Panic_iff [no_panic]: "slice_from xs a = Panic \<longleftrightarrow> length xs < a"
  by (auto simp: slice_from_def)

lemma slice_from_ok [simp]: "a \<le> length xs \<Longrightarrow> slice_from xs a = Ok (drop a xs)"
  by (simp add: slice_from_def)

lemma slice_from_Ok_iff [outcome_simps]:
  "slice_from xs a = Ok ys \<longleftrightarrow> a \<le> length xs \<and> ys = drop a xs"
  by (auto simp: slice_from_def)

lemma slice_from_not_Err [simp]: "slice_from xs a \<noteq> Err e"
  by (simp add: slice_from_def)

text \<open>
  \<open>+\<close>, \<open>*\<close> and \<open>pow\<close> on \<open>u32\<close> panic on overflow in a debug build; \<open>usize\<close> is 64 bits wide and
  \<open>checked_add\<close> gives \<open>None\<close> on overflow. Positions in a buffer are naturals.
\<close>

definition add_u32 :: "u32 \<Rightarrow> u32 \<Rightarrow> ('e, u32) outcome" where
  "add_u32 a b = (if unat a + unat b < 2 ^ 32 then Ok (a + b) else Panic)"

definition mul_u32 :: "u32 \<Rightarrow> u32 \<Rightarrow> ('e, u32) outcome" where
  "mul_u32 a b = (if unat a * unat b < 2 ^ 32 then Ok (a * b) else Panic)"

definition pow_u32 :: "u32 \<Rightarrow> nat \<Rightarrow> ('e, u32) outcome" where
  "pow_u32 a n = (if unat a ^ n < 2 ^ 32 then Ok (a ^ n) else Panic)"

definition usize_checked_add :: "nat \<Rightarrow> nat \<Rightarrow> nat option" where
  "usize_checked_add a b = (if a + b < 2 ^ 64 then Some (a + b) else None)"

lemma usize_checked_add_small [simp]: "a + b < 2 ^ 64 \<Longrightarrow> usize_checked_add a b = Some (a + b)"
  by (simp add: usize_checked_add_def)

lemma usize_checked_add_Some_iff [outcome_simps]:
  "usize_checked_add a b = Some c \<longleftrightarrow> a + b < 2 ^ 64 \<and> c = a + b"
  by (auto simp: usize_checked_add_def)

section \<open>Big-endian fields\<close>

definition from_be_bytes :: "u8 \<Rightarrow> u8 \<Rightarrow> u16" where
  "from_be_bytes hi lo = push_bit 8 (ucast hi) OR ucast lo"

definition to_be_bytes :: "u16 \<Rightarrow> bytes" where
  "to_be_bytes w = [ucast (drop_bit 8 w), ucast w]"

lemma length_to_be_bytes [simp]: "length (to_be_bytes w) = 2"
  by (simp add: to_be_bytes_def)

lemma from_to_be_bytes [simp]: "from_be_bytes (to_be_bytes w ! 0) (to_be_bytes w ! Suc 0) = w"
  by (rule bit_word_eqI)
    (auto simp: from_be_bytes_def to_be_bytes_def bit_simps not_less)

lemma unat_u8_less [simp]: "unat (b :: u8) < 256"
  using unsigned_less [of b, where 'a = nat] by simp

lemma unat_u8_mod [simp]: "256 \<le> m \<Longrightarrow> unat (b :: u8) mod m = unat b"
  using unat_u8_less [of b] by (simp del: unat_u8_less)

lemma unat_u16_less [simp]: "unat (b :: u16) < 65536"
  using unsigned_less [of b, where 'a = nat] by simp

lemma unat_u32_less [simp]: "unat (b :: u32) < 4294967296"
  using unsigned_less [of b, where 'a = nat] by simp

lemma unat_from_be_bytes: "unat (from_be_bytes hi lo) = 256 * unat hi + unat lo"
proof -
  have disj: "push_bit 8 (ucast hi) AND ucast lo = (0::u16)"
    by (rule bit_word_eqI) (auto simp: bit_simps dest: bit_imp_le_length)
  have "from_be_bytes hi lo = push_bit 8 (ucast hi) + ucast lo"
    using disj by (simp add: from_be_bytes_def disjunctive_add_eq_or)
  moreover have "unat (push_bit 8 (ucast hi) :: u16) = 256 * unat hi"
    using unat_u8_less [of hi]
    by (simp add: push_bit_eq_mult unat_word_ariths unsigned_ucast_eq take_bit_eq_mod mod_mult_left_eq)
  moreover have "unat (ucast lo :: u16) = unat lo"
    using unat_u8_less [of lo] by (simp add: unsigned_ucast_eq take_bit_eq_mod)
  moreover have "256 * unat hi + unat lo < 65536"
    using unat_u8_less [of hi] unat_u8_less [of lo] by linarith
  ultimately show ?thesis by (simp add: unat_word_ariths)
qed

lemma from_be_bytes_eq_0_iff [simp]: "from_be_bytes hi lo = 0 \<longleftrightarrow> hi = 0 \<and> lo = 0"
proof -
  have "from_be_bytes hi lo = 0 \<longleftrightarrow> unat (from_be_bytes hi lo) = 0"
    by (simp only: unsigned_eq_0_iff)
  also have "\<dots> \<longleftrightarrow> unat hi = 0 \<and> unat lo = 0"
    by (simp only: unat_from_be_bytes) simp
  finally show ?thesis by (simp only: unsigned_eq_0_iff)
qed

section \<open>Strings\<close>

text \<open>
  A Rust \<open>str\<close> is a UTF-8 byte sequence. It is modelled as a HOL string whose characters are
  those bytes, so that ASCII literals can be written as they are; \<open>as_bytes\<close> reads the bytes and
  \<open>rust_str\<close> says that they are valid UTF-8, which Rust's type guarantees. The separators and
  wildcards the program looks for are ASCII, and no byte of a multi-byte UTF-8 sequence is ASCII,
  so searching and splitting by byte is searching and splitting by \<open>char\<close>.
\<close>

definition as_bytes :: "string \<Rightarrow> bytes" where
  "as_bytes s = map of_char s"

definition of_bytes :: "bytes \<Rightarrow> string" where
  "of_bytes bs = map (\<lambda>b. char_of (unat b)) bs"

lemma unat_of_char_u8 [simp]: "unat (of_char c :: u8) = of_char c"
proof -
  have "(of_char c :: u8) = of_nat (of_char c)"
    by (simp add: of_nat_of_char)
  moreover have "of_char c < (256 :: nat)"
    by (rule nat_of_char_less_256)
  ultimately show ?thesis by (simp add: unat_of_nat)
qed

lemma of_char_char_of_u8 [simp]: "(of_char (char_of (unat (b :: u8))) :: u8) = b"
  by (rule word_unat_eq_iff [THEN iffD2]) simp

lemma of_bytes_as_bytes [simp]: "of_bytes (as_bytes s) = s"
  by (simp add: of_bytes_def as_bytes_def comp_def)

lemma as_bytes_of_bytes [simp]: "as_bytes (of_bytes bs) = bs"
  by (simp add: of_bytes_def as_bytes_def comp_def)

lemma length_as_bytes [simp]: "length (as_bytes s) = length s"
  by (simp add: as_bytes_def)

lemma length_of_bytes [simp]: "length (of_bytes bs) = length bs"
  by (simp add: of_bytes_def)

lemma as_bytes_inject [simp]: "as_bytes s = as_bytes t \<longleftrightarrow> s = t"
  by (metis of_bytes_as_bytes)

lemma as_bytes_Nil_iff [simp]: "as_bytes s = [] \<longleftrightarrow> s = []"
  by (simp add: as_bytes_def)

subsection \<open>UTF-8\<close>

text \<open>
  The validity test of \<open>std::str::from_utf8\<close>, byte range by byte range: no overlong forms, no
  surrogates, nothing above U+10FFFF.
\<close>

definition utf8_cont :: "u8 \<Rightarrow> bool" where
  "utf8_cont b \<longleftrightarrow> 0x80 \<le> b \<and> b \<le> 0xBF"

definition utf8_second3 :: "u8 \<Rightarrow> u8 \<Rightarrow> bool" where
  "utf8_second3 a b \<longleftrightarrow>
     (if a = 0xE0 then 0xA0 \<le> b \<and> b \<le> 0xBF
      else if a = 0xED then 0x80 \<le> b \<and> b \<le> 0x9F
      else utf8_cont b)"

definition utf8_second4 :: "u8 \<Rightarrow> u8 \<Rightarrow> bool" where
  "utf8_second4 a b \<longleftrightarrow>
     (if a = 0xF0 then 0x90 \<le> b \<and> b \<le> 0xBF
      else if a = 0xF4 then 0x80 \<le> b \<and> b \<le> 0x8F
      else utf8_cont b)"

fun utf8_valid :: "bytes \<Rightarrow> bool" where
  "utf8_valid [] = True"
| "utf8_valid (a # xs) =
     (if a < 0x80 then utf8_valid xs
      else if 0xC2 \<le> a \<and> a \<le> 0xDF then
        (case xs of b # ys \<Rightarrow> utf8_cont b \<and> utf8_valid ys | _ \<Rightarrow> False)
      else if 0xE0 \<le> a \<and> a \<le> 0xEF then
        (case xs of b # c # ys \<Rightarrow> utf8_second3 a b \<and> utf8_cont c \<and> utf8_valid ys | _ \<Rightarrow> False)
      else if 0xF0 \<le> a \<and> a \<le> 0xF4 then
        (case xs of b # c # d # ys \<Rightarrow>
             utf8_second4 a b \<and> utf8_cont c \<and> utf8_cont d \<and> utf8_valid ys
         | _ \<Rightarrow> False)
      else False)"

definition from_utf8 :: "bytes \<Rightarrow> string option" where
  "from_utf8 bs = (if utf8_valid bs then Some (of_bytes bs) else None)"

definition rust_str :: "string \<Rightarrow> bool" where
  "rust_str s \<longleftrightarrow> utf8_valid (as_bytes s)"

lemma from_utf8_Some_iff: "from_utf8 bs = Some s \<longleftrightarrow> rust_str s \<and> bs = as_bytes s"
  by (auto simp: from_utf8_def rust_str_def)

lemma utf8_valid_ascii: "\<forall>b \<in> set bs. b < 0x80 \<Longrightarrow> utf8_valid bs"
  by (induction bs) auto

subsection \<open>Splitting\<close>

text \<open>\<open>s.split(c).collect()\<close>: one more piece than separators, never empty.\<close>

fun split_on :: "char \<Rightarrow> string \<Rightarrow> string list" where
  "split_on c [] = [[]]"
| "split_on c (x # xs) =
     (if x = c then [] # split_on c xs
      else (case split_on c xs of [] \<Rightarrow> [[x]] | p # ps \<Rightarrow> (x # p) # ps))"

fun join_with :: "char \<Rightarrow> string list \<Rightarrow> string" where
  "join_with c [] = []"
| "join_with c [p] = p"
| "join_with c (p # q # ps) = p @ c # join_with c (q # ps)"

lemma split_on_not_Nil [simp]: "split_on c s \<noteq> []"
  by (induction s) (auto split: list.splits)

lemma split_on_no_sep: "p \<in> set (split_on c s) \<Longrightarrow> c \<notin> set p"
  by (induction s arbitrary: p) (auto split: list.splits if_splits)

lemma join_with_Cons_piece: "join_with c ((x # p) # ps) = x # join_with c (p # ps)"
  by (cases ps) auto

lemma join_split [simp]: "join_with c (split_on c s) = s"
proof (induction s)
  case Nil
  then show ?case by simp
next
  case (Cons x xs)
  obtain p ps where p: "split_on c xs = p # ps"
    by (metis neq_Nil_conv split_on_not_Nil)
  with Cons show ?case
    by (auto simp: join_with_Cons_piece)
qed

lemma split_on_inject: "split_on c s = split_on c t \<longleftrightarrow> s = t"
  by (metis join_split)

lemma mem_split_on_iff: "x \<noteq> c \<Longrightarrow> (\<exists>p \<in> set (split_on c s). x \<in> set p) \<longleftrightarrow> x \<in> set s"
proof (induction s)
  case Nil
  then show ?case by simp
next
  case (Cons y ys)
  then show ?case by (cases "split_on c ys") auto
qed

section \<open>Hash maps and vectors\<close>

text \<open>
  A \<open>HashMap\<close> is a map; iterating over one visits every key once, in an order the code must not
  depend on. An iteration order is a list of keys with \<open>iter_order m ks\<close>.
\<close>

definition iter_order :: "('k \<rightharpoonup> 'v) \<Rightarrow> 'k list \<Rightarrow> bool" where
  "iter_order m ks \<longleftrightarrow> distinct ks \<and> set ks = dom m"

lemma iter_order_exists: "finite (dom m) \<Longrightarrow> \<exists>ks. iter_order m ks"
  unfolding iter_order_def by (metis finite_distinct_list)

lemma iter_order_mem: "iter_order m ks \<Longrightarrow> k \<in> set ks \<longleftrightarrow> (\<exists>v. m k = Some v)"
  by (auto simp: iter_order_def)

text \<open>\<open>if !v.contains(&x) { v.push(x) }\<close> and \<open>v.retain(|&y| y != x)\<close>.\<close>

definition push_unique :: "'a \<Rightarrow> 'a list \<Rightarrow> 'a list" where
  "push_unique x xs = (if x \<in> set xs then xs else xs @ [x])"

definition retain_ne :: "'a \<Rightarrow> 'a list \<Rightarrow> 'a list" where
  "retain_ne x xs = filter (\<lambda>y. y \<noteq> x) xs"

lemma set_push_unique [simp]: "set (push_unique x xs) = insert x (set xs)"
  by (auto simp: push_unique_def)

lemma distinct_push_unique [simp]: "distinct (push_unique x xs) = distinct xs"
  by (auto simp: push_unique_def)

lemma set_retain_ne [simp]: "set (retain_ne x xs) = set xs - {x}"
  by (auto simp: retain_ne_def)

lemma distinct_retain_ne [simp]: "distinct xs \<Longrightarrow> distinct (retain_ne x xs)"
  by (simp add: retain_ne_def)

text \<open>\<open>m.values()\<close>, in the iteration order \<open>ks\<close>.\<close>

definition values_in :: "('k \<rightharpoonup> 'v) \<Rightarrow> 'k list \<Rightarrow> 'v list" where
  "values_in m ks = concat (map (\<lambda>k. case m k of None \<Rightarrow> [] | Some v \<Rightarrow> [v]) ks)"

lemma set_values_in: "iter_order m ks \<Longrightarrow> set (values_in m ks) = ran m"
  by (force simp: values_in_def iter_order_def ran_def split: option.splits)

lemma values_in_Cons: "values_in m (k # ks) = (case m k of None \<Rightarrow> [] | Some v \<Rightarrow> [v]) @ values_in m ks"
  by (simp add: values_in_def)

end
