(* ===== verification/Errors.thy ===== *)
theory Errors
  imports Prelude
begin

text \<open>
  \<open>src/error.rs\<close>: the reasons for which decoding fails, the errors of the broker layer, and
  their \<open>Display\<close> texts. Messages carried by the variants are the source's texts without the
  section signs and arrows that are not ASCII and the quotes around a character.
\<close>

datatype protocol_error =
    Incomplete
  | InvalidRemainingLength
  | UnknownPacketType u8
  | UnsupportedFeature string
  | MalformedPayload string

type_synonym 'a decoded = "(protocol_error, 'a) outcome"

text \<open>\<open>{t:#04x}\<close> on a byte: the prefix \<open>0x\<close> and two lower-case hexadecimal digits.\<close>

definition hex_digit :: "nat \<Rightarrow> char" where
  "hex_digit n = ''0123456789abcdef'' ! n"

definition fmt_hex_byte :: "u8 \<Rightarrow> string" where
  "fmt_hex_byte b = ''0x'' @ [hex_digit (unat b div 16), hex_digit (unat b mod 16)]"

fun display_protocol_error :: "protocol_error \<Rightarrow> string" where
  "display_protocol_error Incomplete = ''incomplete packet, need more bytes''"
| "display_protocol_error InvalidRemainingLength = ''invalid remaining length encoding''"
| "display_protocol_error (UnknownPacketType t) = ''unknown packet type: '' @ fmt_hex_byte t"
| "display_protocol_error (UnsupportedFeature s) = ''unsupported feature: '' @ s"
| "display_protocol_error (MalformedPayload s) = ''malformed payload: '' @ s"

text \<open>
  \<open>BrokerError\<close> wraps an I/O error of the standard library, whose type is a parameter here, or a
  protocol error; the two \<open>From\<close> implementations are its constructors.
\<close>

datatype 'io broker_error = Io 'io | Protocol protocol_error

definition broker_error_from_io :: "'io \<Rightarrow> 'io broker_error" where
  "broker_error_from_io e = Io e"

definition broker_error_from_protocol :: "protocol_error \<Rightarrow> 'io broker_error" where
  "broker_error_from_protocol e = Protocol e"

fun display_broker_error :: "('io \<Rightarrow> string) \<Rightarrow> 'io broker_error \<Rightarrow> string" where
  "display_broker_error show_io (Io e) = ''io error: '' @ show_io e"
| "display_broker_error show_io (Protocol e) = ''protocol error: '' @ display_protocol_error e"

lemma hex_digit_inject: "m < 16 \<Longrightarrow> n < 16 \<Longrightarrow> hex_digit m = hex_digit n \<Longrightarrow> m = n"
proof -
  have "distinct ''0123456789abcdef''" and "length ''0123456789abcdef'' = 16"
    by simp_all
  then show "m < 16 \<Longrightarrow> n < 16 \<Longrightarrow> hex_digit m = hex_digit n \<Longrightarrow> m = n"
    unfolding hex_digit_def by (metis nth_eq_iff_index_eq)
qed

lemma fmt_hex_byte_inject: "fmt_hex_byte a = fmt_hex_byte b \<longleftrightarrow> a = b"
proof
  assume "fmt_hex_byte a = fmt_hex_byte b"
  then have d: "hex_digit (unat a div 16) = hex_digit (unat b div 16)"
    and m: "hex_digit (unat a mod 16) = hex_digit (unat b mod 16)"
    by (simp_all add: fmt_hex_byte_def)
  have "unat a div 16 < 16" and "unat b div 16 < 16"
    using unat_u8_less [of a] unat_u8_less [of b] by linarith+
  with d have "unat a div 16 = unat b div 16" by (blast intro: hex_digit_inject)
  moreover from m have "unat a mod 16 = unat b mod 16" by (rule hex_digit_inject [rotated 2]) simp_all
  ultimately have "unat a = unat b" by (metis div_mult_mod_eq)
  then show "a = b" by (rule word_unat_eq_iff [THEN iffD2])
qed simp

text \<open>The text of an error determines the error: no two rejections read the same in the log.\<close>

lemma display_protocol_error_inject:
  "display_protocol_error e = display_protocol_error e' \<longleftrightarrow> e = e'"
  by (cases e; cases e') (simp_all add: fmt_hex_byte_inject)

end
