(* ===== verification/Remaining_Length.thy ===== *)
theory Remaining_Length
  imports Errors
begin

text \<open>
  The variable-length Remaining Length field of MQTT 3.1.1 (section 2.2.3): the contract of a codec
  for it, as a locale, a reference codec over the naturals, and the codec of \<open>src/protocol.rs\<close>
  proved equal to the reference. \<open>src/bin/blitzclient.rs\<close> has a codec of its own, which
  \<open>Client_Wire\<close> proves to keep the same contract.
\<close>

section \<open>Contract\<close>

definition max_remaining_length :: nat where
  "max_remaining_length = 268435455"

text \<open>
  A decoder returns the value and the number of bytes it read, the rest of the input left alone.
\<close>

locale length_codec =
  fixes enc :: "u32 \<Rightarrow> bytes"
    and dec :: "bytes \<Rightarrow> ('e, u32 \<times> nat) outcome"
  assumes dec_enc: "unat n \<le> max_remaining_length \<Longrightarrow> dec (enc n @ rest) = Ok (n, length (enc n))"
    and dec_consumed: "dec buf = Ok (n, k) \<Longrightarrow> 0 < k \<and> k \<le> 4 \<and> k \<le> length buf \<and> unat n \<le> max_remaining_length"
    and dec_extend: "dec buf = Ok (n, k) \<Longrightarrow> dec (buf @ more) = Ok (n, k)"
    and dec_no_panic: "dec buf \<noteq> Panic"
begin

text \<open>A length field is a prefix code: an encoding is never a proper prefix of another.\<close>

lemma enc_inject:
  assumes "unat m \<le> max_remaining_length" and "unat n \<le> max_remaining_length"
    and "enc m @ xs = enc n @ ys"
  shows "m = n \<and> xs = ys"
proof -
  have "Ok (m, length (enc m)) = dec (enc m @ xs)"
    using assms(1) by (simp add: dec_enc)
  also have "\<dots> = dec (enc n @ ys)"
    by (simp only: assms(3))
  also have "\<dots> = Ok (n, length (enc n))"
    using assms(2) by (simp add: dec_enc)
  finally have "m = n" by simp
  with assms(3) show ?thesis by simp
qed

lemma length_enc: "unat n \<le> max_remaining_length \<Longrightarrow> 0 < length (enc n) \<and> length (enc n) \<le> 4"
  using dec_enc [of n "[]"] dec_consumed [of "enc n @ []" n "length (enc n)"] by simp

text \<open>A body framed by its length is found again, whatever follows it.\<close>

lemma dec_framed:
  assumes "length body \<le> max_remaining_length"
  shows "\<exists>k. dec (enc (of_nat (length body)) @ body @ rest) = Ok (of_nat (length body), k) \<and>
    k = length (enc (of_nat (length body))) \<and> unat (of_nat (length body) :: u32) = length body"
proof -
  have "unat (of_nat (length body) :: u32) = length body"
    using assms by (simp add: max_remaining_length_def unat_of_nat)
  with assms show ?thesis by (simp add: dec_enc)
qed

end

section \<open>Reference codec\<close>

text \<open>
  Seven bits per byte, least significant group first, the top bit set on every byte but the last;
  at most \<open>k\<close> bytes are read.
\<close>

fun rl_decode_spec :: "nat \<Rightarrow> bytes \<Rightarrow> (nat \<times> nat) decoded" where
  "rl_decode_spec 0 bs = Err InvalidRemainingLength"
| "rl_decode_spec (Suc k) [] = Err Incomplete"
| "rl_decode_spec (Suc k) (b # bs) =
     (if unat b < 128 then Ok (unat b, 1)
      else map_ok (\<lambda>(v, n). (128 * v + (unat b - 128), Suc n)) (rl_decode_spec k bs))"

fun rl_encode_spec :: "nat \<Rightarrow> nat list" where
  "rl_encode_spec n = (if n < 128 then [n] else (n mod 128 + 128) # rl_encode_spec (n div 128))"

declare rl_encode_spec.simps [simp del]

lemma rl_encode_spec_bytes: "x \<in> set (rl_encode_spec n) \<Longrightarrow> x < 256"
proof (induction n rule: rl_encode_spec.induct)
  case (1 n)
  have "n mod 128 < 128" by simp
  then have "n mod 128 + 128 < 256" by linarith
  with 1 show ?case
    by (cases "n < 128") (auto simp: rl_encode_spec.simps [of n])
qed

lemma rl_spec_roundtrip:
  "n < 128 ^ Suc k \<Longrightarrow>
   rl_decode_spec (Suc k) (map of_nat (rl_encode_spec n) @ rest) = Ok (n, length (rl_encode_spec n))"
proof (induction k arbitrary: n)
  case 0
  then show ?case by (simp add: rl_encode_spec.simps [of n] unat_of_nat)
next
  case (Suc k)
  show ?case
  proof (cases "n < 128")
    case True
    then show ?thesis by (simp add: rl_encode_spec.simps [of n] unat_of_nat)
  next
    case False
    from Suc.prems have "n div 128 < 128 ^ Suc k"
      by (simp add: less_mult_imp_div_less mult.commute)
    from Suc.IH [OF this] have "rl_decode_spec (Suc k) (map of_nat (rl_encode_spec (n div 128)) @ rest) =
        Ok (n div 128, length (rl_encode_spec (n div 128)))" .
    moreover have "unat (of_nat (n mod 128 + 128) :: u8) = n mod 128 + 128"
    proof -
      have "n mod 128 < 128" by simp
      then have "n mod 128 + 128 < 256" by linarith
      then show ?thesis by (simp add: unat_of_nat del: of_nat_add)
    qed
    ultimately show ?thesis
      using False by (simp add: rl_encode_spec.simps [of n] del: rl_decode_spec.simps(1) of_nat_add)
  qed
qed

lemma rl_encode_spec_length: "length (rl_encode_spec n) \<le> Suc k \<longleftrightarrow> n < 128 ^ Suc k"
proof (induction k arbitrary: n)
  case 0
  then show ?case by (subst rl_encode_spec.simps) (auto simp: rl_encode_spec.simps [of "n div 128"])
next
  case (Suc k)
  show ?case
  proof (cases "n < 128")
    case True
    have "(128 :: nat) \<le> 128 ^ Suc (Suc k)" by simp
    with True have "n < 128 ^ Suc (Suc k)" by (rule less_le_trans)
    with True show ?thesis by (simp add: rl_encode_spec.simps [of n])
  next
    case False
    have "n div 128 < 128 ^ Suc k \<longleftrightarrow> n < 128 ^ Suc (Suc k)"
      by (simp add: div_less_iff_less_mult mult.commute)
    with False Suc.IH [of "n div 128"] show ?thesis
      by (simp add: rl_encode_spec.simps [of n])
  qed
qed

lemma rl_decode_spec_Ok:
  "rl_decode_spec k bs = Ok (v, n) \<Longrightarrow> v < 128 ^ k \<and> 0 < n \<and> n \<le> k \<and> n \<le> length bs"
proof (induction k bs arbitrary: v n rule: rl_decode_spec.induct)
  case (3 k b bs)
  show ?case
  proof (cases "unat b < 128")
    case True
    have "(128 :: nat) \<le> 128 ^ Suc k" by simp
    with True have "unat b < 128 ^ Suc k" by (rule less_le_trans)
    with True "3.prems" show ?thesis by auto
  next
    case False
    with "3.prems" obtain w m where w: "rl_decode_spec k bs = Ok (w, m)"
      and v: "v = 128 * w + (unat b - 128)" and n: "n = Suc m"
      by (auto simp: map_ok_Ok_iff)
    from "3.IH" [OF False w] have IH: "w < 128 ^ k" "m \<le> k" "m \<le> length bs" by simp_all
    have "unat b - 128 < 128" using unat_u8_less [of b] by linarith
    with v IH(1) have "v < 128 * Suc w" by simp
    also have "\<dots> \<le> 128 * 128 ^ k" using IH(1) by (intro mult_le_mono2) simp
    finally show ?thesis using IH n by simp
  qed
qed simp_all

lemma rl_decode_spec_extend:
  "rl_decode_spec k bs = Ok r \<Longrightarrow> rl_decode_spec k (bs @ more) = Ok r"
  by (induction k bs arbitrary: r rule: rl_decode_spec.induct) (auto simp: map_ok_Ok_iff)

lemma rl_decode_spec_extend_Err:
  "rl_decode_spec k bs = Err e \<Longrightarrow> e \<noteq> Incomplete \<Longrightarrow> rl_decode_spec k (bs @ more) = Err e"
  by (induction k bs rule: rl_decode_spec.induct) auto

lemma rl_decode_spec_no_panic: "rl_decode_spec k bs \<noteq> Panic"
  by (induction k bs rule: rl_decode_spec.induct) auto

section \<open>The codec of the broker\<close>

text \<open>
  The loop of \<open>decode_remaining_length\<close>: at most four rounds, each indexing the buffer and adding
  \<open>(byte & 0x7F) * 128^i\<close> in \<open>u32\<close>, any overflow of which would panic.
\<close>

function decode_rl_loop :: "bytes \<Rightarrow> u32 \<Rightarrow> nat \<Rightarrow> (u32 \<times> nat) decoded" where
  "decode_rl_loop buf value i =
     (if 4 \<le> i then Err InvalidRemainingLength
      else if length buf \<le> i then Err Incomplete
      else and_then (idx buf i) (\<lambda>encoded_byte.
           and_then (pow_u32 128 i) (\<lambda>multiplier.
           and_then (mul_u32 (ucast encoded_byte AND 0x7F) multiplier) (\<lambda>part.
           and_then (add_u32 value part) (\<lambda>value'.
             if encoded_byte AND 0x80 = 0 then Ok (value', i + 1)
             else decode_rl_loop buf value' (i + 1))))))"
  by pat_completeness auto
termination
  by (relation "measure (\<lambda>(buf, value, i). 4 - i)") auto

declare decode_rl_loop.simps [simp del]

definition decode_remaining_length :: "bytes \<Rightarrow> (u32 \<times> nat) decoded" where
  "decode_remaining_length buf = decode_rl_loop buf 0 0"

function encode_rl_loop :: "u32 \<Rightarrow> bytes" where
  "encode_rl_loop x =
     (let encoded_byte = ucast (x mod 128) :: u8;
          x' = x div 128;
          encoded_byte' = (if 0 < x' then encoded_byte OR 0x80 else encoded_byte)
      in if x' = 0 then [encoded_byte'] else encoded_byte' # encode_rl_loop x')"
  by pat_completeness auto
termination
proof (relation "measure unat", goal_cases)
  case (2 x encoded_byte x' encoded_byte')
  then have "x div 128 \<noteq> 0" by simp
  then have "unat (x div 128) \<noteq> 0" by (simp only: unsigned_eq_0_iff not_False_eq_True)
  then have "unat x div 128 \<noteq> 0" by (simp add: unat_div)
  then have "unat x div 128 < unat x" by simp
  with 2 show ?case by (simp add: unat_div)
qed simp

declare encode_rl_loop.simps [simp del]

definition encode_remaining_length :: "u32 \<Rightarrow> bytes" where
  "encode_remaining_length len = encode_rl_loop len"


subsection \<open>Byte arithmetic\<close>

lemma high_bit_iff: "b AND 0x80 = 0 \<longleftrightarrow> unat (b :: u8) < 128"
proof -
  have "b AND 0x80 = 0 \<longleftrightarrow> \<not> bit b 7"
    using and_exp_eq_0_iff_not_bit [of b 7] by simp
  also have "bit b 7 \<longleftrightarrow> bit (unat b) 7"
    by (simp add: bit_unsigned_iff)
  also have "\<dots> \<longleftrightarrow> odd (unat b div 128)"
    by (simp add: bit_iff_odd)
  finally have "b AND 0x80 = 0 \<longleftrightarrow> even (unat b div 128)" by simp
  moreover have "unat b div 128 = (if unat b < 128 then 0 else 1)"
  proof (cases "unat b < 128")
    case False
    moreover have "unat b < 2 * 128" using unat_u8_less [of b] by linarith
    ultimately have "unat b div 128 = 1" by (intro div_nat_eqI) simp_all
    with False show ?thesis by simp
  qed simp
  ultimately show ?thesis by simp
qed

lemma unat_low_bits: "unat (ucast (b :: u8) AND 0x7F :: u32) = unat b mod 128"
proof -
  have "ucast b AND 0x7F = (take_bit 7 (ucast b) :: u32)"
    by (simp add: take_bit_eq_mask mask_eq_exp_minus_1 del: take_bit_eq_mod)
  then have "unat (ucast b AND 0x7F :: u32) = take_bit 7 (unat b)"
    by (simp only: unsigned_take_bit_eq) (simp add: unsigned_ucast_eq take_bit_eq_mod)
  then show ?thesis by (simp add: take_bit_eq_mod)
qed

lemma set_high_bit: "m < 128 \<Longrightarrow> (of_nat m :: u8) OR 0x80 = of_nat (m + 128)"
proof -
  assume m: "m < 128"
  then have "unat (of_nat m :: u8) < 128" by (simp add: unat_of_nat)
  then have "(of_nat m :: u8) AND 0x80 = 0" by (simp only: high_bit_iff)
  from disjunctive_add_eq_or [OF this] show ?thesis by simp
qed

lemma ucast_mod_128: "(ucast (x mod 128 :: u32) :: u8) = of_nat (unat x mod 128)"
  by (rule word_unat_eq_iff [THEN iffD2])
    (simp add: unsigned_ucast_eq take_bit_eq_mod unat_mod unat_of_nat)

subsection \<open>Equivalence with the reference\<close>

lemma encode_rl_loop_spec: "encode_rl_loop x = map of_nat (rl_encode_spec (unat x))"
proof (induction x rule: encode_rl_loop.induct)
  case (1 x)
  have z: "x div 128 = 0 \<longleftrightarrow> unat x < 128"
  proof -
    have "x div 128 = 0 \<longleftrightarrow> unat (x div 128) = 0" by (simp only: unsigned_eq_0_iff)
    then show ?thesis by (simp add: unat_div div_eq_0_iff)
  qed
  show ?case
  proof (cases "unat x < 128")
    case True
    with z show ?thesis
      by (simp add: encode_rl_loop.simps [of x] rl_encode_spec.simps [of "unat x"] ucast_mod_128)
  next
    case False
    with z have nz: "x div 128 \<noteq> 0" by simp
    then have pos: "0 < x div 128" by (simp add: word_gt_0)
    have "encode_rl_loop (x div 128) = map of_nat (rl_encode_spec (unat x div 128))"
      using 1 [OF refl refl refl nz] by (simp add: unat_div)
    with nz pos False show ?thesis
      by (simp add: encode_rl_loop.simps [of x] rl_encode_spec.simps [of "unat x"] ucast_mod_128
          set_high_bit del: of_nat_add)
  qed
qed


lemma pow_u32_128:
  assumes "i < 4"
  shows "pow_u32 128 i = Ok (of_nat (128 ^ i))"
proof -
  have "(128 :: nat) ^ i \<le> 128 ^ 3"
    using assms by (intro power_increasing) simp_all
  then have "(128 :: nat) ^ i < 2 ^ 32" by simp
  then show ?thesis by (simp add: pow_u32_def)
qed

lemma mul_u32_ok:
  "unat a * n < 2 ^ 32 \<Longrightarrow> n < 2 ^ 32 \<Longrightarrow> mul_u32 a (of_nat n) = Ok (of_nat (unat a * n))"
  by (simp add: mul_u32_def unat_of_nat)

lemma add_u32_ok:
  "unat a + n < 2 ^ 32 \<Longrightarrow> add_u32 a (of_nat n) = Ok (of_nat (unat a + n))"
  by (simp add: add_u32_def unat_of_nat)

lemma round_bounds:
  assumes "i < 4" and "v < 128 ^ i" and "b < (128 :: nat)"
  shows "128 ^ i < (2 :: nat) ^ 32" and "b * 128 ^ i < 2 ^ 32" and "v + b * 128 ^ i < 128 ^ Suc i"
    and "v + b * 128 ^ i < 2 ^ 32"
proof -
  have p: "(128 :: nat) ^ Suc i \<le> 128 ^ 4"
    using assms(1) by (intro power_increasing) simp_all
  show le: "v + b * 128 ^ i < 128 ^ Suc i"
  proof -
    have "b * 128 ^ i \<le> 127 * 128 ^ i" using assms(3) by (intro mult_le_mono1) linarith
    with assms(2) have "v + b * 128 ^ i < 128 ^ i + 127 * 128 ^ i" by (rule add_less_le_mono)
    then show ?thesis by simp
  qed
  with p show "v + b * 128 ^ i < 2 ^ 32" by simp
  then show "b * 128 ^ i < 2 ^ 32" by simp
  from p show "128 ^ i < (2 :: nat) ^ 32" by simp
qed

lemma decode_rl_round:
  assumes "i < 4" and "i < length buf" and "unat v < 128 ^ i"
  defines "m \<equiv> unat v + (unat (buf ! i) mod 128) * 128 ^ i"
  shows "decode_rl_loop buf v i =
      (if unat (buf ! i) < 128 then Ok (of_nat m, i + 1) else decode_rl_loop buf (of_nat m) (i + 1))"
    and "unat (of_nat m :: u32) = m" and "m < 128 ^ Suc i"
proof -
  have low: "unat (buf ! i) mod 128 < 128" by simp
  note rb = round_bounds [OF assms(1,3) low]
  have part: "mul_u32 (ucast (buf ! i) AND 0x7F) (of_nat (128 ^ i)) =
      Ok (of_nat ((unat (buf ! i) mod 128) * 128 ^ i))"
    using mul_u32_ok [of "ucast (buf ! i) AND 0x7F" "128 ^ i", unfolded unat_low_bits, OF rb(2,1)] .
  show "decode_rl_loop buf v i =
      (if unat (buf ! i) < 128 then Ok (of_nat m, i + 1) else decode_rl_loop buf (of_nat m) (i + 1))"
    using assms(1,2) unfolding m_def
    by (subst decode_rl_loop.simps)
      (simp only: pow_u32_128 idx_ok and_then.simps part add_u32_ok [OF rb(4)] not_le [symmetric]
        if_False if_True simp_thms high_bit_iff)
  show "unat (of_nat m :: u32) = m" and "m < 128 ^ Suc i"
    using rb(3,4) by (simp_all only: m_def) (simp add: unat_of_nat del: of_nat_add of_nat_mult)
qed

lemma decode_rl_loop_spec:
  "i + k = 4 \<Longrightarrow> unat v < 128 ^ i \<Longrightarrow>
   decode_rl_loop buf v i =
     map_ok (\<lambda>(w, n). (of_nat (unat v + w * 128 ^ i), i + n)) (rl_decode_spec k (drop i buf))"
proof (induction k arbitrary: v i)
  case 0
  then show ?case by (simp add: decode_rl_loop.simps [of buf v 4])
next
  case (Suc k)
  show ?case
  proof (cases "i < length buf")
    case False
    with Suc.prems show ?thesis by (simp add: decode_rl_loop.simps [of buf v i])
  next
    case True
    let ?b = "buf ! i" and ?m = "unat v + (unat (buf ! i) mod 128) * 128 ^ i"
    have i: "i < 4" using Suc.prems by simp
    have d: "drop i buf = ?b # drop (Suc i) buf"
      using True by (simp add: Cons_nth_drop_Suc)
    note r = decode_rl_round [OF i True Suc.prems(2)]
    show ?thesis
    proof (cases "unat ?b < 128")
      case small: True
      with r(1) show ?thesis by (simp add: d)
    next
      case False
      then have m: "unat ?b mod 128 = unat ?b - 128"
        using unat_u8_less [of ?b] by (subst le_mod_geq) (simp_all del: unat_u8_less)
      have "decode_rl_loop buf (of_nat ?m) (Suc i) =
          map_ok (\<lambda>(w, n). (of_nat (?m + w * 128 ^ Suc i), Suc i + n))
            (rl_decode_spec k (drop (Suc i) buf))"
        using Suc.IH [of "Suc i" "of_nat ?m"] Suc.prems(1) r(2,3) by (simp del: of_nat_add of_nat_mult)
      moreover have "?m + w * 128 ^ Suc i = unat v + (128 * w + (unat ?b - 128)) * 128 ^ i" for w
        by (simp add: m algebra_simps)
      ultimately show ?thesis
        using r(1) False
        by (cases "rl_decode_spec k (drop (Suc i) buf)")
          (auto simp: d simp del: of_nat_add of_nat_mult power_Suc)
    qed
  qed
qed

lemma decode_remaining_length_spec:
  "decode_remaining_length buf = map_ok (\<lambda>(w, n). (of_nat w, n)) (rl_decode_spec 4 buf)"
  using decode_rl_loop_spec [of 0 4 0 buf] by (simp add: decode_remaining_length_def)

lemma encode_remaining_length_spec:
  "encode_remaining_length x = map of_nat (rl_encode_spec (unat x))"
  by (simp add: encode_remaining_length_def encode_rl_loop_spec)

section \<open>The contract, kept\<close>

interpretation rl: length_codec encode_remaining_length decode_remaining_length
proof (unfold_locales, goal_cases)
  case (1 n rest)
  then have "unat n < 128 ^ Suc 3" by (simp add: max_remaining_length_def)
  from rl_spec_roundtrip [OF this, of rest] show ?case
    by (simp add: decode_remaining_length_spec encode_remaining_length_spec)
next
  case (2 buf n k)
  then obtain w where w: "rl_decode_spec 4 buf = Ok (w, k)" and n: "n = of_nat w"
    by (auto simp: decode_remaining_length_spec map_ok_Ok_iff)
  from rl_decode_spec_Ok [OF w] n show ?case
    by (simp add: max_remaining_length_def unat_of_nat)
next
  case (3 buf n k more)
  then show ?case
    by (auto simp: decode_remaining_length_spec map_ok_Ok_iff dest: rl_decode_spec_extend)
next
  case (4 buf)
  then show ?case by (simp add: decode_remaining_length_spec rl_decode_spec_no_panic)
qed

lemma decode_remaining_length_extend_Err:
  "decode_remaining_length buf = Err e \<Longrightarrow> e \<noteq> Incomplete \<Longrightarrow>
   decode_remaining_length (buf @ more) = Err e"
  by (simp add: decode_remaining_length_spec rl_decode_spec_extend_Err)

lemma decode_remaining_length_Err:
  "decode_remaining_length buf = Err e \<Longrightarrow> e = Incomplete \<or> e = InvalidRemainingLength"
proof -
  have "rl_decode_spec k bs = Err e \<Longrightarrow> e = Incomplete \<or> e = InvalidRemainingLength" for k bs
    by (induction k bs rule: rl_decode_spec.induct) (auto split: if_splits)
  then show "decode_remaining_length buf = Err e \<Longrightarrow> e = Incomplete \<or> e = InvalidRemainingLength"
    by (simp add: decode_remaining_length_spec)
qed

text \<open>Above the protocol's maximum the encoder emits a fifth byte, which no decoder accepts.\<close>

lemma encode_remaining_length_oversize:
  "max_remaining_length < unat n \<Longrightarrow> length (encode_remaining_length n) = 5"
  using rl_encode_spec_length [of "unat n" 3] rl_encode_spec_length [of "unat n" 4] unat_u32_less [of n]
  by (simp add: encode_remaining_length_spec max_remaining_length_def del: unat_u32_less)

lemma rl_decode_spec_oversize:
  "128 ^ k \<le> n \<Longrightarrow> rl_decode_spec k (map of_nat (rl_encode_spec n) @ rest) = Err InvalidRemainingLength"
proof (induction k arbitrary: n)
  case (Suc k)
  let ?b = "of_nat (n mod 128 + 128) :: u8"
  have ge: "128 ^ k \<le> n div 128" using Suc.prems by (simp add: less_eq_div_iff_mult_less_eq mult.commute)
  have "(1 :: nat) \<le> 128 ^ k" by simp
  with ge have n: "\<not> n < 128" by (metis div_less le_trans not_one_le_zero)
  have "n mod 128 + 128 < 256" by (simp add: add_mono_thms_linordered_field)
  then have "\<not> unat ?b < 128" by (simp add: unat_of_nat del: of_nat_add)
  with Suc.IH [OF ge] n show ?case by (simp add: rl_encode_spec.simps [of n] del: of_nat_add)
qed simp

section \<open>Properties\<close>

text \<open>C28: The length field of \<open>protocol.rs\<close>: the decoder, with its \<open>u32\<close> arithmetic and its bound of four
  bytes, and the encoder compute exactly the base-128 reference codec over the naturals, so no
  addition, multiplication or power in them ever overflows.\<close>

theorem remaining_length_refines_reference:
  "decode_remaining_length buf = map_ok (\<lambda>(w, n). (of_nat w, n)) (rl_decode_spec 4 buf) \<and>
   encode_remaining_length x = map of_nat (rl_encode_spec (unat x))"
  by (simp add: decode_remaining_length_spec encode_remaining_length_spec)

text \<open>C29: Every length up to 268435455 is encoded in one to four bytes and decoded back, whatever
  follows it; the encoder gives a larger length five bytes, which the decoder always rejects.\<close>

theorem remaining_length_roundtrip:
  "(unat n \<le> max_remaining_length \<longrightarrow>
      decode_remaining_length (encode_remaining_length n @ rest) = Ok (n, length (encode_remaining_length n)) \<and>
      1 \<le> length (encode_remaining_length n) \<and> length (encode_remaining_length n) \<le> 4) \<and>
   (max_remaining_length < unat n \<longrightarrow>
      length (encode_remaining_length n) = 5 \<and>
      decode_remaining_length (encode_remaining_length n @ rest) = Err InvalidRemainingLength)"
proof (intro conjI impI)
  assume le: "unat n \<le> max_remaining_length"
  then show "decode_remaining_length (encode_remaining_length n @ rest) = Ok (n, length (encode_remaining_length n))"
    by (rule rl.dec_enc)
  from rl.length_enc [OF le] show "1 \<le> length (encode_remaining_length n)" "length (encode_remaining_length n) \<le> 4"
    by linarith+
next
  assume gt: "max_remaining_length < unat n"
  then show "length (encode_remaining_length n) = 5" by (rule encode_remaining_length_oversize)
  from gt have "128 ^ 4 \<le> unat n" by (simp add: max_remaining_length_def)
  from rl_decode_spec_oversize [OF this, of rest]
  show "decode_remaining_length (encode_remaining_length n @ rest) = Err InvalidRemainingLength"
    by (simp add: decode_remaining_length_spec encode_remaining_length_spec)
qed

theorem remaining_length_roundtrip_witness:
  "decode_remaining_length (encode_remaining_length 321 @ [7]) = Ok (321, length (encode_remaining_length 321)) \<and>
   decode_remaining_length (encode_remaining_length 268435456 @ []) = Err InvalidRemainingLength"
  using remaining_length_roundtrip [of 321 "[7]"] remaining_length_roundtrip [of 268435456 "[]"]
  by (simp add: max_remaining_length_def)

end
