(* ===== verification/Topic_Filter.thy ===== *)
theory Topic_Filter
  imports Errors
begin

text \<open>
  Topic names and topic filters (\<open>src/protocol.rs\<close>, section 4.7 of MQTT 3.1.1, and
  \<open>is_wildcard_filter\<close> of \<open>src/broker.rs\<close>): validation of a filter, matching of a topic against a
  filter, and what both mean level by level.
\<close>

definition levels :: "string \<Rightarrow> string list" where
  "levels s = split_on CHR ''/'' s"

lemma levels_not_Nil [simp]: "levels s \<noteq> []"
  by (simp add: levels_def)

lemma levels_inject [simp]: "levels s = levels t \<longleftrightarrow> s = t"
  by (simp add: levels_def split_on_inject)

section \<open>The code\<close>

text \<open>The loop over \<open>levels.iter().enumerate()\<close>, with the index of the level and of the last one.\<close>

fun validate_levels :: "nat \<Rightarrow> nat \<Rightarrow> string list \<Rightarrow> unit decoded" where
  "validate_levels i last_index [] = Ok ()"
| "validate_levels i last_index (level # rest) =
     (if CHR ''#'' \<in> set level then
        if level \<noteq> ''#'' then
          Err (MalformedPayload ''# must occupy an entire topic level on its own (4.7.1.2)'')
        else if i \<noteq> last_index then
          Err (MalformedPayload ''# must be the last level in a topic filter (4.7.1.2)'')
        else validate_levels (i + 1) last_index rest
      else if CHR ''+'' \<in> set level \<and> level \<noteq> ''+'' then
        Err (MalformedPayload ''+ must occupy an entire topic level on its own (4.7.1.3)'')
      else validate_levels (i + 1) last_index rest)"

definition validate_topic_filter :: "string \<Rightarrow> unit decoded" where
  "validate_topic_filter flt =
     (if flt = [] then
        Err (MalformedPayload ''topic filter must be at least one character (4.7.3)'')
      else let ls = levels flt; last_index = length ls - 1 in validate_levels 0 last_index ls)"

text \<open>The \<open>while\<close> loop of \<open>topic_matches_filter\<close>; every index is read under its own bound check.\<close>

function match_loop :: "string list \<Rightarrow> string list \<Rightarrow> nat \<Rightarrow> nat \<Rightarrow> bool" where
  "match_loop topic_levels filter_levels ti fi =
     (if fi < length filter_levels then
        let flevel = filter_levels ! fi in
        if flevel = ''#'' then True
        else if length topic_levels \<le> ti then False
        else if flevel \<noteq> ''+'' \<and> flevel \<noteq> topic_levels ! ti then False
        else match_loop topic_levels filter_levels (ti + 1) (fi + 1)
      else ti = length topic_levels)"
  by pat_completeness auto
termination
  by (relation "measure (\<lambda>(tls, fls, ti, fi). length fls - fi)") auto

declare match_loop.simps [simp del]

definition topic_matches_filter :: "string \<Rightarrow> string \<Rightarrow> bool" where
  "topic_matches_filter topic flt = match_loop (levels topic) (levels flt) 0 0"

definition is_wildcard_filter :: "string \<Rightarrow> bool" where
  "is_wildcard_filter flt \<longleftrightarrow> CHR ''+'' \<in> set flt \<or> CHR ''#'' \<in> set flt"

section \<open>What validation accepts\<close>

text \<open>A wildcard stands alone in its level, and \<open>#\<close> only in the last level.\<close>

definition level_ok :: "bool \<Rightarrow> string \<Rightarrow> bool" where
  "level_ok is_last l \<longleftrightarrow>
     \<not> is_wildcard_filter l \<or> l = ''+'' \<or> (l = ''#'' \<and> is_last)"

definition filter_ok :: "string \<Rightarrow> bool" where
  "filter_ok f \<longleftrightarrow> f \<noteq> [] \<and>
     (\<forall>l \<in> set (butlast (levels f)). level_ok False l) \<and> level_ok True (last (levels f))"

lemma level_ok_code:
  "level_ok is_last l \<longleftrightarrow>
     (if CHR ''#'' \<in> set l then l = ''#'' \<and> is_last
      else CHR ''+'' \<in> set l \<longrightarrow> l = ''+'')"
  by (auto simp: level_ok_def is_wildcard_filter_def)

lemma validate_levels_Ok_iff:
  "i + length ls = Suc last_index \<Longrightarrow> ls \<noteq> [] \<Longrightarrow>
   validate_levels i last_index ls = Ok () \<longleftrightarrow>
     (\<forall>l \<in> set (butlast ls). level_ok False l) \<and> level_ok True (last ls)"
proof (induction ls arbitrary: i)
  case Nil
  then show ?case by simp
next
  case (Cons level rest)
  show ?case
  proof (cases "rest = []")
    case True
    with Cons.prems show ?thesis by (simp add: level_ok_code)
  next
    case False
    with Cons.prems have "i \<noteq> last_index" by (cases rest) auto
    then have "validate_levels i last_index (level # rest) = Ok () \<longleftrightarrow>
        level_ok False level \<and> validate_levels (i + 1) last_index rest = Ok ()"
      by (simp add: level_ok_code)
    with False Cons show ?thesis by simp
  qed
qed

lemma validate_topic_filter_Ok_iff: "validate_topic_filter f = Ok () \<longleftrightarrow> filter_ok f"
proof -
  have "validate_levels 0 (length (levels f) - 1) (levels f) = Ok () \<longleftrightarrow>
    (\<forall>l \<in> set (butlast (levels f)). level_ok False l) \<and> level_ok True (last (levels f))"
    by (rule validate_levels_Ok_iff) (simp_all add: Suc_pred length_greater_0_conv)
  then show ?thesis
    by (simp add: validate_topic_filter_def filter_ok_def Let_def)
qed

lemma validate_levels_no_panic [no_panic]: "validate_levels i n ls \<noteq> Panic"
  by (induction i n ls rule: validate_levels.induct) auto

lemma validate_topic_filter_no_panic [no_panic]: "validate_topic_filter f \<noteq> Panic"
  by (simp add: validate_topic_filter_def Let_def validate_levels_no_panic)

lemma validate_levels_Err: "validate_levels i n ls = Err e \<Longrightarrow> \<exists>m. e = MalformedPayload m"
  by (induction i n ls rule: validate_levels.induct) (auto split: if_splits)

lemma validate_topic_filter_Err: "validate_topic_filter f = Err e \<Longrightarrow> \<exists>m. e = MalformedPayload m"
  by (auto simp: validate_topic_filter_def Let_def dest: validate_levels_Err split: if_splits)

section \<open>What matching means\<close>

text \<open>The recursive reading the code avoids for the sake of the stack.\<close>

fun levels_match :: "string list \<Rightarrow> string list \<Rightarrow> bool" where
  "levels_match ts [] \<longleftrightarrow> ts = []"
| "levels_match ts (f # fs) \<longleftrightarrow>
     f = ''#'' \<or> (case ts of [] \<Rightarrow> False | t # ts' \<Rightarrow> (f = ''+'' \<or> f = t) \<and> levels_match ts' fs)"

lemma match_loop_levels_match:
  "ti \<le> length tls \<Longrightarrow> match_loop tls fls ti fi = levels_match (drop ti tls) (drop fi fls)"
proof (induction tls fls ti fi rule: match_loop.induct)
  case (1 tls fls ti fi)
  show ?case
  proof (cases "fi < length fls")
    case False
    with "1.prems" show ?thesis by (auto simp: match_loop.simps [of tls fls ti fi])
  next
    case fi: True
    then have df: "drop fi fls = fls ! fi # drop (Suc fi) fls" by (simp add: Cons_nth_drop_Suc)
    show ?thesis
    proof (cases "ti < length tls")
      case False
      then have "match_loop tls fls ti fi = (fls ! fi = ''#'')" and "drop ti tls = []"
        using fi by (simp_all add: match_loop.simps [of tls fls ti fi] Let_def)
      then show ?thesis by (simp add: df)
    next
      case True
      then have "drop ti tls = tls ! ti # drop (Suc ti) tls" by (simp add: Cons_nth_drop_Suc)
      with fi True 1 df show ?thesis by (auto simp: match_loop.simps [of tls fls ti fi] Let_def)
    qed
  qed
qed

lemma topic_matches_filter_spec: "topic_matches_filter t f = levels_match (levels t) (levels f)"
  using match_loop_levels_match [of 0 "levels t" "levels f" 0] by (simp add: topic_matches_filter_def)

definition level_matches :: "string \<Rightarrow> string \<Rightarrow> bool" where
  "level_matches t f \<longleftrightarrow> f = ''+'' \<or> f = t"

lemma levels_match_no_hash:
  "''#'' \<notin> set fs \<Longrightarrow> levels_match ts fs \<longleftrightarrow> list_all2 level_matches ts fs"
  by (induction ts fs rule: levels_match.induct) (auto simp: level_matches_def split: list.splits)

lemma levels_match_hash:
  "''#'' \<notin> set fs \<Longrightarrow> levels_match ts (fs @ [''#'']) \<longleftrightarrow>
     length fs \<le> length ts \<and> list_all2 level_matches (take (length fs) ts) fs"
  by (induction ts fs rule: levels_match.induct) (auto simp: level_matches_def split: list.splits)

text \<open>
  For a valid filter: without \<open>#\<close>, as many levels as the topic has, each equal or \<open>+\<close>; with a final
  \<open>#\<close>, the levels before it match the first levels of the topic, which may have more.
\<close>

lemma filter_ok_hash_last: "filter_ok f \<Longrightarrow> ''#'' \<notin> set (butlast (levels f))"
  by (auto simp: filter_ok_def level_ok_def is_wildcard_filter_def)

lemma topic_matches_filter_ok:
  assumes "filter_ok f"
  shows "topic_matches_filter t f \<longleftrightarrow>
    (if last (levels f) = ''#'' then
       length (levels f) \<le> Suc (length (levels t)) \<and>
       list_all2 level_matches (take (length (levels f) - 1) (levels t)) (butlast (levels f))
     else list_all2 level_matches (levels t) (levels f))"
proof (cases "last (levels f) = ''#''")
  case True
  have "levels f = butlast (levels f) @ [''#'']"
    using True by (metis append_butlast_last_id levels_not_Nil)
  then have "topic_matches_filter t f = levels_match (levels t) (butlast (levels f) @ [''#''])"
    by (simp add: topic_matches_filter_spec)
  with True show ?thesis
    using levels_match_hash [OF filter_ok_hash_last [OF assms], of "levels t"] by auto
next
  case False
  moreover have "set (levels f) = insert (last (levels f)) (set (butlast (levels f)))"
    by (metis append_butlast_last_id levels_not_Nil set_append list.simps(15) empty_set Un_insert_right
        sup_bot_right)
  ultimately have "''#'' \<notin> set (levels f)"
    using filter_ok_hash_last [OF assms] by simp
  then show ?thesis
    using False by (simp add: topic_matches_filter_spec levels_match_no_hash)
qed

section \<open>Filters without wildcards\<close>

lemma not_wildcard_level:
  assumes "\<not> is_wildcard_filter f" and "l \<in> set (levels f)"
  shows "\<not> is_wildcard_filter l"
proof -
  have "x \<in> set f" if "x \<in> set l" "x \<noteq> CHR ''/''" for x
    using mem_split_on_iff [OF that(2), of f] assms(2) that(1) by (auto simp: levels_def)
  with assms(1) show ?thesis by (auto simp: is_wildcard_filter_def)
qed

text \<open>
  The exact-match fast path of the broker relies on this: a filter without wildcards matches the
  topic of the same name and nothing else.
\<close>

lemma topic_matches_exact:
  assumes "\<not> is_wildcard_filter f"
  shows "topic_matches_filter t f \<longleftrightarrow> t = f"
proof -
  have "l \<noteq> ''#'' \<and> l \<noteq> ''+''" if "l \<in> set (levels f)" for l
    using not_wildcard_level [OF assms that] by (auto simp: is_wildcard_filter_def)
  then have "''#'' \<notin> set (levels f)" and plus: "\<And>l. l \<in> set (levels f) \<Longrightarrow> l \<noteq> ''+''" by auto
  then have "topic_matches_filter t f = list_all2 level_matches (levels t) (levels f)"
    by (simp add: topic_matches_filter_spec levels_match_no_hash)
  also have "\<dots> = list_all2 (=) (levels t) (levels f)"
    using plus by (intro list.rel_cong) (auto simp: level_matches_def)
  finally show ?thesis by (simp add: list.rel_eq)
qed

lemma topic_matches_refl: "\<not> is_wildcard_filter t \<Longrightarrow> topic_matches_filter t t"
  by (simp add: topic_matches_exact)

lemma topic_matches_hash: "topic_matches_filter t ''#''"
  by (simp add: topic_matches_filter_spec levels_def)

lemma filter_ok_exact: "f \<noteq> [] \<Longrightarrow> \<not> is_wildcard_filter f \<Longrightarrow> filter_ok f"
  using not_wildcard_level [of f] last_in_set [OF levels_not_Nil, of f]
  by (auto simp: filter_ok_def level_ok_def dest: in_set_butlastD)

section \<open>Properties\<close>


text \<open>C6: The iterative matcher decides the level-by-level meaning of a valid filter: without a final
  multi-level wildcard the topic has the same number of levels and each is equal or under a single-level
  wildcard; with one, the levels before it match the first levels of the topic.\<close>

theorem matching_decides_level_semantics:
  assumes "filter_ok f"
  shows "topic_matches_filter t f \<longleftrightarrow>
    (if last (levels f) = ''#'' then
       length (levels f) \<le> Suc (length (levels t)) \<and>
       list_all2 level_matches (take (length (levels f) - 1) (levels t)) (butlast (levels f))
     else list_all2 level_matches (levels t) (levels f))"
  using assms by (rule topic_matches_filter_ok)

theorem matching_decides_level_semantics_witness:
  "filter_ok ''a/+/#'' \<and> topic_matches_filter ''a/b/c/d'' ''a/+/#'' \<and> \<not> topic_matches_filter ''b/b'' ''a/+/#''"
proof -
  have ok: "filter_ok ''a/+/#''"
    by (simp add: filter_ok_def level_ok_def levels_def is_wildcard_filter_def)
  show ?thesis
    using ok matching_decides_level_semantics [OF ok, of "''a/b/c/d''"]
      matching_decides_level_semantics [OF ok, of "''b/b''"]
    by (simp add: levels_def level_matches_def)
qed

end
