(* ===== verification/Packets.thy ===== *)
theory Packets
  imports Remaining_Length Topic_Filter
begin

text \<open>
  The MQTT control packets of \<open>src/protocol.rs\<close> and their wire encoding. A struct field is prefixed
  with the packet it belongs to where two structs share the name.
\<close>

section \<open>Packets\<close>

record connect_packet =
  protocol_name :: string
  protocol_level :: u8
  clean_session :: bool
  keep_alive_secs :: u16
  connect_client_id :: string

datatype connect_return_code =
    Accepted
  | UnacceptableProtocolVersion
  | IdentifierRejected
  | ServerUnavailable
  | BadUsernameOrPassword
  | NotAuthorized

text \<open>\<open>return_code as u8\<close>: the discriminants of the enum.\<close>

fun return_code_u8 :: "connect_return_code \<Rightarrow> u8" where
  "return_code_u8 Accepted = 0"
| "return_code_u8 UnacceptableProtocolVersion = 1"
| "return_code_u8 IdentifierRejected = 2"
| "return_code_u8 ServerUnavailable = 3"
| "return_code_u8 BadUsernameOrPassword = 4"
| "return_code_u8 NotAuthorized = 5"

record connack_packet =
  session_present :: bool
  return_code :: connect_return_code

record subscribe_packet =
  sub_packet_id :: u16
  subscriptions :: "(string \<times> u8) list"

record suback_packet =
  suback_packet_id :: u16
  return_codes :: "u8 list"

record unsubscribe_packet =
  unsub_packet_id :: u16
  topic_filters :: "string list"

record unsuback_packet =
  unsuback_packet_id :: u16

record publish_packet =
  pub_topic :: string
  pub_payload :: bytes
  pub_qos :: u8
  pub_retain :: bool
  pub_packet_id :: "u16 option"

record puback_packet =
  puback_packet_id :: u16

datatype mqtt_packet =
    Connect connect_packet
  | ConnAck connack_packet
  | Subscribe subscribe_packet
  | SubAck suback_packet
  | Unsubscribe unsubscribe_packet
  | UnsubAck unsuback_packet
  | Publish publish_packet
  | PubAck puback_packet
  | PingReq
  | PingResp
  | Disconnect

definition PT_CONNECT :: u8 where "PT_CONNECT = 1"
definition PT_CONNACK :: u8 where "PT_CONNACK = 2"
definition PT_PUBLISH :: u8 where "PT_PUBLISH = 3"
definition PT_PUBACK :: u8 where "PT_PUBACK = 4"
definition PT_SUBSCRIBE :: u8 where "PT_SUBSCRIBE = 8"
definition PT_SUBACK :: u8 where "PT_SUBACK = 9"
definition PT_UNSUBSCRIBE :: u8 where "PT_UNSUBSCRIBE = 10"
definition PT_UNSUBACK :: u8 where "PT_UNSUBACK = 11"
definition PT_PINGREQ :: u8 where "PT_PINGREQ = 12"
definition PT_PINGRESP :: u8 where "PT_PINGRESP = 13"
definition PT_DISCONNECT :: u8 where "PT_DISCONNECT = 14"

lemmas packet_type_defs = PT_CONNECT_def PT_CONNACK_def PT_PUBLISH_def PT_PUBACK_def
  PT_SUBSCRIBE_def PT_SUBACK_def PT_UNSUBSCRIBE_def PT_UNSUBACK_def PT_PINGREQ_def
  PT_PINGRESP_def PT_DISCONNECT_def

section \<open>Strings and headers on the wire\<close>

text \<open>
  \<open>encode_utf8_string\<close> appends to its output vector; the model returns the bytes appended. A string
  of more than 65535 bytes is cut to that many.
\<close>

definition encode_utf8_string :: "string \<Rightarrow> bytes" where
  "encode_utf8_string s =
     (let bs = as_bytes s; len = of_nat (min (length bs) 65535) :: u16
      in to_be_bytes len @ take (unat len) bs)"

definition encode_fixed_header_only :: "u8 \<Rightarrow> bytes" where
  "encode_fixed_header_only packet_type = [push_bit 4 packet_type, 0x00]"

definition prepend_fixed_header :: "u8 \<Rightarrow> u8 \<Rightarrow> bytes \<Rightarrow> bytes" where
  "prepend_fixed_header packet_type flags body =
     (push_bit 4 packet_type OR (flags AND 0x0F)) #
       encode_remaining_length (of_nat (length body)) @ body"

section \<open>Encoding\<close>

definition connect_body :: "connect_packet \<Rightarrow> bytes" where
  "connect_body p =
     encode_utf8_string (protocol_name p) @
     [protocol_level p] @
     [if clean_session p then 0 OR 0x02 else 0] @
     to_be_bytes (keep_alive_secs p) @
     encode_utf8_string (connect_client_id p)"

definition encode_connect :: "connect_packet \<Rightarrow> bytes" where
  "encode_connect p = prepend_fixed_header PT_CONNECT 0 (connect_body p)"

definition encode_connack :: "connack_packet \<Rightarrow> bytes" where
  "encode_connack p =
     prepend_fixed_header PT_CONNACK 0
       [if session_present p then 0x01 else 0x00, return_code_u8 (return_code p)]"

definition subscribe_body :: "subscribe_packet \<Rightarrow> bytes" where
  "subscribe_body p =
     to_be_bytes (sub_packet_id p) @
     concat (map (\<lambda>(topic, qos). encode_utf8_string topic @ [qos]) (subscriptions p))"

definition encode_subscribe :: "subscribe_packet \<Rightarrow> bytes" where
  "encode_subscribe p = prepend_fixed_header PT_SUBSCRIBE 2 (subscribe_body p)"

definition encode_suback :: "suback_packet \<Rightarrow> bytes" where
  "encode_suback p =
     prepend_fixed_header PT_SUBACK 0 (to_be_bytes (suback_packet_id p) @ return_codes p)"

definition unsubscribe_body :: "unsubscribe_packet \<Rightarrow> bytes" where
  "unsubscribe_body p =
     to_be_bytes (unsub_packet_id p) @ concat (map encode_utf8_string (topic_filters p))"

definition encode_unsubscribe :: "unsubscribe_packet \<Rightarrow> bytes" where
  "encode_unsubscribe p = prepend_fixed_header PT_UNSUBSCRIBE 2 (unsubscribe_body p)"

definition encode_unsuback :: "unsuback_packet \<Rightarrow> bytes" where
  "encode_unsuback p = prepend_fixed_header PT_UNSUBACK 0 (to_be_bytes (unsuback_packet_id p))"

definition publish_body :: "publish_packet \<Rightarrow> bytes" where
  "publish_body p =
     encode_utf8_string (pub_topic p) @
     (case pub_packet_id p of Some pid \<Rightarrow> to_be_bytes pid | None \<Rightarrow> []) @
     pub_payload p"

definition publish_flags :: "publish_packet \<Rightarrow> u8" where
  "publish_flags p =
     (let flags = push_bit 1 (pub_qos p AND 0x03)
      in if pub_retain p then flags OR 0x01 else flags)"

definition encode_publish :: "publish_packet \<Rightarrow> bytes" where
  "encode_publish p = prepend_fixed_header PT_PUBLISH (publish_flags p) (publish_body p)"

definition encode_puback :: "puback_packet \<Rightarrow> bytes" where
  "encode_puback p = prepend_fixed_header PT_PUBACK 0 (to_be_bytes (puback_packet_id p))"

fun encode :: "mqtt_packet \<Rightarrow> bytes" where
  "encode (ConnAck p) = encode_connack p"
| "encode (SubAck p) = encode_suback p"
| "encode (UnsubAck p) = encode_unsuback p"
| "encode (Publish p) = encode_publish p"
| "encode (PubAck p) = encode_puback p"
| "encode PingResp = encode_fixed_header_only PT_PINGRESP"
| "encode PingReq = encode_fixed_header_only PT_PINGREQ"
| "encode Disconnect = encode_fixed_header_only PT_DISCONNECT"
| "encode (Connect p) = encode_connect p"
| "encode (Subscribe p) = encode_subscribe p"
| "encode (Unsubscribe p) = encode_unsubscribe p"

section \<open>Facts about encodings\<close>

text \<open>A string that its two-byte length can express.\<close>

definition wire_str :: "string \<Rightarrow> bool" where
  "wire_str s \<longleftrightarrow> rust_str s \<and> length s \<le> 65535"

lemma encode_utf8_string_short:
  "length s \<le> 65535 \<Longrightarrow> encode_utf8_string s = to_be_bytes (of_nat (length s)) @ as_bytes s"
  by (simp add: encode_utf8_string_def Let_def min_def unat_of_nat)

lemma length_encode_utf8_string: "length (encode_utf8_string s) = 2 + min (length s) 65535"
  by (simp add: encode_utf8_string_def Let_def unat_of_nat min_def)

lemma unat_of_nat_u16 [simp]: "n \<le> 65535 \<Longrightarrow> unat (of_nat n :: u16) = n"
  by (simp add: unat_of_nat)

lemma length_connect_body:
  "length (connect_body p) = 8 + min (length (protocol_name p)) 65535 + min (length (connect_client_id p)) 65535"
  by (simp add: connect_body_def length_encode_utf8_string)

text \<open>The first byte of a packet: type in the high nibble, flags in the low one.\<close>

lemma and_low_nibble: "(b :: u8) AND 0x0F = take_bit 4 b"
  by (simp add: take_bit_eq_mask mask_eq_exp_minus_1)

lemma bit_u8_small: "unat (b :: u8) < 2 ^ k \<Longrightarrow> bit b n \<Longrightarrow> n < k"
proof (rule ccontr)
  assume b: "unat b < 2 ^ k" and n: "bit b n" and "\<not> n < k"
  then have "(2 :: nat) ^ k \<le> 2 ^ n" by (intro power_increasing) simp_all
  with b have "unat b < 2 ^ n" by linarith
  then have "\<not> bit (unat b) n" by (simp add: bit_iff_odd)
  with n show False by (simp add: bit_unsigned_iff)
qed

lemma header_type:
  assumes "unat pt < 16"
  shows "drop_bit 4 (push_bit 4 pt OR (flags AND 0x0F)) = (pt :: u8)"
proof -
  have "n < 4" if "bit pt n" for n
    using bit_u8_small [of pt 4 n] assms that by simp
  then show ?thesis
    unfolding and_low_nibble
    by (intro bit_word_eqI) (auto simp: bit_simps)
qed

lemma header_flags: "(push_bit 4 pt OR (flags AND 0x0F)) AND 0x0F = (flags AND 0x0F :: u8)"
  unfolding and_low_nibble
  by (intro bit_word_eqI) (auto simp: bit_simps)

end
