(* ===== verification/Decode.thy ===== *)
theory Decode
  imports Packets
begin

text \<open>
  Decoding (\<open>src/protocol.rs\<close>): every index, slice and addition of the parser is a checked
  operation of the model, so that \<open>decode buf \<noteq> Panic\<close> is a statement about the code's bound checks.
\<close>

section \<open>Fields\<close>

text \<open>\<open>u16::from_be_bytes([body[pos], body[pos + 1]])\<close>\<close>

definition read_u16 :: "bytes \<Rightarrow> nat \<Rightarrow> ('e, u16) outcome" where
  "read_u16 body pos =
     and_then (idx body pos) (\<lambda>hi. and_then (idx body (pos + 1)) (\<lambda>lo. Ok (from_be_bytes hi lo)))"

definition decode_utf8_string :: "bytes \<Rightarrow> (string \<times> nat) decoded" where
  "decode_utf8_string buf =
     (if length buf < 2 then
        Err (MalformedPayload ''truncated UTF-8 string length prefix (1.5.3)'')
      else and_then (read_u16 buf 0) (\<lambda>prefix.
        let len = unat prefix; start = 2 in
        and_then (ok_or (MalformedPayload ''UTF-8 string length overflow'') (usize_checked_add start len))
          (\<lambda>stop.
            if length buf < stop then
              Err (MalformedPayload ''UTF-8 string length prefix exceeds available bytes (1.5.3)'')
            else and_then (subslice buf start stop) (\<lambda>raw.
              and_then (ok_or (MalformedPayload ''invalid UTF-8 in string field (1.5.3)'') (from_utf8 raw))
                (\<lambda>s. Ok (s, stop))))))"

text \<open>\<open>decode_utf8_string(&body[pos..]).map_err(|_| MalformedPayload(msg))\<close>\<close>

definition decode_str_at :: "string \<Rightarrow> bytes \<Rightarrow> nat \<Rightarrow> (string \<times> nat) decoded" where
  "decode_str_at msg body pos =
     and_then (slice_from body pos) (\<lambda>rest.
       map_err (\<lambda>_. MalformedPayload msg) (decode_utf8_string rest))"

section \<open>Packet bodies\<close>

definition decode_connect :: "bytes \<Rightarrow> connect_packet decoded" where
  "decode_connect body =
     and_then (decode_utf8_string body) (\<lambda>(name, pos).
     if name \<noteq> ''MQTT'' then
       Err (MalformedPayload ''CONNECT protocol name must be MQTT (3.1.2.1)'')
     else if length body < pos + 1 then
       Err (MalformedPayload ''truncated CONNECT protocol level (3.1.2.2)'')
     else and_then (idx body pos) (\<lambda>level.
     if level \<noteq> 4 then
       Err (UnsupportedFeature ''only MQTT protocol level 4 (3.1.1) is supported (3.1.2.2)'')
     else let pos = pos + 1 in
     if length body < pos + 1 then
       Err (MalformedPayload ''truncated CONNECT connect flags (3.1.2.3)'')
     else and_then (idx body pos) (\<lambda>connect_flags.
     let clean = (connect_flags AND 0x02 \<noteq> 0);
         will_flag = (connect_flags AND 0x04 \<noteq> 0);
         username_flag = (connect_flags AND 0x80 \<noteq> 0);
         password_flag = (connect_flags AND 0x40 \<noteq> 0);
         pos = pos + 1 in
     if will_flag \<or> username_flag \<or> password_flag then
       Err (UnsupportedFeature
         ''CONNECT with will/username/password flags is out of core scope (PLAN.md 3)'')
     else if length body < pos + 2 then
       Err (MalformedPayload ''truncated CONNECT keep alive (3.1.2.10)'')
     else and_then (read_u16 body pos) (\<lambda>keep_alive.
     let pos = pos + 2 in
     and_then (decode_str_at ''truncated CONNECT client identifier (3.1.3.1)'' body pos)
       (\<lambda>(cid, pos_after_id).
     let pos = pos + pos_after_id in
     if pos \<noteq> length body then
       Err (MalformedPayload
         ''trailing bytes after CONNECT payload (will/username/password unsupported)'')
     else Ok \<lparr>protocol_name = name, protocol_level = level, clean_session = clean,
              keep_alive_secs = keep_alive, connect_client_id = cid\<rparr>)))))"

text \<open>The \<open>while pos < body.len()\<close> loops of SUBSCRIBE and UNSUBSCRIBE.\<close>

function subscribe_loop :: "bytes \<Rightarrow> nat \<Rightarrow> (string \<times> u8) list \<Rightarrow> (string \<times> u8) list decoded" where
  "subscribe_loop body pos subs =
     (if pos < length body then
        and_then (decode_str_at ''truncated SUBSCRIBE topic filter (3.8.3)'' body pos)
          (\<lambda>(topic, consumed).
        let pos' = pos + consumed in
        and_then (validate_topic_filter topic) (\<lambda>_.
        if length body \<le> pos' then
          Err (MalformedPayload ''SUBSCRIBE topic filter missing requested QoS byte (3.8.3)'')
        else and_then (idx body pos') (\<lambda>qos.
        if 2 < qos then
          Err (MalformedPayload ''SUBSCRIBE requested QoS must be 0, 1, or 2 (3.8.3)'')
        else subscribe_loop body (pos' + 1) (subs @ [(topic, qos)]))))
      else Ok subs)"
  by pat_completeness auto
termination
  by (relation "measure (\<lambda>(body, pos, subs). length body - pos)") auto

declare subscribe_loop.simps [simp del]

definition decode_subscribe :: "bytes \<Rightarrow> subscribe_packet decoded" where
  "decode_subscribe body =
     (if length body < 2 then
        Err (MalformedPayload ''truncated SUBSCRIBE packet identifier (3.8.2)'')
      else and_then (read_u16 body 0) (\<lambda>pid.
        if length body \<le> 2 then
          Err (MalformedPayload ''SUBSCRIBE must contain at least one topic filter (3.8.3)'')
        else and_then (subscribe_loop body 2 []) (\<lambda>subs.
          Ok \<lparr>sub_packet_id = pid, subscriptions = subs\<rparr>)))"

text \<open>A decoded string is the two length bytes and its own, inside the buffer.\<close>

lemma read_u16_ok: "pos + 1 < length body \<Longrightarrow>
    read_u16 body pos = Ok (from_be_bytes (body ! pos) (body ! (pos + 1)))"
  by (simp add: read_u16_def)

lemma read_u16_not_Err [simp]: "read_u16 body pos \<noteq> Err e"
  by (simp add: read_u16_def outcome_simps)

lemma read_u16_Panic_iff [no_panic]: "read_u16 body pos = Panic \<longleftrightarrow> length body \<le> pos + 1"
  by (auto simp: read_u16_def no_panic outcome_simps)

lemma decode_utf8_string_Ok:
  assumes "decode_utf8_string buf = Ok (s, n)"
  shows "n = 2 + length s \<and> n \<le> length buf \<and> wire_str s \<and>
    take (length s) (drop 2 buf) = as_bytes s \<and> length s = unat (from_be_bytes (buf ! 0) (buf ! 1))"
proof -
  from assms have len: "2 \<le> length buf" by (auto simp: decode_utf8_string_def split: if_splits)
  let ?len = "unat (from_be_bytes (buf ! 0) (buf ! 1))"
  have small: "?len \<le> 65535"
    using unat_u16_less [of "from_be_bytes (buf ! 0) (buf ! 1)"] by linarith
  from assms len have le: "2 + ?len \<le> length buf"
    and raw: "from_utf8 (take ?len (drop 2 buf)) = Some s" and n: "n = 2 + ?len"
    by (auto simp: decode_utf8_string_def read_u16_ok Let_def outcome_simps split: if_splits)
  from raw have bs: "take ?len (drop 2 buf) = as_bytes s" and "rust_str s"
    by (auto simp: from_utf8_Some_iff)
  from bs have "length s = ?len"
    using le by (metis length_as_bytes length_take length_drop le_diff_conv2 len min_absorb2 add.commute)
  with n le bs small \<open>rust_str s\<close> show ?thesis by (simp add: wire_str_def)
qed

lemma decode_utf8_string_consumed:
  "decode_utf8_string buf = Ok (s, n) \<Longrightarrow> 2 \<le> n \<and> n \<le> length buf"
  by (auto dest: decode_utf8_string_Ok)

lemma decode_utf8_string_no_panic [no_panic]: "decode_utf8_string buf \<noteq> Panic"
  by (auto simp: decode_utf8_string_def read_u16_def Let_def outcome_simps no_panic)

lemma decode_str_at_Ok:
  "decode_str_at msg body pos = Ok (s, n) \<longleftrightarrow>
     pos \<le> length body \<and> decode_utf8_string (drop pos body) = Ok (s, n)"
  by (auto simp: decode_str_at_def outcome_simps)

lemma decode_str_at_no_panic [no_panic]: "pos \<le> length body \<Longrightarrow> decode_str_at msg body pos \<noteq> Panic"
  by (simp add: decode_str_at_def no_panic decode_utf8_string_no_panic)

function unsubscribe_loop :: "bytes \<Rightarrow> nat \<Rightarrow> string list \<Rightarrow> string list decoded" where
  "unsubscribe_loop body pos filters =
     (if pos < length body then
        and_then (decode_str_at ''truncated UNSUBSCRIBE topic filter (3.10.3)'' body pos)
          (\<lambda>(topic, consumed).
        let pos' = pos + consumed in
        and_then (validate_topic_filter topic) (\<lambda>_.
        unsubscribe_loop body pos' (filters @ [topic])))
      else Ok filters)"
  by pat_completeness auto
termination
  by (relation "measure (\<lambda>(body, pos, filters). length body - pos)")
    (auto simp: decode_str_at_Ok dest!: decode_utf8_string_consumed)

declare unsubscribe_loop.simps [simp del]

definition decode_unsubscribe :: "bytes \<Rightarrow> unsubscribe_packet decoded" where
  "decode_unsubscribe body =
     (if length body < 2 then
        Err (MalformedPayload ''truncated UNSUBSCRIBE packet identifier (3.10.2)'')
      else and_then (read_u16 body 0) (\<lambda>pid.
        if length body \<le> 2 then
          Err (MalformedPayload ''UNSUBSCRIBE must contain at least one topic filter (3.10.3)'')
        else and_then (unsubscribe_loop body 2 []) (\<lambda>filters.
          Ok \<lparr>unsub_packet_id = pid, topic_filters = filters\<rparr>)))"

definition decode_publish :: "u8 \<Rightarrow> bytes \<Rightarrow> publish_packet decoded" where
  "decode_publish flags body =
     (let qos = drop_bit 1 flags AND 0x03;
          retain = (flags AND 0x01 \<noteq> 0) in
      if qos = 3 then
        Err (MalformedPayload ''PUBLISH QoS bits 11 is not a valid QoS value (3.3.1.2)'')
      else if qos = 2 then
        Err (UnsupportedFeature ''PUBLISH QoS 2 not supported (PLAN.md 4 scopes only QoS 0/1)'')
      else and_then (map_err (\<lambda>_. MalformedPayload ''truncated PUBLISH topic name (3.3.2.1)'')
                      (decode_utf8_string body)) (\<lambda>(topic, pos).
      if topic = [] then
        Err (MalformedPayload ''PUBLISH topic name must not be empty (4.7.3)'')
      else if CHR ''+'' \<in> set topic \<or> CHR ''#'' \<in> set topic then
        Err (MalformedPayload ''PUBLISH topic name must not contain wildcard characters (4.7.1)'')
      else and_then
        (if qos = 0 then Ok (None, pos)
         else if length body < pos + 2 then
           Err (MalformedPayload ''truncated PUBLISH packet identifier (3.3.2.2)'')
         else and_then (read_u16 body pos) (\<lambda>pid.
           let pos = pos + 2 in
           if pid = 0 then
             Err (MalformedPayload
               ''PUBLISH packet identifier must be non-zero for QoS > 0 (2.3.1)'')
           else Ok (Some pid, pos))) (\<lambda>(packet_id, pos).
      and_then (slice_from body pos) (\<lambda>payload.
      Ok \<lparr>pub_topic = topic, pub_payload = payload, pub_qos = qos, pub_retain = retain,
          pub_packet_id = packet_id\<rparr>))))"

definition decode_puback :: "bytes \<Rightarrow> puback_packet decoded" where
  "decode_puback body =
     (if length body \<noteq> 2 then
        Err (MalformedPayload
          ''PUBACK variable header must be exactly a 2-byte packet identifier (3.4.2)'')
      else and_then (read_u16 body 0) (\<lambda>pid.
        if pid = 0 then
          Err (MalformedPayload ''PUBACK packet identifier must be non-zero (2.3.1)'')
        else Ok \<lparr>puback_packet_id = pid\<rparr>))"

section \<open>One packet\<close>

definition decode_body :: "u8 \<Rightarrow> u8 \<Rightarrow> bytes \<Rightarrow> mqtt_packet decoded" where
  "decode_body packet_type flags body =
     (if packet_type = PT_CONNECT then map_ok Connect (decode_connect body)
      else if packet_type = PT_SUBSCRIBE then map_ok Subscribe (decode_subscribe body)
      else if packet_type = PT_UNSUBSCRIBE then map_ok Unsubscribe (decode_unsubscribe body)
      else if packet_type = PT_PUBLISH then map_ok Publish (decode_publish flags body)
      else if packet_type = PT_PUBACK then
        if flags \<noteq> 0 then
          Err (MalformedPayload ''PUBACK fixed header flags are reserved and must be 0 (3.4.1)'')
        else map_ok PubAck (decode_puback body)
      else if packet_type = PT_PINGREQ then
        if body \<noteq> [] then
          Err (MalformedPayload ''PINGREQ must have zero remaining length (3.13.1)'')
        else Ok PingReq
      else if packet_type = PT_DISCONNECT then
        if body \<noteq> [] then
          Err (MalformedPayload ''DISCONNECT must have zero remaining length (3.14.1)'')
        else Ok Disconnect
      else if packet_type = PT_CONNACK then Err (UnsupportedFeature ''CONNACK from client'')
      else if packet_type = PT_SUBACK then Err (UnsupportedFeature ''SUBACK from client'')
      else if packet_type = PT_UNSUBACK then Err (UnsupportedFeature ''UNSUBACK from client'')
      else if packet_type = PT_PINGRESP then Err (UnsupportedFeature ''PINGRESP from client'')
      else Err (UnknownPacketType packet_type))"

definition decode :: "bytes \<Rightarrow> (mqtt_packet \<times> nat) decoded" where
  "decode buf =
     (if buf = [] then Err Incomplete
      else and_then (idx buf 0) (\<lambda>byte0.
        let packet_type = drop_bit 4 byte0; flags = byte0 AND 0x0F in
        and_then (and_then (slice_from buf 1) decode_remaining_length) (\<lambda>(remaining_len, rl_bytes).
        let header_len = 1 + rl_bytes in
        and_then (ok_or (MalformedPayload ''remaining length overflow'')
                   (usize_checked_add header_len (unat remaining_len))) (\<lambda>total_len.
        if length buf < total_len then Err Incomplete
        else and_then (subslice buf header_len total_len) (\<lambda>body.
        and_then (decode_body packet_type flags body) (\<lambda>packet.
        Ok (packet, total_len)))))))"

section \<open>Nothing panics\<close>

lemma subscribe_loop_no_panic [no_panic]: "subscribe_loop body pos subs \<noteq> Panic"
proof (induction "length body - pos" arbitrary: pos subs rule: less_induct)
  case less
  have IH: "subscribe_loop body (Suc (pos + n)) subs' \<noteq> Panic" if "pos < length body" for n subs'
    using that by (intro less) simp
  show ?case
    by (subst subscribe_loop.simps) (auto simp: Let_def no_panic IH)
qed

lemma unsubscribe_loop_no_panic [no_panic]: "unsubscribe_loop body pos fs \<noteq> Panic"
proof (induction "length body - pos" arbitrary: pos fs rule: less_induct)
  case less
  have IH: "unsubscribe_loop body (pos + n) fs' \<noteq> Panic" if "pos < length body" "0 < n" for n fs'
    using that by (intro less) simp
  show ?case
    by (subst unsubscribe_loop.simps)
      (auto simp: Let_def no_panic decode_str_at_Ok IH dest!: decode_utf8_string_consumed)
qed

lemma decode_connect_no_panic [no_panic]: "decode_connect body \<noteq> Panic"
  by (auto simp: decode_connect_def Let_def no_panic dest!: decode_utf8_string_consumed)

lemma decode_subscribe_no_panic [no_panic]: "decode_subscribe body \<noteq> Panic"
  by (simp add: decode_subscribe_def no_panic)

lemma decode_unsubscribe_no_panic [no_panic]: "decode_unsubscribe body \<noteq> Panic"
  by (simp add: decode_unsubscribe_def no_panic)

lemma decode_publish_no_panic [no_panic]: "decode_publish flags body \<noteq> Panic"
  by (auto simp: decode_publish_def Let_def no_panic outcome_simps
      dest!: decode_utf8_string_consumed split: if_splits)

lemma decode_puback_no_panic [no_panic]: "decode_puback body \<noteq> Panic"
  by (simp add: decode_puback_def no_panic)

lemma decode_body_no_panic [no_panic]: "decode_body pt flags body \<noteq> Panic"
  by (simp add: decode_body_def no_panic)

lemma decode_no_panic: "decode buf \<noteq> Panic"
  by (auto simp: decode_def Let_def no_panic outcome_simps rl.dec_no_panic)

section \<open>Properties\<close>

text \<open>C9: Decoding never panics: on every byte sequence a client can send, every index, slice and
  addition of the parser is in range, and the result is a packet or an error.\<close>

theorem decode_never_panics: "decode buf \<noteq> Panic"
  by (rule decode_no_panic)

end
