(* ===== verification/Codec.thy ===== *)
theory Codec
  imports Decode
begin

text \<open>
  What the codec of \<open>src/protocol.rs\<close> guarantees: how \<open>decode\<close> frames a packet, that its answer does
  not depend on what follows the packet, what every decoded packet satisfies, and that decoding
  inverts encoding for every packet a client sends.
\<close>

section \<open>Framing\<close>

lemma decode_Nil: "decode [] = Err Incomplete"
  by (simp add: decode_def)

lemma decode_Cons:
  "decode (b # buf) =
     and_then (decode_remaining_length buf) (\<lambda>(n, k).
       if length buf < k + unat n then Err Incomplete
       else map_ok (\<lambda>p. (p, 1 + k + unat n))
              (decode_body (drop_bit 4 b) (b AND 0x0F) (take (unat n) (drop k buf))))"
proof (cases "decode_remaining_length buf")
  case (Ok r)
  obtain n k where r: "r = (n, k)" by (cases r)
  with Ok have dec: "decode_remaining_length buf = Ok (n, k)" by simp
  from rl.dec_consumed [OF dec] have k: "k \<le> 4" "k \<le> length buf" "unat n \<le> max_remaining_length"
    by simp_all
  then have small: "1 + k + unat n < 2 ^ 64" by (simp add: max_remaining_length_def)
  show ?thesis
    using dec k small
    by (cases "decode_body (drop_bit 4 b) (b AND 0x0F) (take (unat n) (drop k buf))")
      (auto simp: decode_def Let_def not_less)
qed (simp_all add: decode_def Let_def)

lemma decode_framed:
  assumes "unat pt < 16" and "length body \<le> max_remaining_length"
  shows "decode (prepend_fixed_header pt flags body @ rest) =
    map_ok (\<lambda>p. (p, length (prepend_fixed_header pt flags body))) (decode_body pt (flags AND 0x0F) body)"
proof -
  let ?n = "of_nat (length body) :: u32"
  have n: "unat ?n = length body"
    and dec: "decode_remaining_length (encode_remaining_length ?n @ body @ rest) =
      Ok (?n, length (encode_remaining_length ?n))"
    using rl.dec_framed [OF assms(2), of rest] by auto
  show ?thesis
    unfolding prepend_fixed_header_def append_Cons decode_Cons header_type [OF assms(1)] header_flags
    using dec n by (simp add: add.commute)
qed

lemma fixed_header_only: "encode_fixed_header_only pt = prepend_fixed_header pt 0 []"
  by (simp add: encode_fixed_header_only_def prepend_fixed_header_def encode_remaining_length_spec
      rl_encode_spec.simps)

section \<open>Reading one packet off a stream\<close>

lemma decode_Ok_bounds:
  assumes "decode buf = Ok (p, n)"
  shows "2 \<le> n \<and> n \<le> length buf"
proof (cases buf)
  case (Cons b bs)
  with assms obtain m k where "decode_remaining_length bs = Ok (m, k)" and "k + unat m \<le> length bs"
    and "n = 1 + k + unat m"
    by (auto simp: decode_Cons outcome_simps split: if_splits)
  with rl.dec_consumed show ?thesis using Cons by fastforce
qed (use assms in \<open>simp add: decode_Nil\<close>)

lemma decode_extend:
  assumes "decode buf = r" and "r \<noteq> Err Incomplete"
  shows "decode (buf @ ys) = r"
proof (cases buf)
  case (Cons b bs)
  show ?thesis
  proof (cases "decode_remaining_length bs")
    case (Ok v)
    then obtain m k where dec: "decode_remaining_length bs = Ok (m, k)" by (cases v) auto
    have "\<not> length bs < k + unat m"
    proof
      assume "length bs < k + unat m"
      with assms Cons dec show False by (simp add: decode_Cons)
    qed
    with dec assms rl.dec_extend [OF dec, of ys] rl.dec_consumed [OF dec] Cons show ?thesis
      by (simp add: decode_Cons)
  next
    case (Err e)
    with assms Cons have "e \<noteq> Incomplete" by (auto simp: decode_Cons)
    with assms Cons Err decode_remaining_length_extend_Err [OF Err, of ys] show ?thesis
      by (simp add: decode_Cons)
  next
    case Panic
    then show ?thesis by (simp add: rl.dec_no_panic)
  qed
qed (use assms in \<open>simp add: decode_Nil\<close>)

text \<open>A proper prefix of a packet is incomplete, never an error and never another packet.\<close>

lemma decode_prefix:
  assumes "decode (xs @ ys) = Ok (p, n)" and "length xs < n"
  shows "decode xs = Err Incomplete"
proof (rule ccontr)
  assume "decode xs \<noteq> Err Incomplete"
  with assms(1) have "decode xs = Ok (p, n)"
    using decode_extend [of xs "decode xs" ys] by simp
  with assms(2) show False by (auto dest: decode_Ok_bounds)
qed

section \<open>What a decoded packet satisfies\<close>

text \<open>The packets a client sends, as the broker accepts them.\<close>

definition publish_ok :: "publish_packet \<Rightarrow> bool" where
  "publish_ok p \<longleftrightarrow> wire_str (pub_topic p) \<and> pub_topic p \<noteq> [] \<and> \<not> is_wildcard_filter (pub_topic p) \<and>
     (case pub_packet_id p of None \<Rightarrow> pub_qos p = 0 | Some pid \<Rightarrow> pub_qos p = 1 \<and> pid \<noteq> 0)"

fun client_packet :: "mqtt_packet \<Rightarrow> bool" where
  "client_packet (Connect p) \<longleftrightarrow>
     protocol_name p = ''MQTT'' \<and> protocol_level p = 4 \<and> wire_str (connect_client_id p)"
| "client_packet (Subscribe p) \<longleftrightarrow>
     subscriptions p \<noteq> [] \<and> (\<forall>(t, q) \<in> set (subscriptions p). wire_str t \<and> filter_ok t \<and> q \<le> 2)"
| "client_packet (Unsubscribe p) \<longleftrightarrow>
     topic_filters p \<noteq> [] \<and> (\<forall>t \<in> set (topic_filters p). wire_str t \<and> filter_ok t)"
| "client_packet (Publish p) \<longleftrightarrow> publish_ok p"
| "client_packet (PubAck p) \<longleftrightarrow> puback_packet_id p \<noteq> 0"
| "client_packet PingReq \<longleftrightarrow> True"
| "client_packet Disconnect \<longleftrightarrow> True"
| "client_packet _ \<longleftrightarrow> False"

fun packet_body :: "mqtt_packet \<Rightarrow> bytes" where
  "packet_body (Connect p) = connect_body p"
| "packet_body (Subscribe p) = subscribe_body p"
| "packet_body (Unsubscribe p) = unsubscribe_body p"
| "packet_body (Publish p) = publish_body p"
| "packet_body (PubAck p) = to_be_bytes (puback_packet_id p)"
| "packet_body _ = []"

lemma subscribe_loop_ok:
  "subscribe_loop body pos subs = Ok subs' \<Longrightarrow>
   \<exists>xs. subs' = subs @ xs \<and> (pos < length body \<longrightarrow> xs \<noteq> []) \<and>
     (\<forall>(t, q) \<in> set xs. wire_str t \<and> filter_ok t \<and> q \<le> 2)"
proof (induction "length body - pos" arbitrary: pos subs rule: less_induct)
  case less
  show ?case
  proof (cases "pos < length body")
    case True
    with less.prems obtain t n q where dec: "decode_utf8_string (drop pos body) = Ok (t, n)"
      and t: "validate_topic_filter t = Ok ()" and q: "\<not> 2 < q"
      and loop: "subscribe_loop body (pos + n + 1) (subs @ [(t, q)]) = Ok subs'"
      by (subst (asm) subscribe_loop.simps) (auto simp: Let_def outcome_simps decode_str_at_Ok split: if_splits)
    have "length body - (pos + n + 1) < length body - pos" using True by simp
    from less.hyps [OF this loop] obtain xs where "subs' = subs @ (t, q) # xs"
      and "\<forall>(t, q) \<in> set xs. wire_str t \<and> filter_ok t \<and> q \<le> 2" by auto
    with t q decode_utf8_string_Ok [OF dec] show ?thesis
      by (auto simp: validate_topic_filter_Ok_iff not_less)
  qed (use less.prems in \<open>simp add: subscribe_loop.simps [of body pos subs]\<close>)
qed

lemma unsubscribe_loop_ok:
  "unsubscribe_loop body pos fs = Ok fs' \<Longrightarrow>
   \<exists>xs. fs' = fs @ xs \<and> (pos < length body \<longrightarrow> xs \<noteq> []) \<and> (\<forall>t \<in> set xs. wire_str t \<and> filter_ok t)"
proof (induction "length body - pos" arbitrary: pos fs rule: less_induct)
  case less
  show ?case
  proof (cases "pos < length body")
    case True
    with less.prems obtain t n where dec: "decode_utf8_string (drop pos body) = Ok (t, n)"
      and t: "validate_topic_filter t = Ok ()"
      and loop: "unsubscribe_loop body (pos + n) (fs @ [t]) = Ok fs'"
      by (subst (asm) unsubscribe_loop.simps) (auto simp: Let_def outcome_simps decode_str_at_Ok split: if_splits)
    from decode_utf8_string_Ok [OF dec] True have "length body - (pos + n) < length body - pos" by simp
    from less.hyps [OF this loop] obtain xs where "fs' = fs @ t # xs"
      and "\<forall>t \<in> set xs. wire_str t \<and> filter_ok t" by auto
    with t decode_utf8_string_Ok [OF dec] show ?thesis
      by (auto simp: validate_topic_filter_Ok_iff)
  qed (use less.prems in \<open>simp add: unsubscribe_loop.simps [of body pos fs]\<close>)
qed

lemma qos_bits:
  assumes "drop_bit (Suc 0) flags AND 3 \<noteq> 3" and "drop_bit (Suc 0) flags AND 3 \<noteq> 2"
    and "drop_bit (Suc 0) flags AND 3 \<noteq> 0"
  shows "drop_bit (Suc 0) flags AND 3 = (1 :: u8)"
proof -
  let ?q = "drop_bit (Suc 0) flags AND 3"
  have "?q \<le> 3" by (rule word_and_le1)
  then have "unat ?q \<le> 3" by (simp add: word_le_nat_alt)
  then have "unat ?q = 0 \<or> unat ?q = 1 \<or> unat ?q = 2 \<or> unat ?q = 3" by linarith
  then have "?q = 0 \<or> ?q = 1 \<or> ?q = 2 \<or> ?q = 3" by (auto simp: word_unat_eq_iff)
  with assms show ?thesis by blast
qed

lemma decode_publish_ok: "decode_publish flags body = Ok p \<Longrightarrow> publish_ok p"
  by (auto simp: decode_publish_def publish_ok_def is_wildcard_filter_def Let_def outcome_simps
      dest: qos_bits decode_utf8_string_Ok split: if_splits)

lemma decode_body_ok: "decode_body pt flags body = Ok p \<Longrightarrow> client_packet p"
  by (auto simp: decode_body_def outcome_simps decode_connect_def decode_subscribe_def
      decode_unsubscribe_def decode_puback_def Let_def decode_str_at_Ok
      dest!: subscribe_loop_ok unsubscribe_loop_ok decode_publish_ok decode_utf8_string_Ok split: if_splits)

lemma decode_ok:
  assumes "decode buf = Ok (p, n)"
  shows "client_packet p"
proof (cases buf)
  case (Cons b bs)
  with assms show ?thesis
    by (auto simp: decode_Cons outcome_simps dest: decode_body_ok split: if_splits)
qed (use assms in \<open>simp add: decode_Nil\<close>)

section \<open>Decoding inverts encoding\<close>

lemma wire_str_decode:
  assumes "wire_str s"
  shows "decode_utf8_string (encode_utf8_string s @ rest) = Ok (s, 2 + length s)"
    and "length (encode_utf8_string s) = 2 + length s"
proof -
  let ?w = "of_nat (length s) :: u16"
  have len: "length s \<le> 65535" and str: "rust_str s" using assms by (simp_all add: wire_str_def)
  then have w: "unat ?w = length s" by simp
  have enc: "encode_utf8_string s = to_be_bytes ?w @ as_bytes s"
    using len by (rule encode_utf8_string_short)
  have "read_u16 (to_be_bytes ?w @ as_bytes s @ rest) 0 = (Ok ?w :: u16 decoded)"
    using from_to_be_bytes [of ?w] by (simp add: read_u16_ok nth_append)
  moreover have "from_utf8 (as_bytes s) = Some s"
    using str by (simp add: from_utf8_Some_iff)
  ultimately show "decode_utf8_string (encode_utf8_string s @ rest) = Ok (s, 2 + length s)"
    using len w by (simp add: decode_utf8_string_def enc Let_def)
  show "length (encode_utf8_string s) = 2 + length s"
    using len by (simp add: length_encode_utf8_string)
qed

lemma decode_str_at_encoded:
  "wire_str s \<Longrightarrow> pos = length pre \<Longrightarrow>
   decode_str_at msg (pre @ encode_utf8_string s @ rest) pos = Ok (s, 2 + length s)"
  by (simp add: decode_str_at_def wire_str_decode)

lemma read_u16_encoded:
  "pos = length pre \<Longrightarrow> read_u16 (pre @ to_be_bytes w @ rest) pos = Ok w"
  using from_to_be_bytes [of w] by (simp add: read_u16_ok nth_append)

lemma read_u16_be: "read_u16 (to_be_bytes w) 0 = Ok w"
  using read_u16_encoded [of 0 "[]" w "[]"] by simp

lemma wire_str_MQTT: "wire_str ''MQTT''"
  by (simp add: wire_str_def rust_str_def as_bytes_def)

lemma decode_connect_body:
  assumes "client_packet (Connect p)"
  shows "decode_connect (connect_body p) = Ok p"
proof -
  let ?name = "encode_utf8_string ''MQTT''" and ?ka = "to_be_bytes (keep_alive_secs p)"
  define fl where "fl = (if clean_session p then 2 else 0 :: u8)"
  let ?cid = "encode_utf8_string (connect_client_id p)"
  have p: "protocol_name p = ''MQTT''" "protocol_level p = 4" "wire_str (connect_client_id p)"
    using assms by simp_all
  have body: "connect_body p = ?name @ [4, fl] @ ?ka @ ?cid"
    by (simp add: connect_body_def p fl_def)
  have len: "length ?name = 6" by (simp add: length_encode_utf8_string)
  have name: "decode_utf8_string (connect_body p) = Ok (''MQTT'', 6)"
    using wire_str_decode(1) [OF wire_str_MQTT] by (simp add: body)
  have nth: "connect_body p ! 6 = 4" "connect_body p ! 7 = fl"
    by (simp_all add: body nth_append len)
  have ka: "read_u16 (connect_body p) 8 = (Ok (keep_alive_secs p) :: u16 decoded)"
    using read_u16_encoded [of 8 "?name @ [4, fl]"] by (simp add: body len)
  have cid: "decode_str_at msg (connect_body p) 10 = Ok (connect_client_id p, 2 + length (connect_client_id p))"
    for msg
    using decode_str_at_encoded [OF p(3), of 10 "?name @ [4, fl] @ ?ka" msg "[]"] by (simp add: body len)
  have lb: "length (connect_body p) = 12 + length (connect_client_id p)"
    using p(3) by (simp add: length_connect_body p wire_str_def)
  have fl: "fl AND 2 \<noteq> 0 \<longleftrightarrow> clean_session p" "fl AND 4 = 0" "fl AND 0x80 = 0" "fl AND 0x40 = 0"
    by (simp_all add: fl_def)
  show ?thesis
    by (simp add: decode_connect_def name nth lb ka cid fl Let_def p)
qed

lemma subscribe_loop_encoded:
  "\<forall>(t, q) \<in> set xs. wire_str t \<and> filter_ok t \<and> q \<le> 2 \<Longrightarrow>
   subscribe_loop (pre @ concat (map (\<lambda>(t, q). encode_utf8_string t @ [q]) xs)) (length pre) subs =
     Ok (subs @ xs)"
proof (induction xs arbitrary: pre subs)
  case Nil
  then show ?case by (simp add: subscribe_loop.simps)
next
  case (Cons x xs)
  obtain t q where x: "x = (t, q)" by (cases x)
  with Cons.prems have t: "wire_str t" "validate_topic_filter t = Ok ()" and q: "\<not> 2 < q"
    by (auto simp: validate_topic_filter_Ok_iff)
  let ?tail = "concat (map (\<lambda>(t, q). encode_utf8_string t @ [q]) xs)"
  let ?pre = "pre @ encode_utf8_string t @ [q]"
  have len: "length (encode_utf8_string t) = 2 + length t" by (rule wire_str_decode(2) [OF t(1)])
  have "decode_str_at msg (pre @ encode_utf8_string t @ q # ?tail) (length pre) = Ok (t, 2 + length t)" for msg
    by (rule decode_str_at_encoded [OF t(1) refl])
  then have "subscribe_loop (pre @ encode_utf8_string t @ q # ?tail) (length pre) subs =
      subscribe_loop (?pre @ ?tail) (length ?pre) (subs @ [(t, q)])"
    using t q by (subst subscribe_loop.simps) (simp add: Let_def len nth_append)
  also have "\<dots> = Ok ((subs @ [(t, q)]) @ xs)"
    using Cons.prems by (intro Cons.IH) simp
  finally show ?case by (simp add: x)
qed

lemma unsubscribe_loop_encoded:
  "\<forall>t \<in> set xs. wire_str t \<and> filter_ok t \<Longrightarrow>
   unsubscribe_loop (pre @ concat (map encode_utf8_string xs)) (length pre) fs = Ok (fs @ xs)"
proof (induction xs arbitrary: pre fs)
  case Nil
  then show ?case by (simp add: unsubscribe_loop.simps)
next
  case (Cons t xs)
  then have t: "wire_str t" "validate_topic_filter t = Ok ()"
    by (auto simp: validate_topic_filter_Ok_iff)
  let ?tail = "concat (map encode_utf8_string xs)"
  have len: "length (encode_utf8_string t) = 2 + length t" by (rule wire_str_decode(2) [OF t(1)])
  have "decode_str_at msg (pre @ encode_utf8_string t @ ?tail) (length pre) = Ok (t, 2 + length t)" for msg
    by (rule decode_str_at_encoded [OF t(1) refl])
  then have "unsubscribe_loop (pre @ encode_utf8_string t @ ?tail) (length pre) fs =
      unsubscribe_loop ((pre @ encode_utf8_string t) @ ?tail) (length (pre @ encode_utf8_string t)) (fs @ [t])"
    using t by (subst unsubscribe_loop.simps) (simp add: Let_def len)
  also have "\<dots> = Ok ((fs @ [t]) @ xs)"
    using Cons.prems by (intro Cons.IH) simp
  finally show ?case by simp
qed

lemma decode_subscribe_body:
  assumes "client_packet (Subscribe p)"
  shows "decode_subscribe (subscribe_body p) = Ok p"
proof -
  have subs: "subscriptions p \<noteq> []"
    and ok: "\<forall>(t, q) \<in> set (subscriptions p). wire_str t \<and> filter_ok t \<and> q \<le> 2"
    using assms by simp_all
  have "subscribe_loop (subscribe_body p) 2 [] = Ok (subscriptions p)"
    using subscribe_loop_encoded [OF ok, of "to_be_bytes (sub_packet_id p)" "[]"]
    by (simp add: subscribe_body_def)
  moreover have "read_u16 (subscribe_body p) 0 = (Ok (sub_packet_id p) :: u16 decoded)"
    using read_u16_encoded [of 0 "[]"] by (simp add: subscribe_body_def)
  moreover have "\<not> length (subscribe_body p) \<le> 2"
    using subs by (cases "subscriptions p") (auto simp: subscribe_body_def)
  ultimately show ?thesis by (simp add: decode_subscribe_def)
qed

lemma decode_unsubscribe_body:
  assumes "client_packet (Unsubscribe p)"
  shows "decode_unsubscribe (unsubscribe_body p) = Ok p"
proof -
  have fs: "topic_filters p \<noteq> []" and ok: "\<forall>t \<in> set (topic_filters p). wire_str t \<and> filter_ok t"
    using assms by simp_all
  have "unsubscribe_loop (unsubscribe_body p) 2 [] = Ok (topic_filters p)"
    using unsubscribe_loop_encoded [OF ok, of "to_be_bytes (unsub_packet_id p)" "[]"]
    by (simp add: unsubscribe_body_def)
  moreover have "read_u16 (unsubscribe_body p) 0 = (Ok (unsub_packet_id p) :: u16 decoded)"
    using read_u16_encoded [of 0 "[]"] by (simp add: unsubscribe_body_def)
  moreover have "\<not> length (unsubscribe_body p) \<le> 2"
    using fs by (cases "topic_filters p") (auto simp: unsubscribe_body_def length_encode_utf8_string)
  ultimately show ?thesis by (simp add: decode_unsubscribe_def)
qed

lemma publish_flags_bits:
  assumes "pub_qos p = 0 \<or> pub_qos p = 1"
  shows "drop_bit 1 (publish_flags p AND 0x0F) AND 3 = pub_qos p"
    and "(publish_flags p AND 0x0F) AND 1 \<noteq> 0 \<longleftrightarrow> pub_retain p"
  using assms by (auto simp: publish_flags_def Let_def)

lemma decode_publish_body:
  assumes "publish_ok p"
  shows "decode_publish (publish_flags p AND 0x0F) (publish_body p) = Ok p"
proof -
  have t: "wire_str (pub_topic p)" "pub_topic p \<noteq> []" "CHR ''+'' \<notin> set (pub_topic p)"
    "CHR ''#'' \<notin> set (pub_topic p)"
    using assms by (auto simp: publish_ok_def is_wildcard_filter_def)
  have q: "pub_qos p = 0 \<or> pub_qos p = 1"
    using assms by (auto simp: publish_ok_def split: option.splits)
  note bits = publish_flags_bits [OF q]
  have len: "length (encode_utf8_string (pub_topic p)) = 2 + length (pub_topic p)"
    by (rule wire_str_decode(2) [OF t(1)])
  have topic: "decode_utf8_string (publish_body p) = Ok (pub_topic p, 2 + length (pub_topic p))"
    using wire_str_decode(1) [OF t(1)] by (simp add: publish_body_def)
  show ?thesis
  proof (cases "pub_packet_id p")
    case None
    then have qos: "pub_qos p = 0" and body: "publish_body p = encode_utf8_string (pub_topic p) @ pub_payload p"
      using assms by (simp_all add: publish_ok_def publish_body_def)
    have "drop (2 + length (pub_topic p)) (publish_body p) = pub_payload p"
      using len by (simp add: body)
    moreover have "2 + length (pub_topic p) \<le> length (publish_body p)"
      using len by (simp add: body)
    ultimately show ?thesis
      using t qos None unfolding decode_publish_def bits by (simp add: topic Let_def)
  next
    case (Some pid)
    then have qos: "pub_qos p = 1" and pid: "pid \<noteq> 0"
      and body: "publish_body p = encode_utf8_string (pub_topic p) @ to_be_bytes pid @ pub_payload p"
      using assms by (simp_all add: publish_ok_def publish_body_def)
    have "read_u16 (publish_body p) (2 + length (pub_topic p)) = (Ok pid :: u16 decoded)"
      using read_u16_encoded [of "2 + length (pub_topic p)" "encode_utf8_string (pub_topic p)"] len
      by (simp add: body)
    moreover have "drop (Suc (Suc (Suc (Suc (length (pub_topic p)))))) (publish_body p) = pub_payload p"
      using len by (simp add: body)
    moreover have "Suc (Suc (Suc (Suc (length (pub_topic p))))) \<le> length (publish_body p)"
      using len by (simp add: body)
    ultimately show ?thesis
      using t qos pid Some unfolding decode_publish_def bits by (simp add: topic Let_def)
  qed
qed

lemma decode_puback_body: "puback_packet_id p \<noteq> 0 \<Longrightarrow> decode_puback (to_be_bytes (puback_packet_id p)) = Ok p"
  by (simp add: decode_puback_def read_u16_be)

text \<open>
  Every packet a client can send, encoded and followed by anything, decodes to itself and to exactly
  the bytes of its encoding.
\<close>

lemma decode_encode:
  assumes "client_packet p" and "length (packet_body p) \<le> max_remaining_length"
  shows "decode (encode p @ rest) = Ok (p, length (encode p))"
  using assms
proof (cases p)
  case (Connect c)
  with assms have "decode_connect (connect_body c) = Ok c" by (intro decode_connect_body) simp
  with Connect assms(2) show ?thesis
    by (simp add: encode_connect_def decode_framed decode_body_def packet_type_defs)
next
  case (Subscribe c)
  with assms have "decode_subscribe (subscribe_body c) = Ok c" by (intro decode_subscribe_body) simp
  with Subscribe assms(2) show ?thesis
    by (simp add: encode_subscribe_def decode_framed decode_body_def packet_type_defs)
next
  case (Unsubscribe c)
  with assms have "decode_unsubscribe (unsubscribe_body c) = Ok c" by (intro decode_unsubscribe_body) simp
  with Unsubscribe assms(2) show ?thesis
    by (simp add: encode_unsubscribe_def decode_framed decode_body_def packet_type_defs)
next
  case (Publish c)
  with assms have "decode_publish (publish_flags c AND 0x0F) (publish_body c) = Ok c"
    by (intro decode_publish_body) simp
  with Publish assms(2) show ?thesis
    by (simp add: encode_publish_def decode_framed decode_body_def packet_type_defs)
next
  case (PubAck c)
  with assms show ?thesis
    by (simp add: encode_puback_def decode_framed decode_body_def packet_type_defs decode_puback_body
        max_remaining_length_def)
qed (simp_all add: fixed_header_only decode_framed decode_body_def packet_type_defs max_remaining_length_def)

lemma encode_inject:
  assumes "client_packet p" and "client_packet p'"
    and "length (packet_body p) \<le> max_remaining_length" and "length (packet_body p') \<le> max_remaining_length"
    and "encode p @ xs = encode p' @ ys"
  shows "p = p' \<and> xs = ys"
  using decode_encode [OF assms(1,3), of xs] decode_encode [OF assms(2,4), of ys] assms(5) by auto

section \<open>What is incomplete\<close>

text \<open>The longest packet: type, four length bytes, body.\<close>

definition max_packet_length :: nat where
  "max_packet_length = 5 + max_remaining_length"

lemma rl_decode_spec_Incomplete: "rl_decode_spec k bs = Err Incomplete \<Longrightarrow> length bs < k"
  by (induction k bs rule: rl_decode_spec.induct) (auto split: if_splits)

text \<open>Only the framing says \<open>Incomplete\<close>; the body of a packet never does.\<close>

lemma ok_or_Err_iff [outcome_simps]: "ok_or e v = Err e' \<longleftrightarrow> v = None \<and> e' = e"
  by (cases v) auto

lemma decode_utf8_string_Err: "decode_utf8_string buf = Err e \<Longrightarrow> e \<noteq> Incomplete"
  by (auto simp: decode_utf8_string_def Let_def outcome_simps split: if_splits)

lemma decode_str_at_Err: "decode_str_at msg body pos = Err e \<Longrightarrow> e \<noteq> Incomplete"
  by (auto simp: decode_str_at_def outcome_simps)

lemma subscribe_loop_Err: "subscribe_loop body pos subs = Err e \<Longrightarrow> e \<noteq> Incomplete"
proof (induction body pos subs rule: subscribe_loop.induct)
  case (1 body pos subs)
  from "1.prems" "1.IH" show ?case
    by (subst (asm) subscribe_loop.simps)
      (auto simp: Let_def outcome_simps dest!: decode_str_at_Err validate_topic_filter_Err split: if_splits; blast)
qed

lemma unsubscribe_loop_Err: "unsubscribe_loop body pos fs = Err e \<Longrightarrow> e \<noteq> Incomplete"
proof (induction body pos fs rule: unsubscribe_loop.induct)
  case (1 body pos fs)
  from "1.prems" "1.IH" show ?case
    by (subst (asm) unsubscribe_loop.simps)
      (auto simp: Let_def outcome_simps dest!: decode_str_at_Err validate_topic_filter_Err split: if_splits; blast)
qed

lemma decode_connect_Err: "decode_connect body = Err e \<Longrightarrow> e \<noteq> Incomplete"
  by (auto simp: decode_connect_def Let_def outcome_simps dest!: decode_utf8_string_Err decode_str_at_Err split: if_splits)

lemma decode_publish_Err: "decode_publish flags body = Err e \<Longrightarrow> e \<noteq> Incomplete"
  by (auto simp: decode_publish_def Let_def outcome_simps split: if_splits)

lemma decode_body_Err: "decode_body pt flags body = Err e \<Longrightarrow> e \<noteq> Incomplete"
  by (auto simp: decode_body_def decode_subscribe_def decode_unsubscribe_def decode_puback_def outcome_simps
      dest!: decode_connect_Err decode_publish_Err subscribe_loop_Err unsubscribe_loop_Err split: if_splits)

lemma decode_Incomplete:
  assumes "decode buf = Err Incomplete"
  shows "length buf < max_packet_length"
proof (cases buf)
  case (Cons b bs)
  show ?thesis
  proof (cases "decode_remaining_length bs")
    case (Ok r)
    obtain n k where r: "r = (n, k)" by (cases r)
    with assms Ok Cons have "length bs < k + unat n"
      by (auto simp: decode_Cons dest: decode_body_Err split: if_splits)
    with rl.dec_consumed [of bs n k] Ok r Cons show ?thesis by (simp add: max_packet_length_def)
  next
    case (Err e)
    with assms Cons have "decode_remaining_length bs = Err Incomplete" by (simp add: decode_Cons)
    then have "rl_decode_spec 4 bs = Err Incomplete" by (simp add: decode_remaining_length_spec)
    then have "length bs < 4" by (rule rl_decode_spec_Incomplete)
    with Cons show ?thesis by (simp add: max_packet_length_def)
  qed (use assms Cons in \<open>simp add: decode_Cons\<close>)
qed (simp add: max_packet_length_def)

section \<open>Properties\<close>

text \<open>C4: Round trip: every packet a client may send, encoded and followed by any bytes, is decoded to
  itself, and exactly the bytes of its encoding are consumed.\<close>

theorem decode_inverts_encode:
  assumes "client_packet p" and "length (packet_body p) \<le> max_remaining_length"
  shows "decode (encode p @ rest) = Ok (p, length (encode p))"
  using assms by (rule decode_encode)

theorem decode_inverts_encode_witness:
  "decode (encode (Publish \<lparr>pub_topic = ''a'', pub_payload = [1, 2], pub_qos = 1, pub_retain = True,
       pub_packet_id = Some 7\<rparr>) @ [0xC0]) =
     Ok (Publish \<lparr>pub_topic = ''a'', pub_payload = [1, 2], pub_qos = 1, pub_retain = True,
       pub_packet_id = Some 7\<rparr>,
       length (encode (Publish \<lparr>pub_topic = ''a'', pub_payload = [1, 2], pub_qos = 1, pub_retain = True,
       pub_packet_id = Some 7\<rparr>)))"
proof (rule decode_inverts_encode)
  have t: "wire_str ''a''" by (simp add: wire_str_def rust_str_def as_bytes_def)
  then show "client_packet (Publish \<lparr>pub_topic = ''a'', pub_payload = [1, 2], pub_qos = 1, pub_retain = True,
       pub_packet_id = Some 7\<rparr>)"
    by (simp add: publish_ok_def is_wildcard_filter_def)
  show "length (packet_body (Publish \<lparr>pub_topic = ''a'', pub_payload = [1, 2], pub_qos = 1, pub_retain = True,
       pub_packet_id = Some 7\<rparr>)) \<le> max_remaining_length"
    by (simp add: publish_body_def wire_str_decode(2) [OF t] max_remaining_length_def)
qed

text \<open>C15: Decoding a stream: bytes that arrive after a packet or after an error do not change the
  result, and every proper prefix of a packet is reported as incomplete, never as an error and never as
  another packet.\<close>

theorem decode_is_incremental:
  "(decode buf \<noteq> Err Incomplete \<longrightarrow> decode (buf @ rest) = decode buf) \<and>
   (decode (xs @ ys) = Ok (p, n) \<and> length xs < n \<longrightarrow> decode xs = Err Incomplete)"
  using decode_extend [of buf "decode buf" rest] decode_prefix [of xs ys p n] by blast

theorem decode_is_incremental_witness:
  "decode [0xC0, 0, 1, 2] = Ok (PingReq, 2) \<and> decode [0xC0] = Err Incomplete"
proof -
  have ping: "decode [0xC0, 0] = Ok (PingReq, 2)"
    using decode_encode [of PingReq "[]"]
    by (simp add: encode_fixed_header_only_def PT_PINGREQ_def max_remaining_length_def)
  then have "decode ([0xC0] @ [0]) = Ok (PingReq, 2)" by simp
  with ping show ?thesis
    using decode_is_incremental [of "[0xC0, 0]" "[1, 2]" "[0xC0]" "[0]" PingReq 2] by simp
qed



end
