(* ===== verification/Outbound_Queue.thy ===== *)
theory Outbound_Queue
  imports Prelude
begin

text \<open>
  \<open>src/queue.rs\<close>, one operation at a time: the bounded drop-oldest queue that carries packets
  from the broker shards to the writer of a connection. Each operation is what it does under its
  lock; \<open>Queue_Threads\<close> takes the locks and the condition variable apart. The locale
  \<open>bounded_queue\<close> is the contract the rest of the broker uses the queue by.
\<close>

section \<open>The queue\<close>

record 'a queue =
  items :: "'a list"
  capacity :: nat
  closed :: bool

definition queue_new :: "nat \<Rightarrow> 'a queue" where
  "queue_new cap = \<lparr>items = [], capacity = cap, closed = False\<rparr>"

text \<open>
  \<open>push\<close> also returns whether an item was dropped: the code sets it whenever the queue is full,
  whatever \<open>pop_front\<close> returned.
\<close>

definition push :: "'a queue \<Rightarrow> 'a \<Rightarrow> 'a queue \<times> bool" where
  "push q x =
     (let full = capacity q \<le> length (items q);
          its = (if full then tl (items q) else items q)
      in (q\<lparr>items := its @ [x]\<rparr>, full))"

text \<open>One round of \<open>pop_blocking\<close>: an item, the end of the queue, or a wait.\<close>

datatype 'a pop_result = PopItem 'a | PopClosed | PopWait

definition pop_blocking :: "'a queue \<Rightarrow> 'a pop_result \<times> 'a queue" where
  "pop_blocking q =
     (case items q of
        x # xs \<Rightarrow> (PopItem x, q\<lparr>items := xs\<rparr>)
      | [] \<Rightarrow> (if closed q then PopClosed else PopWait, q))"

definition close_queue :: "'a queue \<Rightarrow> 'a queue" where
  "close_queue q = q\<lparr>closed := True\<rparr>"

definition pushed :: "'a queue \<Rightarrow> 'a \<Rightarrow> 'a queue" where
  "pushed q x = fst (push q x)"

section \<open>The contract of a bounded drop-oldest queue\<close>

definition last_n :: "nat \<Rightarrow> 'a list \<Rightarrow> 'a list" where
  "last_n n xs = drop (length xs - n) xs"

lemma length_last_n [simp]: "length (last_n n xs) = min n (length xs)"
  by (auto simp: last_n_def)

lemma last_n_all [simp]: "length xs \<le> n \<Longrightarrow> last_n n xs = xs"
  by (simp add: last_n_def)

lemma last_n_last_n_append: "last_n n (last_n n xs @ ys) = last_n n (xs @ ys)"
proof (cases "length xs \<le> n")
  case True
  then show ?thesis by simp
next
  case False
  then have "length xs - n \<le> length xs" and "n + length ys - n = length ys" by simp_all
  with False show ?thesis
    by (simp add: last_n_def add.commute)
qed

lemma set_last_n: "set (last_n n xs) \<subseteq> set xs"
  by (simp add: last_n_def set_drop_subset)

text \<open>
  The provider keeps the newest \<open>bound q\<close> items in the order they were pushed, hands them out from
  the front, and reports the end only when it is closed and empty.
\<close>

locale bounded_queue =
  fixes enq :: "'q \<Rightarrow> 'a \<Rightarrow> 'q"
    and deq :: "'q \<Rightarrow> 'a pop_result \<times> 'q"
    and shut :: "'q \<Rightarrow> 'q"
    and contents :: "'q \<Rightarrow> 'a list"
    and bound :: "'q \<Rightarrow> nat"
    and is_shut :: "'q \<Rightarrow> bool"
    and wf :: "'q \<Rightarrow> bool"
  assumes contents_enq: "wf q \<Longrightarrow> contents (enq q x) = last_n (bound q) (contents q @ [x])"
    and bound_enq: "bound (enq q x) = bound q"
    and shut_enq: "is_shut (enq q x) = is_shut q"
    and wf_enq: "wf q \<Longrightarrow> wf (enq q x)"
    and wf_bounded: "wf q \<Longrightarrow> length (contents q) \<le> bound q"
    and deq_item: "contents q = x # xs \<Longrightarrow> fst (deq q) = PopItem x \<and> contents (snd (deq q)) = xs"
    and deq_empty: "contents q = [] \<Longrightarrow> deq q = (if is_shut q then PopClosed else PopWait, q)"
    and bound_deq: "bound (snd (deq q)) = bound q"
    and shut_deq: "is_shut (snd (deq q)) = is_shut q"
    and wf_deq: "wf q \<Longrightarrow> wf (snd (deq q))"
    and contents_shut: "contents (shut q) = contents q"
    and bound_shut: "bound (shut q) = bound q"
    and shut_shut: "is_shut (shut q)"
    and wf_shut: "wf q \<Longrightarrow> wf (shut q)"
begin

lemma wf_foldl_enq: "wf q \<Longrightarrow> wf (foldl enq q xs)"
  by (induction xs arbitrary: q) (auto simp: wf_enq)

lemma bound_foldl_enq: "bound (foldl enq q xs) = bound q"
  by (induction xs arbitrary: q) (auto simp: bound_enq)

text \<open>After any burst of pushes the queue holds exactly the newest \<open>bound\<close> items, in order.\<close>

lemma contents_foldl_enq:
  "wf q \<Longrightarrow> contents (foldl enq q xs) = last_n (bound q) (contents q @ xs)"
proof (induction xs arbitrary: q)
  case Nil
  then show ?case by (simp add: wf_bounded)
next
  case (Cons x xs)
  then have "contents (foldl enq (enq q x) xs) = last_n (bound q) (contents (enq q x) @ xs)"
    by (simp add: wf_enq bound_enq)
  also have "\<dots> = last_n (bound q) ((contents q @ [x]) @ xs)"
    by (simp only: contents_enq [OF Cons.prems] last_n_last_n_append)
  finally show ?case by simp
qed

lemma bounded_foldl_enq: "wf q \<Longrightarrow> length (contents (foldl enq q xs)) \<le> bound q"
  using wf_bounded [OF wf_foldl_enq] by (simp add: bound_foldl_enq)

text \<open>A newly pushed item is delivered unless the bound is zero.\<close>

lemma last_in_contents: "wf q \<Longrightarrow> 0 < bound q \<Longrightarrow> x \<in> set (contents (enq q x))"
  by (simp add: contents_enq last_n_def)

end

section \<open>The queue of the program keeps the contract\<close>

definition queue_bound :: "'a queue \<Rightarrow> nat" where
  "queue_bound q = max 1 (capacity q)"

definition queue_wf :: "'a queue \<Rightarrow> bool" where
  "queue_wf q \<longleftrightarrow> length (items q) \<le> queue_bound q"

lemma items_pushed:
  "items (pushed q x) = (if capacity q \<le> length (items q) then tl (items q) else items q) @ [x]"
  by (simp add: pushed_def push_def Let_def)

lemma capacity_pushed [simp]: "capacity (pushed q x) = capacity q"
  by (simp add: pushed_def push_def Let_def)

lemma closed_pushed [simp]: "closed (pushed q x) = closed q"
  by (simp add: pushed_def push_def Let_def)

lemma items_pushed_last_n:
  "queue_wf q \<Longrightarrow> items (pushed q x) = last_n (queue_bound q) (items q @ [x])"
  by (cases "items q")
    (auto simp: items_pushed queue_wf_def queue_bound_def last_n_def max_def split: if_splits)

lemma queue_wf_new [simp]: "queue_wf (queue_new cap)"
  by (simp add: queue_wf_def queue_new_def)

interpretation outq: bounded_queue pushed pop_blocking close_queue items queue_bound closed queue_wf
proof (unfold_locales, goal_cases)
  case (1 q x)
  then show ?case by (rule items_pushed_last_n)
next
  case (4 q x)
  then show ?case
    by (auto simp: queue_wf_def items_pushed_last_n queue_bound_def)
qed (auto simp: queue_bound_def queue_wf_def pop_blocking_def close_queue_def split: list.splits)

lemma push_dropped_iff: "snd (push q x) \<longleftrightarrow> capacity q \<le> length (items q)"
  by (simp add: push_def Let_def)

text \<open>Draining a closed queue, as the writer does: every item in order, then the end.\<close>

fun drain :: "nat \<Rightarrow> 'a queue \<Rightarrow> 'a list \<times> 'a pop_result" where
  "drain 0 q = ([], PopWait)"
| "drain (Suc n) q =
     (case pop_blocking q of
        (PopItem x, q') \<Rightarrow> (let (xs, r) = drain n q' in (x # xs, r))
      | (r, q') \<Rightarrow> ([], r))"

lemma drain_closed:
  "closed q \<Longrightarrow> length (items q) < n \<Longrightarrow> drain n q = (items q, PopClosed)"
  by (induction n q rule: drain.induct)
    (auto simp: pop_blocking_def split: list.splits prod.splits)

section \<open>Properties\<close>

text \<open>C18: After any burst of pushes a queue made for \<open>cap\<close> items holds exactly the newest of them in the
  order pushed, at most \<open>max 1 cap\<close> (a capacity of zero still holds one), and \<open>push\<close> reports a drop
  exactly when the queue was full.\<close>

theorem queue_keeps_the_newest:
  "items (foldl pushed (queue_new cap) xs) = last_n (max 1 cap) xs \<and>
   length (items (foldl pushed (queue_new cap) xs)) \<le> max 1 cap \<and>
   (snd (push (foldl pushed (queue_new cap) xs) x) \<longleftrightarrow> cap \<le> length xs)"
proof -
  let ?q = "queue_new cap :: 'a queue"
  have new: "items ?q = []" "queue_bound ?q = max 1 cap" by (simp_all add: queue_new_def queue_bound_def)
  have its: "items (foldl pushed ?q xs) = last_n (max 1 cap) xs"
    using outq.contents_foldl_enq [OF queue_wf_new, of cap xs] by (simp only: new append_Nil)
  have "capacity (foldl pushed ?q xs) = cap"
  proof -
    have "capacity (foldl pushed q xs) = capacity q" for q :: "'a queue"
      by (induction xs arbitrary: q) simp_all
    then show ?thesis by (simp add: queue_new_def)
  qed
  then show ?thesis
    using its by (auto simp: push_dropped_iff max_def)
qed

text \<open>C35: Closing loses nothing: a reader of a closed queue gets every item still queued, in order, and
  only then the end.\<close>

theorem closed_queue_is_drained:
  assumes "length (items q) < n"
  shows "drain n (close_queue q) = (items q, PopClosed)"
  using drain_closed [of "close_queue q" n] assms outq.shut_shut [of q] outq.contents_shut [of q] by simp

theorem closed_queue_is_drained_witness:
  "drain 3 (close_queue (foldl pushed (queue_new 2) [1, 2, 3 :: nat])) = ([2, 3], PopClosed)"
proof -
  have its: "items (foldl pushed (queue_new 2) [1, 2, 3 :: nat]) = [2, 3]"
    by (simp add: pushed_def push_def queue_new_def)
  have "length (items (foldl pushed (queue_new 2) [1, 2, 3 :: nat])) < 3" by (subst its) simp
  from closed_queue_is_drained [OF this] show ?thesis by (simp only: its)
qed

end
