(* ===== verification/Queue_Threads.thy ===== *)
theory Queue_Threads
  imports Outbound_Queue "HOL-Library.Sublist"
begin

text \<open>
  \<open>src/queue.rs\<close>, one lock operation at a time: the \<open>items\<close> mutex, the \<open>closed\<close> flag behind a mutex
  of its own, and the condition variable \<open>not_empty\<close>, shared by producers, one consumer (the writer
  thread of a connection) and the thread that closes the queue. A thread is at a program point; a
  step moves one thread past one lock acquisition, release, wait or notification. The \<open>closed\<close>
  mutex is only ever held for one read or write, so taking it is part of that step. Waits may wake
  spuriously, as the standard library documents.
\<close>

datatype 'a pc =
    Idle
  | PushEnter 'a        \<comment> \<open>about to lock \<open>items\<close> in \<open>push\<close>\<close>
  | PushNotify          \<comment> \<open>guard dropped, about to call \<open>notify_one\<close>\<close>
  | CloseEnter          \<comment> \<open>about to set \<open>closed\<close>\<close>
  | CloseNotify         \<comment> \<open>flag set, about to call \<open>notify_all\<close>\<close>
  | PopEnter            \<comment> \<open>about to lock \<open>items\<close> in \<open>pop_blocking\<close>, or to lock it again after a wait\<close>
  | PopHolding          \<comment> \<open>holds \<open>items\<close>, found it empty, about to read \<open>closed\<close>\<close>
  | PopWaiting          \<comment> \<open>holds \<open>items\<close>, read \<open>closed\<close> as false, about to call \<open>wait\<close>\<close>
  | PopSleeping         \<comment> \<open>inside \<open>wait\<close>, \<open>items\<close> released\<close>
  | PopReturn "'a option"  \<comment> \<open>\<open>pop_blocking\<close> returned\<close>

record 'a threads =
  tq :: "'a queue"
  items_lock :: "nat option"
  pcs :: "nat \<Rightarrow> 'a pc"

datatype 'a label = Call | Pushed 'a | Popped 'a | Internal | Spurious

definition threads_init :: "nat \<Rightarrow> 'a threads" where
  "threads_init cap = \<lparr>tq = queue_new cap, items_lock = None, pcs = (\<lambda>_. Idle)\<rparr>"

definition goto :: "nat \<Rightarrow> 'a pc \<Rightarrow> 'a threads \<Rightarrow> 'a threads" where
  "goto t p s = s\<lparr>pcs := (pcs s)(t := p)\<rparr>"

text \<open>\<open>notify_all\<close> wakes every sleeping thread: each goes back to take the lock.\<close>

definition wake_all :: "('t \<Rightarrow> 'a pc) \<Rightarrow> 't \<Rightarrow> 'a pc" where
  "wake_all ps t = (if ps t = PopSleeping then PopEnter else ps t)"

text \<open>
  The steps. Only the thread \<open>c\<close> pops, as only a connection's writer does; any thread may push or
  close.
\<close>

inductive tstep :: "nat \<Rightarrow> 'a threads \<Rightarrow> 'a label \<Rightarrow> 'a threads \<Rightarrow> bool" for c :: nat where
  call_push: "pcs s t = Idle \<Longrightarrow> t \<noteq> c \<Longrightarrow> tstep c s Call (goto t (PushEnter x) s)"
| call_close: "pcs s t = Idle \<Longrightarrow> t \<noteq> c \<Longrightarrow> tstep c s Call (goto t CloseEnter s)"
| call_pop: "pcs s c = Idle \<or> (\<exists>x. pcs s c = PopReturn (Some x)) \<Longrightarrow> tstep c s Call (goto c PopEnter s)"
| push_locked: "pcs s t = PushEnter x \<Longrightarrow> items_lock s = None \<Longrightarrow>
    tstep c s (Pushed x) (goto t PushNotify (s\<lparr>tq := pushed (tq s) x\<rparr>))"
| push_notify_one: "pcs s t = PushNotify \<Longrightarrow> pcs s u = PopSleeping \<Longrightarrow>
    tstep c s Internal (goto t Idle (goto u PopEnter s))"
| push_notify_none: "pcs s t = PushNotify \<Longrightarrow> \<forall>u. pcs s u \<noteq> PopSleeping \<Longrightarrow>
    tstep c s Internal (goto t Idle s)"
| close_set: "pcs s t = CloseEnter \<Longrightarrow>
    tstep c s Internal (goto t CloseNotify (s\<lparr>tq := close_queue (tq s)\<rparr>))"
| close_notify_all: "pcs s t = CloseNotify \<Longrightarrow>
    tstep c s Internal (goto t Idle (s\<lparr>pcs := wake_all (pcs s)\<rparr>))"
| pop_take: "pcs s c = PopEnter \<Longrightarrow> items_lock s = None \<Longrightarrow> items (tq s) = x # xs \<Longrightarrow>
    tstep c s (Popped x) (goto c (PopReturn (Some x)) (s\<lparr>tq := (tq s)\<lparr>items := xs\<rparr>\<rparr>))"
| pop_empty: "pcs s c = PopEnter \<Longrightarrow> items_lock s = None \<Longrightarrow> items (tq s) = [] \<Longrightarrow>
    tstep c s Internal (goto c PopHolding (s\<lparr>items_lock := Some c\<rparr>))"
| pop_closed: "pcs s c = PopHolding \<Longrightarrow> closed (tq s) \<Longrightarrow>
    tstep c s Internal (goto c (PopReturn None) (s\<lparr>items_lock := None\<rparr>))"
| pop_open: "pcs s c = PopHolding \<Longrightarrow> \<not> closed (tq s) \<Longrightarrow>
    tstep c s Internal (goto c PopWaiting s)"
| pop_wait: "pcs s c = PopWaiting \<Longrightarrow>
    tstep c s Internal (goto c PopSleeping (s\<lparr>items_lock := None\<rparr>))"
| pop_spurious: "pcs s c = PopSleeping \<Longrightarrow> tstep c s Spurious (goto c PopEnter s)"

inductive texec :: "nat \<Rightarrow> 'a threads \<Rightarrow> 'a label list \<Rightarrow> 'a threads \<Rightarrow> bool" for c :: nat where
  texec_nil: "texec c s [] s"
| texec_step: "tstep c s l s' \<Longrightarrow> texec c s' ls s'' \<Longrightarrow> texec c s (l # ls) s''"

inductive_cases texec_nilE [elim!]: "texec c s [] s'"
inductive_cases texec_consE: "texec c s (l # ls) s''"

lemma goto_simps [simp]:
  "tq (goto t p s) = tq s" "items_lock (goto t p s) = items_lock s"
  "pcs (goto t p s) = (pcs s)(t := p)"
  by (simp_all add: goto_def)

section \<open>Invariant of the two locks and the condition variable\<close>

text \<open>
  The \<open>items\<close> mutex is held exactly while the consumer is between finding the queue empty and
  returning or waiting, the queue stays empty meanwhile, and no other thread is at a consumer's
  program point. A sleeping consumer with a non-empty queue is about to be notified.
\<close>

definition consumer_pc :: "'a pc \<Rightarrow> bool" where
  "consumer_pc p \<longleftrightarrow> p \<in> {PopEnter, PopHolding, PopWaiting, PopSleeping} \<or> (\<exists>r. p = PopReturn r)"

definition lock_inv :: "nat \<Rightarrow> 'a threads \<Rightarrow> bool" where
  "lock_inv c s \<longleftrightarrow>
     (\<forall>t. t \<noteq> c \<longrightarrow> \<not> consumer_pc (pcs s t)) \<and>
     (pcs s c = Idle \<or> consumer_pc (pcs s c)) \<and>
     items_lock s = (if pcs s c = PopHolding \<or> pcs s c = PopWaiting then Some c else None) \<and>
     (pcs s c = PopHolding \<or> pcs s c = PopWaiting \<longrightarrow> items (tq s) = [])"

definition wakeup_inv :: "nat \<Rightarrow> 'a threads \<Rightarrow> bool" where
  "wakeup_inv c s \<longleftrightarrow>
     (pcs s c = PopSleeping \<and> items (tq s) \<noteq> [] \<longrightarrow> (\<exists>t. pcs s t = PushNotify))"

definition threads_inv :: "nat \<Rightarrow> 'a threads \<Rightarrow> bool" where
  "threads_inv c s \<longleftrightarrow> lock_inv c s \<and> wakeup_inv c s \<and> queue_wf (tq s)"

lemma consumer_pc_simps [simp]:
  "\<not> consumer_pc Idle" "\<not> consumer_pc (PushEnter x)" "\<not> consumer_pc PushNotify"
  "\<not> consumer_pc CloseEnter" "\<not> consumer_pc CloseNotify" "consumer_pc PopEnter"
  "consumer_pc PopHolding" "consumer_pc PopWaiting" "consumer_pc PopSleeping"
  "consumer_pc (PopReturn r)"
  by (auto simp: consumer_pc_def)

lemma items_close_queue [simp]: "items (close_queue q) = items q"
  by (rule outq.contents_shut)

lemma lock_inv_init: "lock_inv c (threads_init cap)"
  by (simp add: lock_inv_def threads_init_def)

lemma lock_inv_step:
  assumes "tstep c s l s'" and "lock_inv c s"
  shows "lock_inv c s'"
  using assms
  by (induction rule: tstep.induct) (auto simp: lock_inv_def wake_all_def split: if_splits)

lemma wakeup_inv_step:
  assumes "tstep c s l s'" and "lock_inv c s" and "wakeup_inv c s"
  shows "wakeup_inv c s'"
  using assms
proof (induction rule: tstep.induct)
  case (push_notify_one s t u)
  then have "u = c" by (auto simp: lock_inv_def)
  with push_notify_one show ?case by (auto simp: wakeup_inv_def)
qed (auto simp: lock_inv_def wakeup_inv_def wake_all_def split: if_splits, (metis pc.distinct)+)

lemma queue_wf_take: "items q = x # xs \<Longrightarrow> queue_wf q \<Longrightarrow> queue_wf (q\<lparr>items := xs\<rparr>)"
  by (simp add: queue_wf_def queue_bound_def)

lemma queue_wf_step: "tstep c s l s' \<Longrightarrow> queue_wf (tq s) \<Longrightarrow> queue_wf (tq s')"
  by (induction rule: tstep.induct) (auto intro: outq.wf_enq outq.wf_shut queue_wf_take)

lemma threads_inv_step: "tstep c s l s' \<Longrightarrow> threads_inv c s \<Longrightarrow> threads_inv c s'"
  by (auto simp: threads_inv_def intro: lock_inv_step wakeup_inv_step queue_wf_step)

lemma threads_inv_exec: "texec c s ls s' \<Longrightarrow> threads_inv c s \<Longrightarrow> threads_inv c s'"
  by (induction rule: texec.induct) (auto intro: threads_inv_step)

lemma threads_inv_init: "threads_inv c (threads_init cap)"
  unfolding threads_inv_def
  by (intro conjI lock_inv_init) (simp_all add: wakeup_inv_def threads_init_def)

section \<open>Order of delivery\<close>

fun pushes :: "'a label list \<Rightarrow> 'a list" where
  "pushes [] = []"
| "pushes (Pushed x # ls) = x # pushes ls"
| "pushes (_ # ls) = pushes ls"

fun pops :: "'a label list \<Rightarrow> 'a list" where
  "pops [] = []"
| "pops (Popped x # ls) = x # pops ls"
| "pops (_ # ls) = pops ls"

lemma subseq_items_pushed: "subseq (items (pushed q x)) (items q @ [x])"
  by (cases "items q") (auto simp: items_pushed)

lemma step_subseq:
  "tstep c s l s' \<Longrightarrow> subseq (pops [l] @ items (tq s')) (items (tq s) @ pushes [l])"
  by (induction rule: tstep.induct) (auto simp: subseq_items_pushed)

lemma pops_Cons: "pops (l # ls) = pops [l] @ pops ls"
  by (cases l) auto

lemma pushes_Cons: "pushes (l # ls) = pushes [l] @ pushes ls"
  by (cases l) auto

text \<open>
  Whatever the interleaving, the items the consumer got, followed by those still queued, are a
  subsequence of what was pushed: no item is invented, duplicated or reordered.
\<close>

lemma exec_subseq:
  "texec c s ls s' \<Longrightarrow> subseq (pops ls @ items (tq s')) (items (tq s) @ pushes ls)"
proof (induction rule: texec.induct)
  case (texec_nil s)
  then show ?case by simp
next
  case (texec_step s l s' ls s'')
  have "subseq (pops [l] @ pops ls @ items (tq s'')) (pops [l] @ items (tq s') @ pushes ls)"
    using texec_step.IH by (simp add: subseq_append')
  also have "subseq \<dots> (items (tq s) @ pushes [l] @ pushes ls)"
    using list_emb_append_mono [OF step_subseq [OF texec_step.hyps(1)], of "pushes ls" "pushes ls"]
    by simp
  finally show ?case
    by (simp add: pops_Cons [of l ls] pushes_Cons [of l ls])
qed

section \<open>The end of the queue\<close>

text \<open>
  A consumer that goes to sleep after the flag was set is not woken by \<open>close\<close>: its check of the
  flag and its wait are two steps, and \<open>close\<close> takes no part in the \<open>items\<close> mutex that the consumer
  holds between them.
\<close>

definition stuck_at_end :: "nat \<Rightarrow> 'a threads \<Rightarrow> bool" where
  "stuck_at_end c s \<longleftrightarrow>
     pcs s = (\<lambda>_. Idle)(c := PopSleeping) \<and> closed (tq s) \<and> items (tq s) = []"

lemma stuck_at_end_steps:
  assumes "stuck_at_end c s" and "tstep c s l s'"
  shows "l = Call \<or> l = Spurious"
  using assms(2,1)
  by (induction rule: tstep.induct) (auto simp: stuck_at_end_def split: if_splits)

text \<open>
  The schedule: the consumer finds the queue empty and open, the closer sets the flag and notifies
  nobody, the consumer goes to sleep.
\<close>

lemma stuck_at_end_reachable:
  assumes "c \<noteq> t"
  shows "\<exists>s. texec c (threads_init cap) [Call, Call, Internal, Internal, Internal, Internal, Internal] s
    \<and> stuck_at_end c (s :: 'a threads)"
proof -
  let ?q = "queue_new cap :: 'a queue"
  let ?s = "\<lambda>q l ps. \<lparr>tq = q, items_lock = l, pcs = ps\<rparr> :: 'a threads"
  let ?i = "\<lambda>_. Idle :: 'a pc"
  have 1: "tstep c (threads_init cap) Call (?s ?q None (?i(c := PopEnter)))"
    using tstep.call_pop [of "threads_init cap" c] by (simp add: threads_init_def goto_def)
  have 2: "tstep c (?s ?q None (?i(c := PopEnter))) Call (?s ?q None (?i(c := PopEnter, t := CloseEnter)))"
    using tstep.call_close [of "?s ?q None (?i(c := PopEnter))" t c] assms by (simp add: goto_def)
  have 3: "tstep c (?s ?q None (?i(c := PopEnter, t := CloseEnter))) Internal
      (?s ?q (Some c) (?i(c := PopHolding, t := CloseEnter)))"
    using tstep.pop_empty [of "?s ?q None (?i(c := PopEnter, t := CloseEnter))" c] assms
    by (simp add: goto_def queue_new_def fun_upd_twist)
  have 4: "tstep c (?s ?q (Some c) (?i(c := PopHolding, t := CloseEnter))) Internal
      (?s ?q (Some c) (?i(c := PopWaiting, t := CloseEnter)))"
    using tstep.pop_open [of "?s ?q (Some c) (?i(c := PopHolding, t := CloseEnter))" c] assms
    by (simp add: goto_def queue_new_def fun_upd_twist)
  let ?q' = "close_queue ?q"
  have 5: "tstep c (?s ?q (Some c) (?i(c := PopWaiting, t := CloseEnter))) Internal
      (?s ?q' (Some c) (?i(c := PopWaiting, t := CloseNotify)))"
    using tstep.close_set [of "?s ?q (Some c) (?i(c := PopWaiting, t := CloseEnter))" t c] assms
    by (simp add: goto_def)
  have "wake_all (?i(c := PopWaiting, t := CloseNotify)) = ?i(c := PopWaiting, t := CloseNotify)"
    using assms by (auto simp: wake_all_def fun_eq_iff)
  moreover have "?i(c := PopWaiting, t := Idle) = ?i(c := PopWaiting)"
    using assms by (auto simp: fun_eq_iff)
  ultimately have 6: "tstep c (?s ?q' (Some c) (?i(c := PopWaiting, t := CloseNotify))) Internal
      (?s ?q' (Some c) (?i(c := PopWaiting)))"
    using tstep.close_notify_all [of "?s ?q' (Some c) (?i(c := PopWaiting, t := CloseNotify))" t c] assms
    by (simp add: goto_def fun_upd_twist)
  have 7: "tstep c (?s ?q' (Some c) (?i(c := PopWaiting))) Internal (?s ?q' None (?i(c := PopSleeping)))"
    using tstep.pop_wait [of "?s ?q' (Some c) (?i(c := PopWaiting))" c] by (simp add: goto_def)
  have "stuck_at_end c (?s ?q' None (?i(c := PopSleeping)))"
    by (simp add: stuck_at_end_def close_queue_def queue_new_def)
  then show ?thesis
    using 1 2 3 4 5 6 7 by (blast intro: texec_nil texec_step)
qed

section \<open>Properties\<close>

text \<open>C17: Under every interleaving of producers, the consumer and a closer, what the consumer got followed
  by what is still queued is a subsequence of what was pushed, in the order of the pushes: nothing is
  invented, duplicated or reordered.\<close>

theorem delivery_is_fifo:
  assumes "texec c (threads_init cap) ls s"
  shows "subseq (pops ls @ items (tq s)) (pushes ls)"
  using exec_subseq [OF assms] by (simp add: threads_init_def queue_new_def)

theorem delivery_is_fifo_witness:
  "\<exists>s :: nat threads. texec 0 (threads_init 2) [Call, Pushed 5] s \<and> subseq (items (tq s)) [5]"
proof -
  let ?s1 = "goto 1 (PushEnter 5) (threads_init 2) :: nat threads"
  let ?s2 = "goto 1 PushNotify (?s1\<lparr>tq := pushed (tq ?s1) 5\<rparr>)"
  have "tstep 0 (threads_init 2) Call ?s1"
    by (rule tstep.call_push) (simp_all add: threads_init_def)
  moreover have "tstep 0 ?s1 (Pushed 5) ?s2"
    by (rule tstep.push_locked) (simp_all add: threads_init_def)
  ultimately have run: "texec 0 (threads_init 2) [Call, Pushed 5] ?s2"
    by (blast intro: texec_nil texec_step)
  from run delivery_is_fifo [OF run] show ?thesis by (intro exI [of _ ?s2]) simp
qed

text \<open>C27: In every reachable state the \<open>items\<close> mutex is held exactly while the consumer is between
  finding the queue empty and returning or waiting, the queue never exceeds its bound, and a consumer
  that sleeps although there are items is about to be notified: a push is never missed.\<close>

theorem push_wakes_the_consumer:
  assumes "texec c (threads_init cap) ls s"
  shows "(items_lock s \<noteq> None \<longleftrightarrow> pcs s c = PopHolding \<or> pcs s c = PopWaiting) \<and>
    length (items (tq s)) \<le> queue_bound (tq s) \<and>
    (pcs s c = PopSleeping \<and> items (tq s) \<noteq> [] \<longrightarrow> (\<exists>t. pcs s t = PushNotify))"
proof -
  have "threads_inv c s" using threads_inv_exec [OF assms threads_inv_init] .
  then show ?thesis by (auto simp: threads_inv_def lock_inv_def wakeup_inv_def queue_wf_def)
qed

theorem push_wakes_the_consumer_witness:
  "\<exists>s :: nat threads. texec 0 (threads_init 2) [Call, Internal] s \<and> pcs s 0 = PopHolding \<and> items_lock s \<noteq> None"
proof -
  let ?s1 = "goto 0 PopEnter (threads_init 2) :: nat threads"
  let ?s2 = "goto 0 PopHolding (?s1\<lparr>items_lock := Some 0\<rparr>)"
  have "tstep 0 (threads_init 2) Call ?s1"
    by (rule tstep.call_pop) (simp add: threads_init_def)
  moreover have "tstep 0 ?s1 Internal ?s2"
    by (rule tstep.pop_empty) (simp_all add: threads_init_def queue_new_def)
  ultimately have run: "texec 0 (threads_init 2) [Call, Internal] ?s2"
    by (blast intro: texec_nil texec_step)
  with push_wakes_the_consumer [OF run] show ?thesis by (intro exI [of _ ?s2]) simp
qed

text \<open>C10: Closing can be missed. There is an interleaving in which \<open>close\<close> runs to its end between the
  consumer's check of the flag and its wait: the queue is closed and empty, no other thread has
  anything left to do, the consumer sleeps, and the only steps left are a new call by another thread or
  a spurious wake-up. The writer thread, and the handler that joins it, then never end.\<close>

theorem close_can_be_missed:
  "\<exists>ls. \<exists>s :: 'a threads. texec c (threads_init cap) ls s \<and>
     closed (tq s) \<and> items (tq s) = [] \<and> pcs s c = PopSleeping \<and>
     (\<forall>t. t \<noteq> c \<longrightarrow> pcs s t = Idle) \<and>
     (\<forall>l s'. tstep c s l s' \<longrightarrow> l = Call \<or> l = Spurious)"
proof -
  obtain s :: "'a threads" where run: "texec c (threads_init cap) [Call, Call, Internal, Internal, Internal, Internal, Internal] s"
    and st: "stuck_at_end c s"
    using stuck_at_end_reachable [of c "Suc c" cap] by auto
  from st have "closed (tq s) \<and> items (tq s) = [] \<and> pcs s c = PopSleeping \<and> (\<forall>t. t \<noteq> c \<longrightarrow> pcs s t = Idle)"
    by (simp add: stuck_at_end_def)
  with run stuck_at_end_steps [OF st] show ?thesis by blast
qed

theorem close_can_be_missed_witness:
  "\<exists>ls. \<exists>s :: nat threads. texec 0 (threads_init 128) ls s \<and> closed (tq s) \<and> pcs s 0 = PopSleeping"
  using close_can_be_missed [where c = 0 and cap = 128 and 'a = nat] by blast

end
