(* ===== verification/Broker_Shard.thy ===== *)
theory Broker_Shard
  imports Codec Outbound_Queue
begin

text \<open>
  One shard of the broker (\<open>run_broker\<close> of \<open>src/broker.rs\<close>): its registry of clients, subscriptions
  and retained messages, the handler of each message, and the loop over the messages it receives.
  Outbound queues are shared with the connections, so a client entry holds a handle into a store of
  queues. The locale \<open>subscription_registry\<close> is the contract the delivery rules use the
  subscription map by.
\<close>

section \<open>State and messages\<close>

type_synonym connection_id = u64

datatype outbound_event = Packet mqtt_packet

text \<open>A \<open>QueueHandle\<close> is an address in the store; a handle always points to a queue.\<close>

type_synonym handle = nat
type_synonym queue_store = "handle \<Rightarrow> outbound_event queue"

datatype broker_message =
    Register connection_id string handle
  | SubscribeTo connection_id string
  | UnsubscribeFrom connection_id string
  | PublishFrom connection_id publish_packet
  | DisconnectClient connection_id

record client_state =
  cs_client_id :: string
  cs_outbound :: handle

record shard =
  clients :: "connection_id \<rightharpoonup> client_state"
  topics :: "string \<rightharpoonup> connection_id list"
  retained :: "string \<rightharpoonup> publish_packet"

definition shard_new :: shard where
  "shard_new = \<lparr>clients = Map.empty, topics = Map.empty, retained = Map.empty\<rparr>"

definition push_event :: "mqtt_packet \<Rightarrow> handle \<Rightarrow> queue_store \<Rightarrow> queue_store" where
  "push_event p h st = st(h := pushed (st h) (Packet p))"

section \<open>Operations on the registry\<close>

definition add_subscription ::
    "connection_id \<Rightarrow> string \<Rightarrow> (string \<rightharpoonup> connection_id list) \<Rightarrow> (string \<rightharpoonup> connection_id list)" where
  "add_subscription cid topic ts =
     ts(topic \<mapsto> push_unique cid (case ts topic of None \<Rightarrow> [] | Some subs \<Rightarrow> subs))"

definition remove_subscription ::
    "connection_id \<Rightarrow> string \<Rightarrow> (string \<rightharpoonup> connection_id list) \<Rightarrow> (string \<rightharpoonup> connection_id list)" where
  "remove_subscription cid topic ts =
     (case ts topic of None \<Rightarrow> ts | Some subs \<Rightarrow> ts(topic \<mapsto> retain_ne cid subs))"

definition remove_all_subscriptions ::
    "connection_id \<Rightarrow> (string \<rightharpoonup> connection_id list) \<Rightarrow> (string \<rightharpoonup> connection_id list)" where
  "remove_all_subscriptions cid ts = (\<lambda>topic. map_option (retain_ne cid) (ts topic))"

definition update_retained ::
    "publish_packet \<Rightarrow> (string \<rightharpoonup> publish_packet) \<Rightarrow> (string \<rightharpoonup> publish_packet)" where
  "update_retained p r =
     (if pub_retain p then
        if pub_payload p = [] then r(pub_topic p := None) else r(pub_topic p \<mapsto> p)
      else r)"

section \<open>The message handlers\<close>

definition handle_register ::
    "connection_id \<Rightarrow> string \<Rightarrow> handle \<Rightarrow> shard \<times> queue_store \<Rightarrow> shard \<times> queue_store" where
  "handle_register cid client h s =
     (case s of (sh, st) \<Rightarrow>
       (sh\<lparr>clients := (clients sh)(cid \<mapsto> \<lparr>cs_client_id = client, cs_outbound = h\<rparr>)\<rparr>, st))"

text \<open>
  The retained messages a new subscription is sent: all matching ones for a wildcard filter, in the
  iteration order \<open>ks\<close> of the retained map, or the one of that name; each is marked as retained.
\<close>

definition replay :: "string list \<Rightarrow> string \<Rightarrow> (string \<rightharpoonup> publish_packet) \<Rightarrow> publish_packet list" where
  "replay ks topic r =
     map (\<lambda>p. p\<lparr>pub_retain := True\<rparr>)
       (if is_wildcard_filter topic then
          filter (\<lambda>p. topic_matches_filter (pub_topic p) topic) (values_in r ks)
        else (case r topic of None \<Rightarrow> [] | Some p \<Rightarrow> [p]))"

definition handle_subscribe ::
    "string list \<Rightarrow> connection_id \<Rightarrow> string \<Rightarrow> shard \<times> queue_store \<Rightarrow> shard \<times> queue_store" where
  "handle_subscribe ks cid topic s =
     (case s of (sh, st) \<Rightarrow>
       let sh' = sh\<lparr>topics := add_subscription cid topic (topics sh)\<rparr>;
           st' = (case clients sh cid of
                    None \<Rightarrow> st
                  | Some client \<Rightarrow>
                      foldl (\<lambda>st p. push_event (Publish p) (cs_outbound client) st) st
                        (replay ks topic (retained sh)))
       in (sh', st'))"

definition handle_unsubscribe ::
    "connection_id \<Rightarrow> string \<Rightarrow> shard \<times> queue_store \<Rightarrow> shard \<times> queue_store" where
  "handle_unsubscribe cid topic s =
     (case s of (sh, st) \<Rightarrow> (sh\<lparr>topics := remove_subscription cid topic (topics sh)\<rparr>, st))"

text \<open>
  Fan-out. The exact pass pushes to every registered subscriber of the topic's own entry; the
  wildcard pass visits the other entries in the iteration order of the topic map and skips
  connections already notified. The loop state is the store and the list \<open>notified\<close>.
\<close>

fun exact_pass ::
    "(connection_id \<rightharpoonup> client_state) \<Rightarrow> publish_packet \<Rightarrow> connection_id list \<Rightarrow>
     queue_store \<times> connection_id list \<Rightarrow> queue_store \<times> connection_id list" where
  "exact_pass cs p [] acc = acc"
| "exact_pass cs p (sid # subs) (st, notified) =
     (case cs sid of
        None \<Rightarrow> exact_pass cs p subs (st, notified)
      | Some client \<Rightarrow>
          exact_pass cs p subs (push_event (Publish p) (cs_outbound client) st, notified @ [sid]))"

fun wildcard_subs ::
    "(connection_id \<rightharpoonup> client_state) \<Rightarrow> publish_packet \<Rightarrow> connection_id list \<Rightarrow>
     queue_store \<times> connection_id list \<Rightarrow> queue_store \<times> connection_id list" where
  "wildcard_subs cs p [] acc = acc"
| "wildcard_subs cs p (sid # subs) (st, notified) =
     (if sid \<in> set notified then wildcard_subs cs p subs (st, notified)
      else (case cs sid of
              None \<Rightarrow> wildcard_subs cs p subs (st, notified)
            | Some client \<Rightarrow>
                wildcard_subs cs p subs
                  (push_event (Publish p) (cs_outbound client) st, notified @ [sid])))"

fun wildcard_pass ::
    "(connection_id \<rightharpoonup> client_state) \<Rightarrow> (string \<rightharpoonup> connection_id list) \<Rightarrow> publish_packet \<Rightarrow> string list \<Rightarrow>
     queue_store \<times> connection_id list \<Rightarrow> queue_store \<times> connection_id list" where
  "wildcard_pass cs ts p [] acc = acc"
| "wildcard_pass cs ts p (flt # fs) acc =
     (if \<not> is_wildcard_filter flt then wildcard_pass cs ts p fs acc
      else if \<not> topic_matches_filter (pub_topic p) flt then wildcard_pass cs ts p fs acc
      else wildcard_pass cs ts p fs
             (wildcard_subs cs p (case ts flt of None \<Rightarrow> [] | Some subs \<Rightarrow> subs) acc))"

definition handle_publish ::
    "string list \<Rightarrow> publish_packet \<Rightarrow> shard \<times> queue_store \<Rightarrow> shard \<times> queue_store" where
  "handle_publish ks p s =
     (case s of (sh, st) \<Rightarrow>
       let sh' = sh\<lparr>retained := update_retained p (retained sh)\<rparr>;
           exact = (case topics sh (pub_topic p) of
                      None \<Rightarrow> (st, [])
                    | Some subs \<Rightarrow> exact_pass (clients sh) p subs (st, []));
           (st', notified) = wildcard_pass (clients sh) (topics sh) p ks exact
       in (sh', st'))"

definition handle_disconnect :: "connection_id \<Rightarrow> shard \<times> queue_store \<Rightarrow> shard \<times> queue_store" where
  "handle_disconnect cid s =
     (case s of (sh, st) \<Rightarrow>
       (sh\<lparr>clients := (clients sh)(cid := None),
          topics := remove_all_subscriptions cid (topics sh)\<rparr>, st))"

fun handle_message :: "string list \<Rightarrow> broker_message \<Rightarrow> shard \<times> queue_store \<Rightarrow> shard \<times> queue_store" where
  "handle_message ks (Register cid client h) s = handle_register cid client h s"
| "handle_message ks (SubscribeTo cid topic) s = handle_subscribe ks cid topic s"
| "handle_message ks (UnsubscribeFrom cid topic) s = handle_unsubscribe cid topic s"
| "handle_message ks (PublishFrom from p) s = handle_publish ks p s"
| "handle_message ks (DisconnectClient cid) s = handle_disconnect cid s"

text \<open>The map a handler iterates over, and hence the orders it may use.\<close>

fun handler_order :: "shard \<Rightarrow> broker_message \<Rightarrow> string list \<Rightarrow> bool" where
  "handler_order sh (SubscribeTo cid topic) ks = iter_order (retained sh) ks"
| "handler_order sh (PublishFrom from p) ks = iter_order (topics sh) ks"
| "handler_order sh _ ks = (ks = [])"

text \<open>The loop of \<open>run_broker\<close>: the messages in the order received, any iteration order for each.\<close>

inductive run_broker :: "broker_message list \<Rightarrow> shard \<times> queue_store \<Rightarrow> shard \<times> queue_store \<Rightarrow> bool" where
  run_nil: "run_broker [] s s"
| run_msg: "handler_order (fst s) m ks \<Longrightarrow> run_broker ms (handle_message ks m s) s' \<Longrightarrow>
    run_broker (m # ms) s s'"

inductive_cases run_nilE [elim!]: "run_broker [] s s'"
inductive_cases run_msgE: "run_broker (m # ms) s s'"
inductive_simps run_broker_Nil [simp]: "run_broker [] s s'"

section \<open>Contract of the subscription registry\<close>

text \<open>
  Who is subscribed to what after each operation. Delivery asks one question of it: which
  connections hold a filter that matches a topic.
\<close>

locale subscription_registry =
  fixes add :: "'i \<Rightarrow> string \<Rightarrow> 'r \<Rightarrow> 'r"
    and remove :: "'i \<Rightarrow> string \<Rightarrow> 'r \<Rightarrow> 'r"
    and remove_all :: "'i \<Rightarrow> 'r \<Rightarrow> 'r"
    and subscribers :: "'r \<Rightarrow> string \<Rightarrow> 'i set"
  assumes subscribers_add: "subscribers (add i f r) g = (if g = f then insert i (subscribers r g) else subscribers r g)"
    and subscribers_remove: "subscribers (remove i f r) g = (if g = f then subscribers r g - {i} else subscribers r g)"
    and subscribers_remove_all: "subscribers (remove_all i r) g = subscribers r g - {i}"
begin

definition matched :: "'r \<Rightarrow> string \<Rightarrow> 'i set" where
  "matched r t = {i. \<exists>f. i \<in> subscribers r f \<and> topic_matches_filter t f}"

lemma matched_add:
  "matched (add i f r) t = (if topic_matches_filter t f then insert i (matched r t) else matched r t)"
  by (auto simp: matched_def subscribers_add split: if_splits)

lemma matched_remove_all: "matched (remove_all i r) t = matched r t - {i}"
  by (auto simp: matched_def subscribers_remove_all)

lemma matched_remove:
  "j \<in> matched (remove i f r) t \<longleftrightarrow>
     (\<exists>g. j \<in> subscribers r g \<and> topic_matches_filter t g \<and> \<not> (j = i \<and> g = f))"
proof -
  have "j \<in> subscribers (remove i f r) g \<longleftrightarrow> j \<in> subscribers r g \<and> \<not> (j = i \<and> g = f)" for g
    by (simp add: subscribers_remove)
  then show ?thesis unfolding matched_def by blast
qed

end

definition subs_of :: "(string \<rightharpoonup> connection_id list) \<Rightarrow> string \<Rightarrow> connection_id set" where
  "subs_of ts f = (case ts f of None \<Rightarrow> {} | Some subs \<Rightarrow> set subs)"

interpretation reg: subscription_registry add_subscription remove_subscription
  remove_all_subscriptions subs_of
  by unfold_locales
    (auto simp: subs_of_def add_subscription_def remove_subscription_def remove_all_subscriptions_def
      split: option.splits)

section \<open>Invariant of a shard\<close>

text \<open>
  No connection is listed twice under a filter, which the exact pass relies on; a retained message
  is stored under its own topic, is marked as retained and is not empty.
\<close>

definition subs_distinct :: "(string \<rightharpoonup> connection_id list) \<Rightarrow> bool" where
  "subs_distinct ts \<longleftrightarrow> (\<forall>f subs. ts f = Some subs \<longrightarrow> distinct subs)"

definition retained_ok :: "(string \<rightharpoonup> publish_packet) \<Rightarrow> bool" where
  "retained_ok r \<longleftrightarrow> (\<forall>t p. r t = Some p \<longrightarrow>
     pub_topic p = t \<and> pub_retain p \<and> pub_payload p \<noteq> [] \<and> \<not> is_wildcard_filter t)"

definition shard_inv :: "shard \<Rightarrow> bool" where
  "shard_inv sh \<longleftrightarrow> finite (dom (clients sh)) \<and> finite (dom (topics sh)) \<and> finite (dom (retained sh)) \<and>
     subs_distinct (topics sh) \<and> retained_ok (retained sh)"

text \<open>The publish messages a connection sends carry decoded packets, whose topic has no wildcards.\<close>

fun message_ok :: "broker_message \<Rightarrow> bool" where
  "message_ok (PublishFrom from p) \<longleftrightarrow> \<not> is_wildcard_filter (pub_topic p)"
| "message_ok _ \<longleftrightarrow> True"

lemma shard_inv_new: "shard_inv shard_new"
  by (simp add: shard_inv_def shard_new_def subs_distinct_def retained_ok_def)

lemma subs_distinct_add: "subs_distinct ts \<Longrightarrow> subs_distinct (add_subscription cid f ts)"
  by (cases "ts f") (auto simp: subs_distinct_def add_subscription_def)

lemma subs_distinct_remove: "subs_distinct ts \<Longrightarrow> subs_distinct (remove_subscription cid f ts)"
  by (cases "ts f") (auto simp: subs_distinct_def remove_subscription_def)

lemma subs_distinct_remove_all: "subs_distinct ts \<Longrightarrow> subs_distinct (remove_all_subscriptions cid ts)"
  by (auto simp: subs_distinct_def remove_all_subscriptions_def)

lemmas subs_distinct_ops = subs_distinct_add subs_distinct_remove subs_distinct_remove_all

lemma dom_remove_all_subscriptions [simp]: "dom (remove_all_subscriptions cid ts) = dom ts"
  by (auto simp: remove_all_subscriptions_def dom_def)

lemma finite_topics_ops:
  "finite (dom ts) \<Longrightarrow> finite (dom (add_subscription cid f ts))"
  "finite (dom ts) \<Longrightarrow> finite (dom (remove_subscription cid f ts))"
  "finite (dom ts) \<Longrightarrow> finite (dom (remove_all_subscriptions cid ts))"
  by (auto simp: add_subscription_def remove_subscription_def split: option.splits)

lemma retained_ok_update:
  "retained_ok r \<Longrightarrow> \<not> is_wildcard_filter (pub_topic p) \<Longrightarrow> retained_ok (update_retained p r)"
  by (auto simp: retained_ok_def update_retained_def split: if_splits)

lemma finite_update_retained: "finite (dom r) \<Longrightarrow> finite (dom (update_retained p r))"
  by (auto simp: update_retained_def)

text \<open>The registry after a message does not depend on the iteration order.\<close>

fun shard_after :: "broker_message \<Rightarrow> shard \<Rightarrow> shard" where
  "shard_after (Register cid client h) sh =
     sh\<lparr>clients := (clients sh)(cid \<mapsto> \<lparr>cs_client_id = client, cs_outbound = h\<rparr>)\<rparr>"
| "shard_after (SubscribeTo cid topic) sh = sh\<lparr>topics := add_subscription cid topic (topics sh)\<rparr>"
| "shard_after (UnsubscribeFrom cid topic) sh = sh\<lparr>topics := remove_subscription cid topic (topics sh)\<rparr>"
| "shard_after (PublishFrom from p) sh = sh\<lparr>retained := update_retained p (retained sh)\<rparr>"
| "shard_after (DisconnectClient cid) sh =
     sh\<lparr>clients := (clients sh)(cid := None), topics := remove_all_subscriptions cid (topics sh)\<rparr>"

lemma fst_handle_message: "fst (handle_message ks m s) = shard_after m (fst s)"
  by (cases m; cases s)
    (simp_all add: handle_register_def handle_subscribe_def handle_unsubscribe_def handle_publish_def
      handle_disconnect_def Let_def split_beta)

lemma shard_inv_after: "shard_inv sh \<Longrightarrow> message_ok m \<Longrightarrow> shard_inv (shard_after m sh)"
  by (cases m)
    (simp_all add: shard_inv_def subs_distinct_ops finite_topics_ops retained_ok_update finite_update_retained)

lemma shard_inv_run:
  "run_broker ms s s' \<Longrightarrow> shard_inv (fst s) \<Longrightarrow> \<forall>m \<in> set ms. message_ok m \<Longrightarrow> shard_inv (fst s')"
  by (induction rule: run_broker.induct) (auto simp: fst_handle_message shard_inv_after)

lemma fst_run_broker: "run_broker ms s s' \<Longrightarrow> fst s' = foldl (\<lambda>sh m. shard_after m sh) (fst s) ms"
  by (induction rule: run_broker.induct) (auto simp: fst_handle_message)

text \<open>The loop never blocks on a message: there is an order to iterate in.\<close>

lemma handler_order_exists: "shard_inv sh \<Longrightarrow> \<exists>ks. handler_order sh m ks"
  by (cases m) (auto simp: shard_inv_def intro: iter_order_exists)

lemma run_broker_total:
  "shard_inv (fst s) \<Longrightarrow> \<forall>m \<in> set ms. message_ok m \<Longrightarrow> \<exists>s'. run_broker ms s s'"
proof (induction ms arbitrary: s)
  case Nil
  show ?case by (auto intro: run_nil)
next
  case (Cons m ms)
  then obtain ks where "handler_order (fst s) m ks" using handler_order_exists by blast
  moreover have "shard_inv (fst (handle_message ks m s))"
    using Cons.prems by (simp add: fst_handle_message shard_inv_after)
  then have "\<exists>s'. run_broker ms (handle_message ks m s) s'"
    using Cons by simp
  ultimately show ?case by (auto intro: run_msg)
qed

section \<open>Who gets a published message\<close>

text \<open>The registered connections with a matching subscription.\<close>

definition recipients :: "shard \<Rightarrow> string \<Rightarrow> connection_id set" where
  "recipients sh t = reg.matched (topics sh) t \<inter> dom (clients sh)"

definition deliver_all ::
    "(connection_id \<rightharpoonup> client_state) \<Rightarrow> publish_packet \<Rightarrow> connection_id list \<Rightarrow> queue_store \<Rightarrow> queue_store" where
  "deliver_all cs p rs st =
     foldl (\<lambda>st sid. case cs sid of None \<Rightarrow> st
                       | Some client \<Rightarrow> push_event (Publish p) (cs_outbound client) st) st rs"

lemma deliver_all_append:
  "deliver_all cs p (rs @ rs') st = deliver_all cs p rs' (deliver_all cs p rs st)"
  by (simp add: deliver_all_def)

text \<open>
  What both passes keep: the store is the first one with every notified connection served once, in
  order; nobody is notified twice; everybody notified is registered.
\<close>

definition pass_inv ::
    "(connection_id \<rightharpoonup> client_state) \<Rightarrow> publish_packet \<Rightarrow> queue_store \<Rightarrow>
     queue_store \<times> connection_id list \<Rightarrow> bool" where
  "pass_inv cs p st0 acc \<longleftrightarrow> fst acc = deliver_all cs p (snd acc) st0 \<and> distinct (snd acc) \<and>
     set (snd acc) \<subseteq> dom cs"

lemma pass_inv_step:
  "pass_inv cs p st0 (st, notified) \<Longrightarrow> cs sid = Some client \<Longrightarrow> sid \<notin> set notified \<Longrightarrow>
   pass_inv cs p st0 (push_event (Publish p) (cs_outbound client) st, notified @ [sid])"
  by (auto simp: pass_inv_def deliver_all_append) (simp add: deliver_all_def)

lemma exact_pass_inv:
  "pass_inv cs p st0 acc \<Longrightarrow> distinct subs \<Longrightarrow> set subs \<inter> set (snd acc) = {} \<Longrightarrow>
   pass_inv cs p st0 (exact_pass cs p subs acc) \<and>
   set (snd (exact_pass cs p subs acc)) = set (snd acc) \<union> (set subs \<inter> dom cs)"
proof (induction cs p subs acc rule: exact_pass.induct)
  case (2 cs p sid subs st notified)
  then show ?case
    by (cases "cs sid") (auto simp: pass_inv_step)
qed simp

lemma wildcard_subs_inv:
  "pass_inv cs p st0 acc \<Longrightarrow>
   pass_inv cs p st0 (wildcard_subs cs p subs acc) \<and>
   set (snd (wildcard_subs cs p subs acc)) = set (snd acc) \<union> (set subs \<inter> dom cs)"
proof (induction cs p subs acc rule: wildcard_subs.induct)
  case (2 cs p sid subs st notified)
  show ?case
  proof (cases "sid \<in> set notified")
    case True
    with "2.prems" have "sid \<in> dom cs" by (auto simp: pass_inv_def)
    with True 2 show ?thesis by auto
  next
    case False
    then show ?thesis
    proof (cases "cs sid")
      case (Some client)
      note inv = pass_inv_step [OF "2.prems" Some False]
      have "set notified \<union> {sid} \<union> (set subs \<inter> dom cs) = set notified \<union> (set (sid # subs) \<inter> dom cs)"
        using Some by auto
      with "2.IH"(3) [OF False Some inv] False Some show ?thesis by simp
    next
      case None
      then have "set (sid # subs) \<inter> dom cs = set subs \<inter> dom cs" by auto
      with "2.IH"(2) [OF False None "2.prems"] False None show ?thesis by simp
    qed
  qed
qed simp

lemma wildcard_pass_inv:
  "pass_inv cs p st0 acc \<Longrightarrow>
   pass_inv cs p st0 (wildcard_pass cs ts p fs acc) \<and>
   set (snd (wildcard_pass cs ts p fs acc)) = set (snd acc) \<union>
     ((\<Union>f \<in> {f \<in> set fs. is_wildcard_filter f \<and> topic_matches_filter (pub_topic p) f}. subs_of ts f) \<inter> dom cs)"
proof (induction fs arbitrary: acc)
  case (Cons f fs)
  show ?case
  proof (cases "is_wildcard_filter f \<and> topic_matches_filter (pub_topic p) f")
    case True
    let ?subs = "case ts f of None \<Rightarrow> [] | Some subs \<Rightarrow> subs"
    from wildcard_subs_inv [OF Cons.prems, of ?subs]
    have w: "pass_inv cs p st0 (wildcard_subs cs p ?subs acc)"
      "set (snd (wildcard_subs cs p ?subs acc)) = set (snd acc) \<union> (subs_of ts f \<inter> dom cs)"
      by (auto simp: subs_of_def split: option.splits)
    from Cons.IH [OF w(1)] w(2) True show ?thesis by auto
  qed (use Cons in auto)
qed simp

text \<open>The two passes together serve exactly the recipients; \<open>notified\<close> is the final value of that variable.\<close>

definition notified :: "string list \<Rightarrow> publish_packet \<Rightarrow> shard \<times> queue_store \<Rightarrow> connection_id list" where
  "notified ks p s =
     (case s of (sh, st) \<Rightarrow>
       snd (wildcard_pass (clients sh) (topics sh) p ks
         (case topics sh (pub_topic p) of
            None \<Rightarrow> (st, [])
          | Some subs \<Rightarrow> exact_pass (clients sh) p subs (st, []))))"

lemma handle_publish_delivers:
  assumes "subs_distinct (topics sh)" and "iter_order (topics sh) ks"
    and "\<not> is_wildcard_filter (pub_topic p)"
  shows "distinct (notified ks p (sh, st)) \<and> set (notified ks p (sh, st)) = recipients sh (pub_topic p) \<and>
    handle_publish ks p (sh, st) =
      (sh\<lparr>retained := update_retained p (retained sh)\<rparr>, deliver_all (clients sh) p (notified ks p (sh, st)) st)"
proof -
  let ?cs = "clients sh" and ?ts = "topics sh" and ?t = "pub_topic p"
  let ?exact = "case ?ts ?t of None \<Rightarrow> (st, []) | Some subs \<Rightarrow> exact_pass ?cs p subs (st, [])"
  have start: "pass_inv ?cs p st (st, [])"
    by (simp add: pass_inv_def deliver_all_def)
  have exact: "pass_inv ?cs p st ?exact \<and> set (snd ?exact) = subs_of ?ts ?t \<inter> dom ?cs"
  proof (cases "?ts ?t")
    case None
    then show ?thesis using start by (simp add: subs_of_def)
  next
    case (Some subs)
    with assms(1) have "distinct subs" by (auto simp: subs_distinct_def)
    with Some show ?thesis using exact_pass_inv [OF start, of subs] by (simp add: subs_of_def)
  qed
  obtain st' rs where w: "wildcard_pass ?cs ?ts p ks ?exact = (st', rs)" by force
  from wildcard_pass_inv [OF conjunct1 [OF exact], of ?ts ks] w
  have inv: "st' = deliver_all ?cs p rs st" "distinct rs"
    and rs: "set rs = (subs_of ?ts ?t \<inter> dom ?cs) \<union>
      ((\<Union>f \<in> {f \<in> set ks. is_wildcard_filter f \<and> topic_matches_filter ?t f}. subs_of ?ts f) \<inter> dom ?cs)"
    using exact by (auto simp: pass_inv_def)
  have "set rs = recipients sh ?t"
  proof -
    have "reg.matched ?ts ?t = subs_of ?ts ?t \<union>
        (\<Union>f \<in> {f \<in> set ks. is_wildcard_filter f \<and> topic_matches_filter ?t f}. subs_of ?ts f)"
    proof -
      have "f = ?t \<or> (f \<in> set ks \<and> is_wildcard_filter f)"
        if "i \<in> subs_of ?ts f" and "topic_matches_filter ?t f" for i f
      proof -
        have "f \<in> set ks" using that(1) assms(2)
          by (auto simp: subs_of_def iter_order_def split: option.splits)
        then show ?thesis using topic_matches_exact [of f ?t] that(2) by blast
      qed
      then show ?thesis
        using topic_matches_refl [OF assms(3)] by (auto simp: reg.matched_def)
    qed
    with rs show ?thesis by (auto simp: recipients_def)
  qed
  moreover have "handle_publish ks p (sh, st) = (sh\<lparr>retained := update_retained p (retained sh)\<rparr>, st')"
    unfolding handle_publish_def Let_def prod.case w ..
  moreover have "notified ks p (sh, st) = rs" unfolding notified_def prod.case w by simp
  ultimately show ?thesis using inv by simp
qed

section \<open>What a publish does to each queue\<close>

text \<open>Different connections have different outbound queues: each handler makes its own.\<close>

definition handles_inj :: "(connection_id \<rightharpoonup> client_state) \<Rightarrow> bool" where
  "handles_inj cs \<longleftrightarrow> (\<forall>i j c d. cs i = Some c \<and> cs j = Some d \<and> cs_outbound c = cs_outbound d \<longrightarrow> i = j)"

definition handles_of :: "(connection_id \<rightharpoonup> client_state) \<Rightarrow> connection_id set \<Rightarrow> handle set" where
  "handles_of cs is = {h. \<exists>i \<in> is. \<exists>c. cs i = Some c \<and> cs_outbound c = h}"

lemma deliver_all_queue:
  "handles_inj cs \<Longrightarrow> distinct rs \<Longrightarrow>
   deliver_all cs p rs st h =
     (if h \<in> handles_of cs (set rs) then pushed (st h) (Packet (Publish p)) else st h)"
proof (induction rs arbitrary: st)
  case Nil
  then show ?case by (simp add: deliver_all_def handles_of_def)
next
  case (Cons sid rs)
  let ?st = "case cs sid of None \<Rightarrow> st | Some c \<Rightarrow> push_event (Publish p) (cs_outbound c) st"
  have step: "deliver_all cs p (sid # rs) st h = deliver_all cs p rs ?st h"
    by (simp add: deliver_all_def)
  also have "\<dots> = (if h \<in> handles_of cs (set rs) then pushed (?st h) (Packet (Publish p)) else ?st h)"
    using Cons by simp
  also have "\<dots> = (if h \<in> handles_of cs (set (sid # rs)) then pushed (st h) (Packet (Publish p)) else st h)"
  proof (cases "cs sid")
    case None
    then show ?thesis by (auto simp: handles_of_def)
  next
    case (Some c)
    have "cs_outbound c \<notin> handles_of cs (set rs)"
      using Cons.prems Some unfolding handles_of_def handles_inj_def by auto
    with Some show ?thesis by (auto simp: handles_of_def push_event_def)
  qed
  finally show ?case .
qed

text \<open>
  Every matching registered connection gets the packet exactly once, whatever the iteration order,
  and no other queue changes.
\<close>

lemma handle_publish_queues:
  assumes "shard_inv sh" and "handles_inj (clients sh)" and "iter_order (topics sh) ks"
    and "\<not> is_wildcard_filter (pub_topic p)"
  shows "snd (handle_publish ks p (sh, st)) h =
    (if h \<in> handles_of (clients sh) (recipients sh (pub_topic p))
     then pushed (st h) (Packet (Publish p)) else st h)"
proof -
  from assms(1) have "subs_distinct (topics sh)" by (simp add: shard_inv_def)
  from handle_publish_delivers [OF this assms(3,4), of st]
  have rs: "distinct (notified ks p (sh, st))" "set (notified ks p (sh, st)) = recipients sh (pub_topic p)"
    and st: "snd (handle_publish ks p (sh, st)) = deliver_all (clients sh) p (notified ks p (sh, st)) st"
    by auto
  show ?thesis
    unfolding st deliver_all_queue [OF assms(2) rs(1)] rs(2) ..
qed

section \<open>What a subscription replays\<close>

lemma foldl_push_events:
  "foldl (\<lambda>st p. push_event (Publish p) h st) st ps h' =
     (if h' = h then foldl pushed (st h) (map (\<lambda>p. Packet (Publish p)) ps) else st h')"
  by (induction ps arbitrary: st) (simp_all add: push_event_def)

lemma replay_exact:
  "\<not> is_wildcard_filter f \<Longrightarrow> retained_ok r \<Longrightarrow> replay ks f r = (case r f of None \<Rightarrow> [] | Some p \<Rightarrow> [p])"
  by (auto simp: replay_def retained_ok_def split: option.splits)

lemma retained_set_retain [simp]: "retained_ok r \<Longrightarrow> r t = Some p \<Longrightarrow> p\<lparr>pub_retain := True\<rparr> = p"
proof -
  assume "retained_ok r" and "r t = Some p"
  then have "pub_retain p" by (simp add: retained_ok_def)
  then show ?thesis by (cases p) simp
qed

lemma replay_wildcard:
  assumes "is_wildcard_filter f" and "retained_ok r" and "set ks \<subseteq> dom r"
  shows "replay ks f r = map (\<lambda>t. the (r t)) (filter (\<lambda>t. topic_matches_filter t f) ks)"
  using assms(3)
proof (induction ks)
  case Nil
  then show ?case by (simp add: replay_def assms(1) values_in_def)
next
  case (Cons t ks)
  then obtain p where p: "r t = Some p" by auto
  with assms(2) have "pub_topic p = t" by (auto simp: retained_ok_def)
  with Cons p assms(1,2) show ?case by (auto simp: replay_def values_in_Cons)
qed

text \<open>Each retained message whose topic the filter matches is replayed once, and nothing else is.\<close>

lemma replay_set:
  assumes "retained_ok r" and "iter_order r ks"
  shows "set (replay ks f r) = {p. \<exists>t. r t = Some p \<and> topic_matches_filter t f}"
proof (cases "is_wildcard_filter f")
  case True
  from assms(2) have ks: "set ks = dom r" by (simp add: iter_order_def)
  then have "replay ks f r = map (\<lambda>t. the (r t)) (filter (\<lambda>t. topic_matches_filter t f) ks)"
    by (intro replay_wildcard) (use True assms in auto)
  then show ?thesis using ks by force
next
  case False
  with assms(1) show ?thesis
    by (simp add: replay_exact topic_matches_exact split: option.splits) auto
qed

lemma replay_topics_distinct:
  assumes "retained_ok r" and "iter_order r ks"
  shows "distinct (map pub_topic (replay ks f r))"
proof (cases "is_wildcard_filter f")
  case True
  from assms(2) have ks: "set ks = dom r" "distinct ks" by (simp_all add: iter_order_def)
  then have "replay ks f r = map (\<lambda>t. the (r t)) (filter (\<lambda>t. topic_matches_filter t f) ks)"
    by (intro replay_wildcard) (use True assms in auto)
  moreover have "map pub_topic (map (\<lambda>t. the (r t)) ts) = ts" if "set ts \<subseteq> dom r" for ts
    using that assms(1) by (induction ts) (auto simp: retained_ok_def)
  ultimately show ?thesis using ks by (auto simp del: map_map)
next
  case False
  then show ?thesis using assms(1) by (simp add: replay_exact split: option.splits)
qed

text \<open>The queues after a subscription: the new subscriber's queue gets the replay, no other changes.\<close>

lemma handle_subscribe_queues:
  "snd (handle_subscribe ks cid f (sh, st)) h =
     (case clients sh cid of
        Some c \<Rightarrow> (if h = cs_outbound c
                   then foldl pushed (st h) (map (\<lambda>p. Packet (Publish p)) (replay ks f (retained sh)))
                   else st h)
      | None \<Rightarrow> st h)"
  by (auto simp: handle_subscribe_def Let_def foldl_push_events split: option.splits)

section \<open>Properties\<close>

text \<open>C7: Fan-out on one shard: whatever order the hash map is iterated in, a published packet is pushed
  exactly once to the queue of every registered connection that holds a matching filter, exact or
  wildcard, however many of its filters match, and no other queue changes.\<close>

theorem publish_reaches_each_recipient_once:
  assumes "shard_inv sh" and "handles_inj (clients sh)" and "iter_order (topics sh) ks"
    and "\<not> is_wildcard_filter (pub_topic p)"
  shows "snd (handle_publish ks p (sh, st)) h =
    (if h \<in> handles_of (clients sh) (recipients sh (pub_topic p))
     then pushed (st h) (Packet (Publish p)) else st h)"
  using assms by (rule handle_publish_queues)

theorem publish_reaches_each_recipient_once_witness:
  "\<exists>sh ks p. shard_inv sh \<and> iter_order (topics sh) ks \<and> pub_topic p = ''t'' \<and>
     1 \<in> subs_of (topics sh) ''t'' \<and> 1 \<in> subs_of (topics sh) ''#'' \<and>
     items (snd (handle_publish ks p (sh, \<lambda>_. queue_new 4)) 9) = [Packet (Publish p)]"
proof -
  define sh where "sh = \<lparr>clients = [1 \<mapsto> \<lparr>cs_client_id = ''c'', cs_outbound = 9\<rparr>],
    topics = [''t'' \<mapsto> [1], ''#'' \<mapsto> [1]], retained = Map.empty\<rparr>"
  define p where "p = \<lparr>pub_topic = ''t'', pub_payload = [], pub_qos = 0, pub_retain = False, pub_packet_id = None\<rparr>"
  have inv: "shard_inv sh"
    by (auto simp: shard_inv_def sh_def subs_distinct_def retained_ok_def split: if_splits)
  have inj: "handles_inj (clients sh)" by (auto simp: handles_inj_def sh_def split: if_splits)
  have ord: "iter_order (topics sh) [''#'', ''t'']" by (auto simp: iter_order_def sh_def)
  have w: "\<not> is_wildcard_filter (pub_topic p)" by (simp add: p_def is_wildcard_filter_def)
  have s: "1 \<in> subs_of (topics sh) ''t''" "1 \<in> subs_of (topics sh) ''#''" by (simp_all add: sh_def subs_of_def)
  have "1 \<in> recipients sh (pub_topic p)"
    using s(2) topic_matches_hash by (auto simp: recipients_def reg.matched_def sh_def)
  then have "9 \<in> handles_of (clients sh) (recipients sh (pub_topic p))"
    by (auto simp: handles_of_def sh_def)
  then have "items (snd (handle_publish [''#'', ''t''] p (sh, \<lambda>_. queue_new 4)) 9) = [Packet (Publish p)]"
    using publish_reaches_each_recipient_once [OF inv inj ord w, of "\<lambda>_. queue_new 4" 9]
    by (simp add: items_pushed queue_new_def)
  with inv ord s show ?thesis by (intro exI [of _ sh] exI [of _ "[''#'', ''t'']"] exI [of _ p]) (simp add: p_def)
qed

text \<open>C22: A shard never gets stuck on the messages of connections, and keeps its invariant whatever they
  are: no connection twice under a filter, retained messages stored under their own topic, marked as
  retained and not empty.\<close>

theorem shard_invariant_holds:
  assumes "\<forall>m \<in> set ms. message_ok m"
  shows "(\<exists>s. run_broker ms (shard_new, st) s) \<and> (\<forall>s. run_broker ms (shard_new, st) s \<longrightarrow> shard_inv (fst s))"
  using assms shard_inv_run [of ms "(shard_new, st)"] run_broker_total [of "(shard_new, st)" ms] shard_inv_new
  by auto

theorem shard_invariant_holds_witness:
  "\<exists>s. run_broker [Register 1 ''c'' 0, SubscribeTo 1 ''a/#'', DisconnectClient 1] (shard_new, \<lambda>_. queue_new 1) s \<and>
     shard_inv (fst s)"
  using shard_invariant_holds
    [of "[Register 1 ''c'' 0, SubscribeTo 1 ''a/#'', DisconnectClient 1]" "\<lambda>_. queue_new 1"]
  by auto

end
