(* ===== verification/Registry_Spec.thy ===== *)
theory Registry_Spec
  imports Broker_Shard
begin

text \<open>
  The abstract broker: who is connected, who holds which filter, and the retained message of each
  topic. A shard refines it (\<open>abs_shard\<close> commutes with every message), and its fan-out serves the
  abstract recipients. The view of one shard, the part of the abstract broker a shard owns, is what
  \<open>Sharding\<close> splits the broker by.
\<close>

section \<open>The abstract broker\<close>

record registry =
  reg_clients :: "connection_id \<rightharpoonup> client_state"
  reg_subs :: "(connection_id \<times> string) set"
  reg_retained :: "string \<rightharpoonup> publish_packet"

definition registry_init :: registry where
  "registry_init = \<lparr>reg_clients = Map.empty, reg_subs = {}, reg_retained = Map.empty\<rparr>"

fun spec_step :: "broker_message \<Rightarrow> registry \<Rightarrow> registry" where
  "spec_step (Register cid client h) R =
     R\<lparr>reg_clients := (reg_clients R)(cid \<mapsto> \<lparr>cs_client_id = client, cs_outbound = h\<rparr>)\<rparr>"
| "spec_step (SubscribeTo cid f) R = R\<lparr>reg_subs := insert (cid, f) (reg_subs R)\<rparr>"
| "spec_step (UnsubscribeFrom cid f) R = R\<lparr>reg_subs := reg_subs R - {(cid, f)}\<rparr>"
| "spec_step (PublishFrom from p) R =
     R\<lparr>reg_retained :=
        (if \<not> pub_retain p then reg_retained R
         else if pub_payload p = [] then (reg_retained R)(pub_topic p := None)
         else (reg_retained R)(pub_topic p \<mapsto> p))\<rparr>"
| "spec_step (DisconnectClient cid) R =
     R\<lparr>reg_clients := (reg_clients R)(cid := None), reg_subs := {s \<in> reg_subs R. fst s \<noteq> cid}\<rparr>"

definition spec_run :: "broker_message list \<Rightarrow> registry \<Rightarrow> registry" where
  "spec_run ms R = foldl (\<lambda>R m. spec_step m R) R ms"

definition spec_recipients :: "registry \<Rightarrow> string \<Rightarrow> connection_id set" where
  "spec_recipients R t =
     {i \<in> dom (reg_clients R). \<exists>f. (i, f) \<in> reg_subs R \<and> topic_matches_filter t f}"

definition spec_replay :: "registry \<Rightarrow> string \<Rightarrow> publish_packet set" where
  "spec_replay R f = {p. \<exists>t. reg_retained R t = Some p \<and> topic_matches_filter t f}"

lemma spec_run_Nil [simp]: "spec_run [] R = R"
  by (simp add: spec_run_def)

lemma spec_run_Cons [simp]: "spec_run (m # ms) R = spec_run ms (spec_step m R)"
  by (simp add: spec_run_def)

lemma spec_run_append: "spec_run (ms @ ms') R = spec_run ms' (spec_run ms R)"
  by (simp add: spec_run_def)

section \<open>A shard refines it\<close>

definition abs_shard :: "shard \<Rightarrow> registry" where
  "abs_shard sh =
     \<lparr>reg_clients = clients sh, reg_subs = {(i, f). i \<in> subs_of (topics sh) f}, reg_retained = retained sh\<rparr>"

lemma abs_shard_new [simp]: "abs_shard shard_new = registry_init"
  by (simp add: abs_shard_def shard_new_def registry_init_def subs_of_def)

lemma abs_shard_after: "abs_shard (shard_after m sh) = spec_step m (abs_shard sh)"
  by (cases m)
    (auto simp: abs_shard_def update_retained_def reg.subscribers_add reg.subscribers_remove
      reg.subscribers_remove_all split: if_splits)

lemma abs_shard_run: "run_broker ms s s' \<Longrightarrow> abs_shard (fst s') = spec_run ms (abs_shard (fst s))"
  by (induction rule: run_broker.induct) (simp_all add: fst_handle_message abs_shard_after)

lemma recipients_abs: "recipients sh t = spec_recipients (abs_shard sh) t"
  by (auto simp: recipients_def spec_recipients_def abs_shard_def reg.matched_def)

lemma replay_abs:
  "shard_inv sh \<Longrightarrow> iter_order (retained sh) ks \<Longrightarrow>
   set (replay ks f (retained sh)) = spec_replay (abs_shard sh) f"
  by (simp add: shard_inv_def replay_set spec_replay_def abs_shard_def)

section \<open>The part of the broker one shard owns\<close>

text \<open>
  \<open>own\<close> says which shard owns a topic. Wildcard filters and clients are everywhere, exact filters
  and retained messages live with the owner of their topic.
\<close>

definition view :: "(string \<Rightarrow> nat) \<Rightarrow> nat \<Rightarrow> registry \<Rightarrow> registry" where
  "view own i R =
     \<lparr>reg_clients = reg_clients R,
      reg_subs = {s \<in> reg_subs R. is_wildcard_filter (snd s) \<or> own (snd s) = i},
      reg_retained = (\<lambda>t. if own t = i then reg_retained R t else None)\<rparr>"

fun concerns :: "(string \<Rightarrow> nat) \<Rightarrow> nat \<Rightarrow> broker_message \<Rightarrow> bool" where
  "concerns own i (SubscribeTo cid f) \<longleftrightarrow> is_wildcard_filter f \<or> own f = i"
| "concerns own i (UnsubscribeFrom cid f) \<longleftrightarrow> is_wildcard_filter f \<or> own f = i"
| "concerns own i (PublishFrom from p) \<longleftrightarrow> own (pub_topic p) = i"
| "concerns own i _ \<longleftrightarrow> True"

lemma view_init [simp]: "view own i registry_init = registry_init"
  by (auto simp: view_def registry_init_def)

lemma view_step:
  "view own i (spec_step m R) = (if concerns own i m then spec_step m (view own i R) else view own i R)"
  by (cases m) (auto simp: view_def fun_eq_iff)

lemma view_run: "spec_run (filter (concerns own i) ms) (view own i R) = view own i (spec_run ms R)"
proof (induction ms arbitrary: R)
  case (Cons m ms)
  from Cons.IH [of "spec_step m R"] show ?case
    by (simp add: view_step split: if_splits)
qed simp

text \<open>The owner of a topic serves all its recipients; each topic has one owner.\<close>

lemma spec_recipients_view:
  assumes "own t = i"
  shows "spec_recipients (view own i R) t = spec_recipients R t"
proof -
  have "is_wildcard_filter f \<or> own f = i" if "topic_matches_filter t f" for f
    using that assms topic_matches_exact [of f t] by auto
  then show ?thesis by (auto simp: spec_recipients_def view_def)
qed

text \<open>A wildcard subscription is replayed by all shards together, each message by its owner.\<close>

lemma spec_replay_views: "own ` dom (reg_retained R) \<subseteq> S \<Longrightarrow>
    spec_replay R f = (\<Union>i \<in> S. spec_replay (view own i R) f)"
  by (force simp: spec_replay_def view_def split: if_splits)

lemma spec_replay_exact:
  "\<not> is_wildcard_filter f \<Longrightarrow> own f = i \<Longrightarrow> spec_replay (view own i R) f = spec_replay R f"
  by (auto simp: spec_replay_def view_def topic_matches_exact)

section \<open>Properties\<close>



end
