(* ===== verification/Sharding.thy ===== *)
theory Sharding
  imports Registry_Spec
begin

text \<open>
  The sharded broker (\<open>shard_for_topic\<close>, \<open>ShardedBroker\<close> and \<open>spawn_sharded_broker\<close> of
  \<open>src/broker.rs\<close>): which shard owns a topic, how a message is routed, and that the shards together
  are one abstract broker. The hash of a topic is a parameter: the code leaves its value to the
  standard library and uses only that it is a function of the topic. The locale \<open>message_sink\<close> is
  the contract a connection uses a broker by (trait \<open>BrokerSend\<close>); a plain channel and the sharded
  broker both provide it.
\<close>

section \<open>Channels\<close>

text \<open>
  The sending end of an \<open>mpsc::channel\<close>: the messages sent so far, in order, and whether the
  receiver is still there. Sending fails exactly when it is not.
\<close>

record channel =
  inbox :: "broker_message list"
  chan_open :: bool

definition channel_new :: channel where
  "channel_new = \<lparr>inbox = [], chan_open = True\<rparr>"

definition chan_send :: "broker_message \<Rightarrow> channel \<Rightarrow> (unit, unit) outcome \<times> channel" where
  "chan_send m ch = (if chan_open ch then (Ok (), ch\<lparr>inbox := inbox ch @ [m]\<rparr>) else (Err (), ch))"

section \<open>Routing\<close>

definition shard_for_topic :: "(string \<Rightarrow> u64) \<Rightarrow> string \<Rightarrow> nat \<Rightarrow> nat" where
  "shard_for_topic hash topic n = (if n = 0 then 0 else unat (hash topic) mod n)"

datatype routing = SingleShard nat | Broadcast

fun route :: "(string \<Rightarrow> u64) \<Rightarrow> nat \<Rightarrow> broker_message \<Rightarrow> routing" where
  "route hash n (SubscribeTo cid topic) =
     (if is_wildcard_filter topic then Broadcast else SingleShard (shard_for_topic hash topic n))"
| "route hash n (UnsubscribeFrom cid topic) =
     (if is_wildcard_filter topic then Broadcast else SingleShard (shard_for_topic hash topic n))"
| "route hash n (PublishFrom from p) = SingleShard (shard_for_topic hash (pub_topic p) n)"
| "route hash n (Register cid client h) = Broadcast"
| "route hash n (DisconnectClient cid) = Broadcast"

text \<open>The broadcast loop: every shard gets its copy; the result is whether any send succeeded.\<close>

fun broadcast :: "broker_message \<Rightarrow> channel list \<Rightarrow> bool \<Rightarrow> bool \<times> channel list" where
  "broadcast m [] any_ok = (any_ok, [])"
| "broadcast m (tx # txs) any_ok =
     (case chan_send m tx of (r, tx') \<Rightarrow>
        (case broadcast m txs (any_ok \<or> r = Ok ()) of (ok', txs') \<Rightarrow> (ok', tx' # txs')))"

text \<open>A publish never takes the broadcast branch, whose arm for it is \<open>unreachable!()\<close>.\<close>

definition sharded_send ::
    "(string \<Rightarrow> u64) \<Rightarrow> broker_message \<Rightarrow> channel list \<Rightarrow> (unit, unit) outcome \<times> channel list" where
  "sharded_send hash m txs =
     (case route hash (length txs) m of
        SingleShard i \<Rightarrow>
          (if i < length txs
           then (case chan_send m (txs ! i) of (r, tx) \<Rightarrow> (r, txs[i := tx]))
           else (Panic, txs))
      | Broadcast \<Rightarrow>
          (case m of
             PublishFrom from p \<Rightarrow> (Panic, txs)
           | _ \<Rightarrow> (case broadcast m txs False of (any_ok, txs') \<Rightarrow>
                     (if any_ok then Ok () else Err (), txs'))))"

definition spawn_sharded_broker :: "nat \<Rightarrow> (unit, channel list) outcome" where
  "spawn_sharded_broker n = (if n \<ge> 1 then Ok (replicate n channel_new) else Panic)"

text \<open>The messages a shard receives concern the topics it owns.\<close>

lemma shard_for_topic_less: "0 < n \<Longrightarrow> shard_for_topic hash topic n < n"
  by (simp add: shard_for_topic_def)

lemma broadcast_map:
  "broadcast m txs any_ok = (any_ok \<or> list_ex chan_open txs, map (\<lambda>tx. snd (chan_send m tx)) txs)"
  by (induction txs arbitrary: any_ok) (auto simp: chan_send_def)

lemma sharded_send_channels:
  assumes "txs \<noteq> []"
  shows "snd (sharded_send hash m txs) =
    map (\<lambda>i. if concerns (\<lambda>t. shard_for_topic hash t (length txs)) i m
              then snd (chan_send m (txs ! i)) else txs ! i) [0..<length txs]"
proof (cases "route hash (length txs) m")
  case (SingleShard i)
  then have i: "i < length txs" using assms
    by (cases m) (auto simp: shard_for_topic_less split: if_splits)
  have c: "concerns (\<lambda>t. shard_for_topic hash t (length txs)) j m \<longleftrightarrow> j = i" for j
    using SingleShard by (cases m) (auto split: if_splits)
  show ?thesis
    using SingleShard i by (auto simp: sharded_send_def c nth_list_update intro!: nth_equalityI split: prod.splits)
next
  case Broadcast
  then have "concerns (\<lambda>t. shard_for_topic hash t (length txs)) j m" for j
    by (cases m) (auto split: if_splits)
  moreover have "snd (sharded_send hash m txs) = map (\<lambda>tx. snd (chan_send m tx)) txs"
    using Broadcast by (cases m) (auto simp: sharded_send_def broadcast_map split: if_splits)
  ultimately show ?thesis by (auto intro: nth_equalityI)
qed

lemma length_sharded_send [simp]: "length (snd (sharded_send hash m txs)) = length txs"
  by (cases m) (auto simp: sharded_send_def broadcast_map split: routing.splits prod.splits)

lemma sharded_send_ok:
  assumes "txs \<noteq> []" and "\<forall>tx \<in> set txs. chan_open tx"
  shows "fst (sharded_send hash m txs) = Ok ()"
proof -
  have "list_ex chan_open txs" using assms by (cases txs) auto
  moreover have "shard_for_topic hash t (length txs) < length txs" for t
    using assms(1) by (simp add: shard_for_topic_less)
  ultimately show ?thesis
    using assms(2) by (cases m) (auto simp: sharded_send_def broadcast_map chan_send_def split: prod.splits)
qed

text \<open>With shards to send to, no send panics, whatever the state of the channels.\<close>

lemma sharded_send_no_panic: "txs \<noteq> [] \<Longrightarrow> fst (sharded_send hash m txs) \<noteq> Panic"
  using shard_for_topic_less [of "length txs" hash]
  by (cases m) (auto simp: sharded_send_def broadcast_map chan_send_def split: prod.splits)

section \<open>The contract of a broker handle\<close>

text \<open>
  A sink has ports; each message a client sends arrives, in order, at the ports it reaches, as long
  as the sink is usable.
\<close>

locale message_sink =
  fixes send :: "'m \<Rightarrow> 's \<Rightarrow> (unit, unit) outcome \<times> 's"
    and arrived :: "'s \<Rightarrow> 'p \<Rightarrow> 'm list"
    and reaches :: "'p \<Rightarrow> 'm \<Rightarrow> bool"
    and usable :: "'s \<Rightarrow> bool"
  assumes send_ok: "usable s \<Longrightarrow> fst (send m s) = Ok ()"
    and send_usable: "usable s \<Longrightarrow> usable (snd (send m s))"
    and send_arrived: "usable s \<Longrightarrow> arrived (snd (send m s)) p = arrived s p @ (if reaches p m then [m] else [])"
begin

definition send_all :: "'m list \<Rightarrow> 's \<Rightarrow> 's" where
  "send_all ms s = foldl (\<lambda>s m. snd (send m s)) s ms"

lemma send_all_simps [simp]:
  "send_all [] s = s" "send_all (m # ms) s = send_all ms (snd (send m s))"
  "send_all (ms @ ms') s = send_all ms' (send_all ms s)"
  by (simp_all add: send_all_def)

lemma usable_send_all: "usable s \<Longrightarrow> usable (send_all ms s)"
  by (induction ms arbitrary: s) (auto simp: send_usable)

lemma arrived_send_all: "usable s \<Longrightarrow> arrived (send_all ms s) p = arrived s p @ filter (reaches p) ms"
  by (induction ms arbitrary: s) (auto simp: send_arrived send_usable)

end

interpretation chan_sink: message_sink chan_send "\<lambda>ch (_ :: unit). inbox ch" "\<lambda>_ _. True" chan_open
  by unfold_locales (auto simp: chan_send_def)

definition owner :: "(string \<Rightarrow> u64) \<Rightarrow> nat \<Rightarrow> string \<Rightarrow> nat" where
  "owner hash n t = shard_for_topic hash t n"

definition shard_inbox :: "channel list \<Rightarrow> nat \<Rightarrow> broker_message list" where
  "shard_inbox txs i = (if i < length txs then inbox (txs ! i) else [])"

definition shards_up :: "nat \<Rightarrow> channel list \<Rightarrow> bool" where
  "shards_up n txs \<longleftrightarrow> 0 < n \<and> length txs = n \<and> (\<forall>tx \<in> set txs. chan_open tx)"

interpretation shard_sink: message_sink "sharded_send hash" shard_inbox
  "\<lambda>i m. i < n \<and> concerns (owner hash n) i m" "shards_up n" for hash n
proof (unfold_locales, goal_cases)
  case (1 s m)
  then show ?case by (auto simp: shards_up_def intro!: sharded_send_ok)
next
  case (2 s m)
  then have "s \<noteq> []" by (auto simp: shards_up_def)
  from sharded_send_channels [OF this, of hash m] 2 show ?case
    by (auto simp: shards_up_def chan_send_def)
next
  case (3 s m i)
  then have "s \<noteq> []" and n: "length s = n" by (auto simp: shards_up_def)
  from sharded_send_channels [OF this(1), of hash m] 3 n show ?case
    by (auto simp: shards_up_def shard_inbox_def chan_send_def owner_def [abs_def])
qed

lemma shards_up_spawn: "spawn_sharded_broker n = Ok txs \<Longrightarrow> shards_up n txs \<and> (\<forall>i. shard_inbox txs i = [])"
  by (auto simp: spawn_sharded_broker_def shards_up_def shard_inbox_def channel_new_def split: if_splits)

section \<open>Properties\<close>

text \<open>C24: Sending to a sharded broker that has shards never panics, succeeds while the shards run, and
  appends the message to the channels of exactly the shards it concerns: the owner of its topic, or all
  for registrations, disconnects and wildcard filters.\<close>

theorem sharded_send_routes_to_concerned_shards:
  assumes "txs \<noteq> []"
  shows "fst (sharded_send hash m txs) \<noteq> Panic \<and>
    ((\<forall>tx \<in> set txs. chan_open tx) \<longrightarrow> fst (sharded_send hash m txs) = Ok ()) \<and>
    snd (sharded_send hash m txs) =
      map (\<lambda>i. if concerns (owner hash (length txs)) i m then snd (chan_send m (txs ! i)) else txs ! i)
        [0..<length txs]"
  using sharded_send_no_panic [OF assms] sharded_send_ok [OF assms] sharded_send_channels [OF assms, of hash m]
  by (simp add: owner_def [abs_def])

theorem sharded_send_routes_to_concerned_shards_witness:
  "snd (sharded_send (\<lambda>_. 1) (SubscribeTo 1 ''t'') [channel_new, channel_new]) =
     [channel_new, channel_new\<lparr>inbox := [SubscribeTo 1 ''t'']\<rparr>]"
  using sharded_send_routes_to_concerned_shards [of "[channel_new, channel_new]" "\<lambda>_. 1" "SubscribeTo 1 ''t''"]
  by (simp add: owner_def shard_for_topic_def chan_send_def channel_new_def is_wildcard_filter_def)

end
