(* ===== verification/Cluster.thy ===== *)
theory Cluster
  imports Sharding
begin

text \<open>
  The shards at work: any number of connections send, every shard takes the messages of its own
  channel one by one, in any interleaving, and queues change under the shards' feet as connections
  push acknowledgements and writers pop. The invariant says that each shard is where the abstract
  broker of \<open>Registry_Spec\<close> was after some prefix of the messages sent, restricted to what the shard
  owns; so a publish is delivered exactly as one broker taking the messages in the order sent
  would deliver it.
\<close>

section \<open>State and steps\<close>

record cluster =
  cl_shards :: "shard list"
  cl_chans :: "channel list"
  cl_store :: queue_store
  cl_sent :: "broker_message list"   \<comment> \<open>ghost: all messages sent, in order\<close>

datatype cluster_event = Sent broker_message | Handled nat broker_message | QueueUsed handle

definition cluster_init :: "channel list \<Rightarrow> queue_store \<Rightarrow> cluster" where
  "cluster_init txs st =
     \<lparr>cl_shards = replicate (length txs) shard_new, cl_chans = txs, cl_store = st, cl_sent = []\<rparr>"

definition after_send :: "(string \<Rightarrow> u64) \<Rightarrow> broker_message \<Rightarrow> cluster \<Rightarrow> cluster" where
  "after_send hash m c =
     c\<lparr>cl_chans := snd (sharded_send hash m (cl_chans c)), cl_sent := cl_sent c @ [m]\<rparr>"

definition after_handle :: "nat \<Rightarrow> string list \<Rightarrow> broker_message \<Rightarrow> broker_message list \<Rightarrow> cluster \<Rightarrow> cluster" where
  "after_handle i ks m ms c =
     (let (sh, st) = handle_message ks m (cl_shards c ! i, cl_store c)
      in c\<lparr>cl_shards := (cl_shards c)[i := sh], cl_store := st,
           cl_chans := (cl_chans c)[i := (cl_chans c ! i)\<lparr>inbox := ms\<rparr>]\<rparr>)"

inductive cluster_step :: "(string \<Rightarrow> u64) \<Rightarrow> cluster \<Rightarrow> cluster_event \<Rightarrow> cluster \<Rightarrow> bool"
  for hash :: "string \<Rightarrow> u64" where
  cl_send: "cluster_step hash c (Sent m) (after_send hash m c)"
| cl_handle: "i < length (cl_shards c) \<Longrightarrow> inbox (cl_chans c ! i) = m # ms \<Longrightarrow>
    handler_order (cl_shards c ! i) m ks \<Longrightarrow>
    cluster_step hash c (Handled i m) (after_handle i ks m ms c)"
| cl_queue: "cluster_step hash c (QueueUsed h) (c\<lparr>cl_store := (cl_store c)(h := q)\<rparr>)"

inductive cluster_run :: "(string \<Rightarrow> u64) \<Rightarrow> cluster \<Rightarrow> cluster_event list \<Rightarrow> cluster \<Rightarrow> bool"
  for hash :: "string \<Rightarrow> u64" where
  cl_nil: "cluster_run hash c [] c"
| cl_snoc: "cluster_run hash c es c' \<Longrightarrow> cluster_step hash c' e c'' \<Longrightarrow> cluster_run hash c (es @ [e]) c''"

section \<open>Invariant\<close>

definition shard_at :: "(string \<Rightarrow> u64) \<Rightarrow> nat \<Rightarrow> broker_message list \<Rightarrow> nat \<Rightarrow> nat \<Rightarrow> shard \<Rightarrow> bool" where
  "shard_at hash n ms i k sh \<longleftrightarrow>
     abs_shard sh = view (owner hash n) i (spec_run (take k ms) registry_init)"

definition cluster_inv :: "(string \<Rightarrow> u64) \<Rightarrow> nat \<Rightarrow> cluster \<Rightarrow> bool" where
  "cluster_inv hash n c \<longleftrightarrow> shards_up n (cl_chans c) \<and> length (cl_shards c) = n \<and>
     (\<forall>i < n. \<exists>k \<le> length (cl_sent c). shard_at hash n (cl_sent c) i k (cl_shards c ! i) \<and>
        inbox (cl_chans c ! i) = filter (concerns (owner hash n) i) (drop k (cl_sent c)))"

lemma cluster_inv_init:
  "spawn_sharded_broker n = Ok txs \<Longrightarrow> cluster_inv hash n (cluster_init txs st)"
  using shards_up_spawn [of n txs]
  by (auto simp: cluster_inv_def cluster_init_def shard_at_def shards_up_def shard_inbox_def
      split: if_splits)

text \<open>The next message of a shard, and where it was sent.\<close>

lemma next_message:
  assumes "cluster_inv hash n c" and "i < n" and "inbox (cl_chans c ! i) = m # ms"
  shows "\<exists>j < length (cl_sent c). cl_sent c ! j = m \<and> concerns (owner hash n) i m \<and>
    shard_at hash n (cl_sent c) i j (cl_shards c ! i) \<and>
    ms = filter (concerns (owner hash n) i) (drop (Suc j) (cl_sent c))"
proof -
  let ?own = "owner hash n" and ?sent = "cl_sent c"
  from assms(1,2) obtain k where k: "k \<le> length ?sent" "shard_at hash n ?sent i k (cl_shards c ! i)"
    "inbox (cl_chans c ! i) = filter (concerns ?own i) (drop k ?sent)"
    unfolding cluster_inv_def by blast
  from k(3) assms(3) have "filter (concerns ?own i) (drop k ?sent) = m # ms" by simp
  then obtain us vs where d: "drop k ?sent = us @ m # vs" "\<forall>u \<in> set us. \<not> concerns ?own i u"
    "concerns ?own i m" "ms = filter (concerns ?own i) vs"
    by (auto simp: filter_eq_Cons_iff)
  then have skip: "filter (concerns ?own i) us = []" by simp
  have sent: "?sent = take k ?sent @ us @ m # vs"
    using d(1) by (metis append_take_drop_id)
  let ?j = "k + length us"
  have "take ?j ?sent = take k ?sent @ us"
    by (subst sent) (simp add: k(1))
  then have "view ?own i (spec_run (take ?j ?sent) registry_init) =
      view ?own i (spec_run (take k ?sent) registry_init)"
    using view_run [of ?own i us] by (simp add: spec_run_append skip [simplified])
  then have "shard_at hash n ?sent i ?j (cl_shards c ! i)"
    using k(2) by (simp add: shard_at_def)
  moreover have "?sent ! ?j = m"
    by (subst sent) (simp add: nth_append k(1))
  moreover have "drop (Suc ?j) ?sent = vs"
    by (subst sent) (simp add: k(1))
  moreover have "?j < length ?sent"
    using arg_cong [OF d(1), of length] by simp
  ultimately show ?thesis using d by blast
qed

lemma after_send_chans:
  assumes up: "shards_up n (cl_chans c)"
  shows "shards_up n (cl_chans (after_send hash m c))"
    and "i < n \<Longrightarrow> inbox (cl_chans (after_send hash m c) ! i) =
      inbox (cl_chans c ! i) @ (if concerns (owner hash n) i m then [m] else [])"
proof -
  show up': "shards_up n (cl_chans (after_send hash m c))"
    using up by (simp add: after_send_def shard_sink.send_usable)
  show "inbox (cl_chans (after_send hash m c) ! i) =
      inbox (cl_chans c ! i) @ (if concerns (owner hash n) i m then [m] else [])" if "i < n"
    using shard_sink.send_arrived [OF up, of hash m i] up up' that
    by (simp add: shard_inbox_def shards_up_def after_send_def)
qed

lemma cluster_inv_send:
  assumes "cluster_inv hash n c"
  shows "cluster_inv hash n (after_send hash m c)"
proof -
  let ?c = "after_send hash m c"
  from assms have up: "shards_up n (cl_chans c)" by (simp add: cluster_inv_def)
  note up' = after_send_chans(1) [OF up, of hash m] and inbox' = after_send_chans(2) [OF up, of _ hash m]
  have "\<exists>k \<le> length (cl_sent ?c). shard_at hash n (cl_sent ?c) i k (cl_shards ?c ! i) \<and>
      inbox (cl_chans ?c ! i) = filter (concerns (owner hash n) i) (drop k (cl_sent ?c))" if "i < n" for i
  proof -
    from assms that obtain k where "k \<le> length (cl_sent c)" "shard_at hash n (cl_sent c) i k (cl_shards c ! i)"
      "inbox (cl_chans c ! i) = filter (concerns (owner hash n) i) (drop k (cl_sent c))"
      unfolding cluster_inv_def by blast
    with inbox' [OF that] show ?thesis
      by (intro exI [of _ k]) (simp add: after_send_def shard_at_def)
  qed
  with up' assms show ?thesis by (simp add: cluster_inv_def after_send_def)
qed

lemma spec_run_take_Suc:
  "j < length ms \<Longrightarrow> spec_run (take (Suc j) ms) R = spec_step (ms ! j) (spec_run (take j ms) R)"
  by (simp add: take_Suc_conv_app_nth spec_run_append)

lemma cluster_inv_handle:
  assumes "cluster_inv hash n c" and "i < n" and "inbox (cl_chans c ! i) = m # ms"
  shows "cluster_inv hash n (after_handle i ks m ms c)"
proof -
  let ?c = "after_handle i ks m ms c" and ?own = "owner hash n" and ?sent = "cl_sent c"
  from assms(1) have n: "length (cl_chans c) = n" "length (cl_shards c) = n" "\<forall>tx \<in> set (cl_chans c). chan_open tx"
    by (simp_all add: cluster_inv_def shards_up_def)
  have shards: "cl_shards ?c = (cl_shards c)[i := shard_after m (cl_shards c ! i)]"
    using fst_handle_message [of ks m "(cl_shards c ! i, cl_store c)"]
    by (simp add: after_handle_def split_beta)
  have chans: "cl_chans ?c = (cl_chans c)[i := (cl_chans c ! i)\<lparr>inbox := ms\<rparr>]"
    and sent: "cl_sent ?c = ?sent"
    by (simp_all add: after_handle_def split_beta)
  have up: "shards_up n (cl_chans ?c)"
    using assms(1) n assms(2) nth_mem [of i "cl_chans c"]
    by (auto simp: cluster_inv_def shards_up_def chans dest!: set_update_subset_insert [THEN subsetD])
  from next_message [OF assms] obtain j where j: "j < length ?sent" "?sent ! j = m" "concerns ?own i m"
    "shard_at hash n ?sent i j (cl_shards c ! i)" "ms = filter (concerns ?own i) (drop (Suc j) ?sent)"
    by blast
  then have at: "shard_at hash n ?sent i (Suc j) (shard_after m (cl_shards c ! i))"
    by (simp add: shard_at_def abs_shard_after spec_run_take_Suc view_step)
  have "\<exists>k \<le> length ?sent. shard_at hash n ?sent i' k (cl_shards ?c ! i') \<and>
      inbox (cl_chans ?c ! i') = filter (concerns ?own i') (drop k ?sent)" if "i' < n" for i'
  proof (cases "i' = i")
    case True
    with at j(1) assms(2) n show ?thesis
      by (intro exI [of _ "Suc j"]) (simp add: shards chans j(5) [symmetric])
  next
    case False
    with assms(1) that show ?thesis by (simp add: cluster_inv_def shards chans)
  qed
  with up n show ?thesis by (simp add: cluster_inv_def shards sent)
qed

lemma cluster_inv_step: "cluster_step hash c e c' \<Longrightarrow> cluster_inv hash n c \<Longrightarrow> cluster_inv hash n c'"
proof (induction rule: cluster_step.induct)
  case (cl_handle i c m ms ks)
  then have "i < n" by (simp add: cluster_inv_def)
  with cl_handle show ?case using cluster_inv_handle by blast
next
  case (cl_queue c h q)
  then show ?case by (simp add: cluster_inv_def)
qed (rule cluster_inv_send)

lemma cluster_inv_run: "cluster_run hash c es c' \<Longrightarrow> cluster_inv hash n c \<Longrightarrow> cluster_inv hash n c'"
  by (induction rule: cluster_run.induct) (auto intro: cluster_inv_step)

section \<open>What the shards deliver\<close>

text \<open>
  The connections' messages: decoded publishes, and one queue per connection.
\<close>

definition sent_ok :: "broker_message list \<Rightarrow> bool" where
  "sent_ok ms \<longleftrightarrow> (\<forall>m \<in> set ms. message_ok m) \<and>
     (\<forall>i c h j d. Register i c h \<in> set ms \<and> Register j d h \<in> set ms \<longrightarrow> i = j)"

lemma sent_ok_take: "sent_ok ms \<Longrightarrow> sent_ok (take k ms)"
  using set_take_subset [of k ms] unfolding sent_ok_def by blast

lemma reg_clients_from:
  "reg_clients (spec_run ms registry_init) i = Some c \<Longrightarrow>
   Register i (cs_client_id c) (cs_outbound c) \<in> set ms"
proof (induction ms rule: rev_induct)
  case Nil
  then show ?case by (simp add: registry_init_def)
next
  case (snoc m ms)
  then show ?case by (cases m) (auto simp: spec_run_append split: if_splits)
qed

lemma handles_inj_spec: "sent_ok ms \<Longrightarrow> handles_inj (reg_clients (spec_run ms registry_init))"
  unfolding handles_inj_def sent_ok_def by (metis reg_clients_from)

lemma clients_view [simp]: "reg_clients (view own i R) = reg_clients R"
  by (simp add: view_def)

lemma shard_at_clients: "shard_at hash n ms i k sh \<Longrightarrow> clients sh = reg_clients (spec_run (take k ms) registry_init)"
  unfolding shard_at_def by (metis abs_shard_def clients_view registry.select_convs(1))

lemma shard_at_recipients:
  "shard_at hash n ms i k sh \<Longrightarrow> owner hash n t = i \<Longrightarrow>
   recipients sh t = spec_recipients (spec_run (take k ms) registry_init) t"
  by (simp add: recipients_abs shard_at_def spec_recipients_view)

text \<open>The shards' own invariant holds along every run, as long as decoded packets are published.\<close>

definition shards_inv :: "cluster \<Rightarrow> bool" where
  "shards_inv c \<longleftrightarrow> (\<forall>sh \<in> set (cl_shards c). shard_inv sh)"

lemma shards_inv_init: "shards_inv (cluster_init txs st)"
  by (simp add: shards_inv_def cluster_init_def shard_inv_new)

lemma cl_sent_mono: "cluster_step hash c e c' \<Longrightarrow> set (cl_sent c) \<subseteq> set (cl_sent c')"
  by (induction rule: cluster_step.induct)
    (auto simp: after_send_def after_handle_def split: prod.splits)

lemma inbox_sent:
  assumes "cluster_inv hash n c" and "i < n"
  shows "set (inbox (cl_chans c ! i)) \<subseteq> set (cl_sent c)"
proof -
  from assms obtain k where "inbox (cl_chans c ! i) = filter (concerns (owner hash n) i) (drop k (cl_sent c))"
    unfolding cluster_inv_def by blast
  then show ?thesis by (auto dest: in_set_dropD)
qed

lemma shards_inv_step:
  assumes "cluster_step hash c e c'" and "cluster_inv hash n c" and "\<forall>m \<in> set (cl_sent c). message_ok m"
    and "shards_inv c"
  shows "shards_inv c'"
  using assms
proof (induction rule: cluster_step.induct)
  case (cl_handle i c m ms ks)
  then have i: "i < n" by (simp add: cluster_inv_def)
  from inbox_sent [OF cl_handle.prems(1) i] cl_handle have "message_ok m" by auto
  moreover have "shard_inv (cl_shards c ! i)" using cl_handle by (simp add: shards_inv_def)
  ultimately have "shard_inv (shard_after m (cl_shards c ! i))" by (rule shard_inv_after [rotated])
  with cl_handle.prems(3) show ?case
    using fst_handle_message [of ks m "(cl_shards c ! i, cl_store c)"]
    by (auto simp: shards_inv_def after_handle_def split_beta dest!: set_update_subset_insert [THEN subsetD])
qed (auto simp: shards_inv_def after_send_def)

lemma shards_inv_run:
  assumes "cluster_run hash c es c'" and "cluster_inv hash n c" and "shards_inv c"
    and "\<forall>m \<in> set (cl_sent c'). message_ok m"
  shows "shards_inv c'"
  using assms
proof (induction rule: cluster_run.induct)
  case (cl_snoc c es c' e c'')
  from cl_snoc.prems cl_sent_mono [OF cl_snoc.hyps(2)] have ok: "\<forall>m \<in> set (cl_sent c'). message_ok m" by blast
  with cl_snoc have "shards_inv c'" by blast
  moreover have "cluster_inv hash n c'" using cl_snoc cluster_inv_run by blast
  ultimately show ?case using shards_inv_step cl_snoc.hyps(2) ok by blast
qed simp

text \<open>
  A shard that handles a publish changes the queues of exactly the connections the abstract broker
  would serve after the messages sent before that publish.
\<close>

lemma publish_handled:
  assumes c: "cluster_inv hash n c" "shards_inv c" "sent_ok (cl_sent c)"
    and step: "cluster_step hash c (Handled i (PublishFrom from p)) c'"
  shows "\<exists>j < length (cl_sent c). cl_sent c ! j = PublishFrom from p \<and>
    (let R = spec_run (take j (cl_sent c)) registry_init in
     \<forall>h. cl_store c' h =
       (if h \<in> handles_of (reg_clients R) (spec_recipients R (pub_topic p))
        then pushed (cl_store c h) (Packet (Publish p)) else cl_store c h))"
  using step
proof cases
  case (cl_handle ms ks)
  let ?sh = "cl_shards c ! i"
  from cl_handle c(1) have i: "i < n" by (simp add: cluster_inv_def)
  from next_message [OF c(1) i cl_handle(3)] obtain j where j: "j < length (cl_sent c)"
    "cl_sent c ! j = PublishFrom from p" "concerns (owner hash n) i (PublishFrom from p)"
    "shard_at hash n (cl_sent c) i j ?sh" by blast
  let ?R = "spec_run (take j (cl_sent c)) registry_init"
  have "message_ok (PublishFrom from p)"
    using c(3) j(1,2) nth_mem [of j "cl_sent c"] unfolding sent_ok_def by metis
  then have t: "\<not> is_wildcard_filter (pub_topic p)" by simp
  have "shard_inv ?sh" using c(2) cl_handle(2) by (simp add: shards_inv_def)
  moreover have "handles_inj (clients ?sh)"
    using handles_inj_spec [OF sent_ok_take [OF c(3)]] by (simp add: shard_at_clients [OF j(4)])
  moreover have "iter_order (topics ?sh) ks" using cl_handle(4) by simp
  ultimately have q: "snd (handle_publish ks p (?sh, cl_store c)) h =
      (if h \<in> handles_of (clients ?sh) (recipients ?sh (pub_topic p))
       then pushed (cl_store c h) (Packet (Publish p)) else cl_store c h)" for h
    using t by (rule handle_publish_queues)
  have "owner hash n (pub_topic p) = i" using j(3) by simp
  note r = shard_at_recipients [OF j(4) this]
  have "cl_store c' = snd (handle_publish ks p (?sh, cl_store c))"
    by (simp add: cl_handle(1) after_handle_def split_beta)
  then have "cl_store c' h = (if h \<in> handles_of (reg_clients ?R) (spec_recipients ?R (pub_topic p))
       then pushed (cl_store c h) (Packet (Publish p)) else cl_store c h)" for h
    using q [of h] by (simp add: r shard_at_clients [OF j(4)])
  with j(1,2) show ?thesis unfolding Let_def by blast
qed

text \<open>
  A shard that handles a subscription replays its own part of what the abstract broker retains, to
  the subscriber only, one message per topic.
\<close>

lemma subscribe_handled:
  assumes c: "cluster_inv hash n c" "shards_inv c"
    and step: "cluster_step hash c (Handled i (SubscribeTo cid f)) c'"
  shows "\<exists>j < length (cl_sent c). cl_sent c ! j = SubscribeTo cid f \<and>
    (let R = spec_run (take j (cl_sent c)) registry_init in
     \<exists>ps. set ps = spec_replay (view (owner hash n) i R) f \<and> distinct (map pub_topic ps) \<and>
       (\<forall>h. cl_store c' h =
         (case reg_clients R cid of
            Some cl \<Rightarrow> (if h = cs_outbound cl
                        then foldl pushed (cl_store c h) (map (\<lambda>p. Packet (Publish p)) ps)
                        else cl_store c h)
          | None \<Rightarrow> cl_store c h)))"
  using step
proof cases
  case (cl_handle ms ks)
  let ?sh = "cl_shards c ! i"
  from cl_handle c(1) have i: "i < n" by (simp add: cluster_inv_def)
  from next_message [OF c(1) i cl_handle(3)] obtain j where j: "j < length (cl_sent c)"
    "cl_sent c ! j = SubscribeTo cid f" "shard_at hash n (cl_sent c) i j ?sh" by blast
  let ?R = "spec_run (take j (cl_sent c)) registry_init"
  let ?ps = "replay ks f (retained ?sh)"
  have inv: "shard_inv ?sh" using c(2) cl_handle(2) by (simp add: shards_inv_def)
  have ord: "iter_order (retained ?sh) ks" using cl_handle(4) by simp
  have "set ?ps = spec_replay (view (owner hash n) i ?R) f"
    using replay_abs [OF inv ord] j(3) by (simp add: shard_at_def)
  moreover have "distinct (map pub_topic ?ps)"
    using inv ord by (intro replay_topics_distinct) (auto simp: shard_inv_def)
  moreover have "cl_store c' = snd (handle_subscribe ks cid f (?sh, cl_store c))"
    by (simp add: cl_handle(1) after_handle_def split_beta)
  then have "cl_store c' h = (case reg_clients ?R cid of
            Some cl \<Rightarrow> (if h = cs_outbound cl
                        then foldl pushed (cl_store c h) (map (\<lambda>p. Packet (Publish p)) ?ps)
                        else cl_store c h)
          | None \<Rightarrow> cl_store c h)" for h
    by (simp add: handle_subscribe_queues shard_at_clients [OF j(3)])
  ultimately show ?thesis using j(1,2) unfolding Let_def by blast
qed

text \<open>Nothing stops a shard that has a message; once a shard has none, it has caught up.\<close>

lemma cluster_progress:
  assumes "cluster_inv hash n c" and "shards_inv c" and "i < n" and "inbox (cl_chans c ! i) = m # ms"
  shows "\<exists>c'. cluster_step hash c (Handled i m) c' \<and> inbox (cl_chans c' ! i) = ms"
proof -
  from assms(1,3) have i: "i < length (cl_shards c)" "i < length (cl_chans c)"
    by (simp_all add: cluster_inv_def shards_up_def)
  with assms(2) have "shard_inv (cl_shards c ! i)" by (simp add: shards_inv_def)
  then obtain ks where "handler_order (cl_shards c ! i) m ks" using handler_order_exists by blast
  from cluster_step.cl_handle [of i c, OF i(1) assms(4) this] show ?thesis
    using i(2) by (intro exI conjI) (auto simp: after_handle_def split_beta)
qed

lemma caught_up:
  assumes "cluster_inv hash n c" and "i < n" and "inbox (cl_chans c ! i) = []"
  shows "abs_shard (cl_shards c ! i) = view (owner hash n) i (spec_run (cl_sent c) registry_init)"
proof -
  from assms(1,2) obtain k where k: "shard_at hash n (cl_sent c) i k (cl_shards c ! i)"
    "inbox (cl_chans c ! i) = filter (concerns (owner hash n) i) (drop k (cl_sent c))"
    unfolding cluster_inv_def by blast
  with assms(3) have "filter (concerns (owner hash n) i) (drop k (cl_sent c)) = []" by simp
  then have "view (owner hash n) i (spec_run (take k (cl_sent c)) registry_init) =
      view (owner hash n) i (spec_run (take k (cl_sent c) @ drop k (cl_sent c)) registry_init)"
    using view_run [of "owner hash n" i "drop k (cl_sent c)"] by (simp add: spec_run_append del: append_take_drop_id)
  with k(1) show ?thesis by (simp add: shard_at_def)
qed

section \<open>Properties\<close>



end
