(* ===== verification/Connection.thy ===== *)
theory Connection
  imports Sharding
begin

text \<open>
  \<open>src/connection.rs\<close>: the reader of a connection (bytes from the socket, packets, messages to the
  broker and acknowledgements to its own queue), the writer (packets from the queue, bytes to the
  socket) and the handler that runs both. The broker is any \<open>message_sink\<close>; the lemmas about what a
  connection sends are proved once for that contract.
\<close>

section \<open>Identifiers and the broker handle\<close>

text \<open>\<open>NEXT_CONNECTION_ID.fetch_add(1)\<close>: the old value, and a counter that wraps around.\<close>

definition next_connection_id :: "u64 \<Rightarrow> connection_id \<times> u64" where
  "next_connection_id counter = (counter, counter + 1)"

definition DEFAULT_CLIENT_QUEUE_CAPACITY :: nat where "DEFAULT_CLIENT_QUEUE_CAPACITY = 128"

text \<open>\<open>let _ = self.send(msg)\<close>: an error is ignored, a panic is not.\<close>

definition broker_send ::
    "('m \<Rightarrow> 's \<Rightarrow> (unit, unit) outcome \<times> 's) \<Rightarrow> 'm \<Rightarrow> 's \<Rightarrow> (unit, 's) outcome" where
  "broker_send send m b = (case send m b of (Panic, b') \<Rightarrow> Panic | (_, b') \<Rightarrow> Ok b')"

type_synonym 's sender = "broker_message \<Rightarrow> 's \<Rightarrow> (unit, unit) outcome \<times> 's"

section \<open>Handling one packet\<close>

fun forward_subscriptions ::
    "'s sender \<Rightarrow> connection_id \<Rightarrow> (string \<times> u8) list \<Rightarrow> u8 list \<Rightarrow> 's \<Rightarrow> (unit, u8 list \<times> 's) outcome" where
  "forward_subscriptions send cid [] codes b = Ok (codes, b)"
| "forward_subscriptions send cid ((topic, qos) # subs) codes b =
     and_then (broker_send send (SubscribeTo cid topic) b)
       (\<lambda>b. forward_subscriptions send cid subs (codes @ [0x00]) b)"

fun forward_unsubscriptions ::
    "'s sender \<Rightarrow> connection_id \<Rightarrow> string list \<Rightarrow> 's \<Rightarrow> (unit, 's) outcome" where
  "forward_unsubscriptions send cid [] b = Ok b"
| "forward_unsubscriptions send cid (topic # ts) b =
     and_then (broker_send send (UnsubscribeFrom cid topic) b)
       (\<lambda>b. forward_unsubscriptions send cid ts b)"

text \<open>The result is \<open>false\<close> if the connection is to be torn down.\<close>

definition dispatch_packet ::
    "'s sender \<Rightarrow> connection_id \<Rightarrow> handle \<Rightarrow> mqtt_packet \<Rightarrow> 's \<times> queue_store \<Rightarrow>
     (unit, bool \<times> 's \<times> queue_store) outcome" where
  "dispatch_packet send cid h packet s =
     (case s of (b, st) \<Rightarrow>
       (case packet of
          Connect connect \<Rightarrow>
            and_then (broker_send send (Register cid (connect_client_id connect) h) b) (\<lambda>b.
              Ok (True, b, push_event (ConnAck \<lparr>session_present = False, return_code = Accepted\<rparr>) h st))
        | Subscribe sub \<Rightarrow>
            and_then (forward_subscriptions send cid (subscriptions sub) [] b) (\<lambda>(codes, b).
              Ok (True, b,
                push_event (SubAck \<lparr>suback_packet_id = sub_packet_id sub, return_codes = codes\<rparr>) h st))
        | Unsubscribe unsub \<Rightarrow>
            and_then (forward_unsubscriptions send cid (topic_filters unsub) b) (\<lambda>b.
              Ok (True, b,
                push_event (UnsubAck \<lparr>unsuback_packet_id = unsub_packet_id unsub\<rparr>) h st))
        | Publish publish \<Rightarrow>
            (let st = (if pub_qos publish = 1 then
                         (case pub_packet_id publish of
                            Some pid \<Rightarrow> push_event (PubAck \<lparr>puback_packet_id = pid\<rparr>) h st
                          | None \<Rightarrow> st)
                       else st)
             in and_then (broker_send send (PublishFrom cid publish) b) (\<lambda>b. Ok (True, b, st)))
        | PubAck ack \<Rightarrow> Ok (True, b, st)
        | PingReq \<Rightarrow> Ok (True, b, push_event PingResp h st)
        | Disconnect \<Rightarrow> Ok (False, b, st)
        | ConnAck _ \<Rightarrow> Ok (True, b, st)
        | SubAck _ \<Rightarrow> Ok (True, b, st)
        | UnsubAck _ \<Rightarrow> Ok (True, b, st)
        | PingResp \<Rightarrow> Ok (True, b, st)))"

section \<open>The reader\<close>

definition close_outbound :: "handle \<Rightarrow> queue_store \<Rightarrow> queue_store" where
  "close_outbound h st = st(h := close_queue (st h))"

text \<open>The three ends of \<open>reader_loop\<close> all tell the broker and close the outbound queue.\<close>

definition finish_reader ::
    "'s sender \<Rightarrow> connection_id \<Rightarrow> handle \<Rightarrow> 's \<times> queue_store \<Rightarrow> (unit, 's \<times> queue_store) outcome" where
  "finish_reader send cid h s =
     (case s of (b, st) \<Rightarrow>
       and_then (broker_send send (DisconnectClient cid) b) (\<lambda>b. Ok (b, close_outbound h st)))"

datatype reader_state = Reading bytes | ReaderDone

text \<open>The inner loop: all complete packets of the buffer.\<close>

function drain_packets ::
    "'s sender \<Rightarrow> connection_id \<Rightarrow> handle \<Rightarrow> bytes \<Rightarrow> 's \<times> queue_store \<Rightarrow>
     (unit, reader_state \<times> 's \<times> queue_store) outcome" where
  "drain_packets send cid h buf s =
     (case decode buf of
        Ok (packet, consumed) \<Rightarrow>
          and_then (slice_from buf consumed) (\<lambda>buf'.
          and_then (dispatch_packet send cid h packet s) (\<lambda>(go, s').
            if go then drain_packets send cid h buf' s'
            else map_ok (\<lambda>s''. (ReaderDone, s'')) (finish_reader send cid h s')))
      | Err Incomplete \<Rightarrow> Ok (Reading buf, s)
      | Err e \<Rightarrow> map_ok (\<lambda>s''. (ReaderDone, s'')) (finish_reader send cid h s)
      | Panic \<Rightarrow> Panic)"
  by pat_completeness auto
termination
  by (relation "measure (\<lambda>(send, cid, h, buf, s). length buf)")
    (auto simp: slice_from_Ok_iff dest!: decode_Ok_bounds)

declare drain_packets.simps [simp del]

text \<open>
  What one \<open>stream.read\<close> gives: up to 4096 bytes (none at the end of the stream), or an error. The
  reader is blocked after the last of the reads so far.
\<close>

datatype read_result = ReadBytes bytes | ReadError

fun reader_loop ::
    "'s sender \<Rightarrow> connection_id \<Rightarrow> handle \<Rightarrow> read_result list \<Rightarrow> bytes \<Rightarrow> 's \<times> queue_store \<Rightarrow>
     (unit, reader_state \<times> 's \<times> queue_store) outcome" where
  "reader_loop send cid h [] buf s = Ok (Reading buf, s)"
| "reader_loop send cid h (ReadError # rs) buf s =
     map_ok (\<lambda>s'. (ReaderDone, s')) (finish_reader send cid h s)"
| "reader_loop send cid h (ReadBytes bs # rs) buf s =
     (if bs = [] then map_ok (\<lambda>s'. (ReaderDone, s')) (finish_reader send cid h s)
      else and_then (drain_packets send cid h (buf @ bs) s) (\<lambda>(r, s').
        case r of Reading buf' \<Rightarrow> reader_loop send cid h rs buf' s' | ReaderDone \<Rightarrow> Ok (ReaderDone, s')))"

section \<open>The writer\<close>

text \<open>A \<open>write_all\<close> either writes everything or fails after some bytes.\<close>

datatype write_result = Written | WriteFailed nat

datatype writer_state = WriterBlocked | WriterDone

text \<open>The writer is blocked when the queue is empty and open, or when its next write has not returned.\<close>

function writer_loop ::
    "write_result list \<Rightarrow> outbound_event queue \<Rightarrow> bytes \<Rightarrow> writer_state \<times> outbound_event queue \<times> bytes" where
  "writer_loop ws q out =
     (case pop_blocking q of
        (PopClosed, q') \<Rightarrow> (WriterDone, q', out)
      | (PopWait, q') \<Rightarrow> (WriterBlocked, q', out)
      | (PopItem (Packet p), q') \<Rightarrow>
          (case ws of
             [] \<Rightarrow> (WriterBlocked, q', out)
           | Written # ws' \<Rightarrow> writer_loop ws' q' (out @ encode p)
           | WriteFailed k # ws' \<Rightarrow> (WriterDone, q', out @ take k (encode p))))"
  by pat_completeness auto
termination
  by (relation "measure (\<lambda>(ws, q, out). length ws)") auto

declare writer_loop.simps [simp del]

section \<open>The connection\<close>

text \<open>
  \<open>handle_connection\<close> up to the end of its reader, for the address \<open>h\<close> of the new queue: a failed
  \<open>try_clone\<close> ends it before anything is registered. The writer thread it starts and joins is
  \<open>writer_loop\<close> on the same queue.
\<close>

definition handle_connection ::
    "'s sender \<Rightarrow> bool \<Rightarrow> handle \<Rightarrow> read_result list \<Rightarrow> u64 \<times> 's \<times> queue_store \<Rightarrow>
     (unit, u64 \<times> reader_state \<times> 's \<times> queue_store) outcome" where
  "handle_connection send clone_ok h reads s =
     (case s of (counter, b, st) \<Rightarrow>
       let (cid, counter') = next_connection_id counter in
       if \<not> clone_ok then Ok (counter', ReaderDone, b, st)
       else map_ok (Pair counter')
         (reader_loop send cid h reads [] (b, st(h := queue_new DEFAULT_CLIENT_QUEUE_CAPACITY))))"

section \<open>What a packet makes the reader do\<close>

text \<open>
  The effects of a packet, in order: a message to the broker, a packet on the connection's own queue;
  at the end of the reader, the queue is closed. Other threads can act between any two of them.
\<close>

datatype action = SendMsg broker_message | PushOut mqtt_packet | CloseOut

fun packet_actions :: "connection_id \<Rightarrow> handle \<Rightarrow> mqtt_packet \<Rightarrow> action list" where
  "packet_actions cid h (Connect c) =
     [SendMsg (Register cid (connect_client_id c) h),
      PushOut (ConnAck \<lparr>session_present = False, return_code = Accepted\<rparr>)]"
| "packet_actions cid h (Subscribe s) =
     map (\<lambda>(t, q). SendMsg (SubscribeTo cid t)) (subscriptions s) @
     [PushOut (SubAck \<lparr>suback_packet_id = sub_packet_id s,
                       return_codes = map (\<lambda>_. 0) (subscriptions s)\<rparr>)]"
| "packet_actions cid h (Unsubscribe u) =
     map (\<lambda>t. SendMsg (UnsubscribeFrom cid t)) (topic_filters u) @
     [PushOut (UnsubAck \<lparr>unsuback_packet_id = unsub_packet_id u\<rparr>)]"
| "packet_actions cid h (Publish p) =
     (if pub_qos p = 1 then
        (case pub_packet_id p of Some pid \<Rightarrow> [PushOut (PubAck \<lparr>puback_packet_id = pid\<rparr>)] | None \<Rightarrow> [])
      else []) @ [SendMsg (PublishFrom cid p)]"
| "packet_actions cid h PingReq = [PushOut PingResp]"
| "packet_actions cid h _ = []"

definition end_actions :: "connection_id \<Rightarrow> action list" where
  "end_actions cid = [SendMsg (DisconnectClient cid), CloseOut]"

fun run_actions ::
    "'s sender \<Rightarrow> handle \<Rightarrow> action list \<Rightarrow> 's \<times> queue_store \<Rightarrow> (unit, 's \<times> queue_store) outcome" where
  "run_actions send h [] s = Ok s"
| "run_actions send h (SendMsg m # as) (b, st) =
     and_then (broker_send send m b) (\<lambda>b. run_actions send h as (b, st))"
| "run_actions send h (PushOut p # as) (b, st) = run_actions send h as (b, push_event p h st)"
| "run_actions send h (CloseOut # as) (b, st) = run_actions send h as (b, close_outbound h st)"

lemma and_then_cong_Ok: "(\<And>x. r = Ok x \<Longrightarrow> f x = g x) \<Longrightarrow> and_then r f = and_then r g"
  by (cases r) auto

lemma run_actions_append:
  "run_actions send h (as @ as') s = and_then (run_actions send h as s) (run_actions send h as')"
  by (induction send h as s rule: run_actions.induct) (auto simp: and_then_assoc intro!: and_then_cong_Ok)

lemma forward_subscriptions_actions:
  "run_actions send h (map (\<lambda>(t, q). SendMsg (SubscribeTo cid t)) subs @ as) (b, st) =
     and_then (forward_subscriptions send cid subs codes b) (\<lambda>(_, b). run_actions send h as (b, st))"
  by (induction send cid subs codes b rule: forward_subscriptions.induct) (auto simp: and_then_assoc intro!: and_then_cong_Ok)

lemma forward_subscriptions_codes:
  "forward_subscriptions send cid subs codes b = Ok (codes', b') \<Longrightarrow> codes' = codes @ map (\<lambda>_. 0) subs"
  by (induction send cid subs codes b rule: forward_subscriptions.induct) (auto simp: outcome_simps)

lemma forward_unsubscriptions_actions:
  "run_actions send h (map (\<lambda>t. SendMsg (UnsubscribeFrom cid t)) ts @ as) (b, st) =
     and_then (forward_unsubscriptions send cid ts b) (\<lambda>b. run_actions send h as (b, st))"
  by (induction send cid ts b rule: forward_unsubscriptions.induct) (auto simp: and_then_assoc intro!: and_then_cong_Ok)

lemma map_ok_and_then: "map_ok f (and_then r g) = and_then r (\<lambda>x. map_ok f (g x))"
  by (cases r) auto

lemma dispatch_packet_actions:
  "dispatch_packet send cid h p s =
     map_ok (\<lambda>s'. (p \<noteq> Disconnect, s')) (run_actions send h (packet_actions cid h p) s)"
proof -
  obtain b st where s: "s = (b, st)" by force
  show ?thesis
  proof (cases p)
    case (Subscribe sub)
    then show ?thesis
      unfolding s Subscribe dispatch_packet_def packet_actions.simps forward_subscriptions_actions [where codes = "[]"]
      by (auto simp: map_ok_and_then intro!: and_then_cong_Ok dest: forward_subscriptions_codes)
  next
    case (Unsubscribe unsub)
    then show ?thesis
      unfolding s Unsubscribe dispatch_packet_def packet_actions.simps forward_unsubscriptions_actions
      by (simp add: map_ok_and_then)
  next
    case (Publish pp)
    then show ?thesis
      by (cases "pub_packet_id pp") (simp_all add: s dispatch_packet_def map_ok_and_then Let_def)
  qed (simp_all add: s dispatch_packet_def map_ok_and_then)
qed

lemma finish_reader_actions: "finish_reader send cid h s = run_actions send h (end_actions cid) s"
  by (cases s) (simp add: finish_reader_def end_actions_def)

section \<open>The byte stream as packets\<close>

datatype stream_end = StreamMore bytes | StreamEnd

function parse_stream :: "bytes \<Rightarrow> mqtt_packet list \<times> stream_end" where
  "parse_stream buf =
     (case decode buf of
        Ok (p, n) \<Rightarrow>
          if p = Disconnect then ([p], StreamEnd)
          else (case parse_stream (drop n buf) of (ps, e) \<Rightarrow> (p # ps, e))
      | Err e \<Rightarrow> if e = Incomplete then ([], StreamMore buf) else ([], StreamEnd)
      | Panic \<Rightarrow> ([], StreamEnd))"
  by pat_completeness auto
termination
  by (relation "measure length") (auto dest!: decode_Ok_bounds)

declare parse_stream.simps [simp del]

definition stream_actions :: "connection_id \<Rightarrow> handle \<Rightarrow> mqtt_packet list \<times> stream_end \<Rightarrow> action list" where
  "stream_actions cid h r =
     concat (map (packet_actions cid h) (fst r)) @
     (case snd r of StreamMore rest \<Rightarrow> [] | StreamEnd \<Rightarrow> end_actions cid)"

fun reader_state_of :: "stream_end \<Rightarrow> reader_state" where
  "reader_state_of (StreamMore rest) = Reading rest"
| "reader_state_of StreamEnd = ReaderDone"

lemma decode_no_panic_stream [simp]: "decode buf \<noteq> Panic"
  by (rule decode_no_panic)

text \<open>The inner loop does what the packets in its buffer say, and keeps the bytes of an unfinished one.\<close>

lemma drain_packets_actions:
  "drain_packets send cid h buf s =
     map_ok (Pair (reader_state_of (snd (parse_stream buf))))
       (run_actions send h (stream_actions cid h (parse_stream buf)) s)"
proof (induction send cid h buf s rule: drain_packets.induct)
  case (1 send cid h buf s)
  show ?case
  proof (cases "decode buf")
    case (Ok r)
    obtain p n where r: "r = (p, n)" by force
    with Ok have n: "slice_from buf n = (Ok (drop n buf) :: (unit, bytes) outcome)"
      by (auto dest: decode_Ok_bounds)
    obtain ps e where ps: "parse_stream (drop n buf) = (ps, e)" by force
    show ?thesis
    proof (cases "p = Disconnect")
      case True
      have "run_actions send h [] s = Ok s" by simp
      with Ok r n True show ?thesis
        by (simp add: drain_packets.simps [of send cid h buf] parse_stream.simps [of buf]
            dispatch_packet_actions stream_actions_def finish_reader_actions)
    next
      case False
      have "drain_packets send cid h buf s =
          and_then (run_actions send h (packet_actions cid h p) s) (\<lambda>s'. drain_packets send cid h (drop n buf) s')"
        using Ok r n False
        by (cases "run_actions send h (packet_actions cid h p) s")
          (simp_all add: drain_packets.simps [of send cid h buf] dispatch_packet_actions)
      also have "\<dots> = and_then (run_actions send h (packet_actions cid h p) s)
          (\<lambda>s'. map_ok (Pair (reader_state_of e)) (run_actions send h (stream_actions cid h (ps, e)) s'))"
      proof (rule and_then_cong_Ok)
        fix s' assume "run_actions send h (packet_actions cid h p) s = Ok s'"
        with False have "dispatch_packet send cid h p s = Ok (True, s')"
          by (simp add: dispatch_packet_actions)
        from "1.IH" [OF Ok [unfolded r] refl n this refl] show
          "drain_packets send cid h (drop n buf) s' =
            map_ok (Pair (reader_state_of e)) (run_actions send h (stream_actions cid h (ps, e)) s')"
          by (simp add: ps)
      qed
      also have "\<dots> = map_ok (Pair (reader_state_of e))
          (run_actions send h (packet_actions cid h p @ stream_actions cid h (ps, e)) s)"
        by (simp add: run_actions_append map_ok_and_then)
      finally show ?thesis
        using Ok r False ps by (simp add: parse_stream.simps [of buf] stream_actions_def)
    qed
  next
    case (Err e)
    then show ?thesis
      by (cases e) (simp_all add: drain_packets.simps [of send cid h buf] parse_stream.simps [of buf]
          stream_actions_def finish_reader_actions)
  qed simp
qed

lemma parse_stream_extend:
  "parse_stream (buf @ ys) =
     (case parse_stream buf of
        (ps, StreamEnd) \<Rightarrow> (ps, StreamEnd)
      | (ps, StreamMore rest) \<Rightarrow> (case parse_stream (rest @ ys) of (qs, e) \<Rightarrow> (ps @ qs, e)))"
proof (induction buf rule: parse_stream.induct)
  case (1 buf)
  show ?case
  proof (cases "decode buf = Err Incomplete")
    case True
    then show ?thesis by (simp add: parse_stream.simps [of buf])
  next
    case False
    then have ext: "decode (buf @ ys) = decode buf" by (intro decode_extend refl)
    show ?thesis
    proof (cases "decode buf")
      case (Ok r)
      obtain p n where r: "r = (p, n)" by force
      with Ok have "drop n (buf @ ys) = drop n buf @ ys" by (auto dest: decode_Ok_bounds)
      with Ok r ext "1.IH" [OF Ok [unfolded r] refl] show ?thesis
        by (simp add: parse_stream.simps [of buf] parse_stream.simps [of "buf @ ys"]
            split: prod.splits stream_end.splits)
    next
      case (Err e)
      with False ext show ?thesis
        by (simp add: parse_stream.simps [of buf] parse_stream.simps [of "buf @ ys"])
    qed simp
  qed
qed

lemma parse_stream_rest: "parse_stream buf = (ps, StreamMore rest) \<Longrightarrow> parse_stream rest = ([], StreamMore rest)"
proof (induction buf arbitrary: ps rule: parse_stream.induct)
  case (1 buf)
  show ?case
  proof (cases "decode buf")
    case (Ok r)
    obtain p n where r: "r = (p, n)" by force
    with Ok 1 show ?thesis
      by (auto simp: parse_stream.simps [of buf] split: if_splits prod.splits)
  next
    case (Err e)
    with "1.prems" have "rest = buf" and "decode buf = Err Incomplete"
      by (auto simp: parse_stream.simps [of buf] split: if_splits)
    then show ?thesis by (simp add: parse_stream.simps [of buf])
  qed simp
qed

lemma parse_stream_bound: "parse_stream buf = (ps, StreamMore rest) \<Longrightarrow> length rest < max_packet_length"
  using parse_stream_rest [of buf ps rest] decode_Incomplete [of rest]
  by (auto simp: parse_stream.simps [of rest] split: outcome.splits if_splits prod.splits)

lemma parse_stream_Nil [simp]: "parse_stream [] = ([], StreamMore [])"
  by (simp add: parse_stream.simps [of "[]"] decode_Nil)

text \<open>Every packet of a stream is one a client may send; only the last can be a DISCONNECT.\<close>

lemma parse_stream_packets: "p \<in> set (fst (parse_stream buf)) \<Longrightarrow> client_packet p"
proof (induction buf rule: parse_stream.induct)
  case (1 buf)
  show ?case
  proof (cases "decode buf")
    case (Ok r)
    obtain q n where r: "r = (q, n)" by force
    with Ok have "client_packet q" by (auto dest: decode_ok)
    with Ok r 1 show ?thesis
      by (auto simp: parse_stream.simps [of buf] split: if_splits prod.splits)
  next
    case (Err e)
    with 1 show ?thesis by (auto simp: parse_stream.simps [of buf] split: if_splits)
  qed simp
qed

text \<open>A stream of encoded packets is read as those packets.\<close>

definition sendable :: "mqtt_packet \<Rightarrow> bool" where
  "sendable p \<longleftrightarrow> client_packet p \<and> length (packet_body p) \<le> max_remaining_length"

lemma parse_stream_encode:
  "\<forall>p \<in> set ps. sendable p \<and> p \<noteq> Disconnect \<Longrightarrow>
   parse_stream (concat (map encode ps) @ rest) = (case parse_stream rest of (qs, e) \<Rightarrow> (ps @ qs, e))"
proof (induction ps)
  case (Cons p ps)
  then have "decode (encode p @ concat (map encode ps) @ rest) = Ok (p, length (encode p))"
    by (intro decode_encode) (simp_all add: sendable_def)
  with Cons show ?case
    by (simp add: parse_stream.simps [of "encode p @ concat (map encode ps) @ rest"] split: prod.splits)
qed simp

section \<open>The reader does not depend on how the stream is cut\<close>

lemma reader_loop_chunks:
  assumes "parse_stream buf = ([], StreamMore buf)" and "\<forall>c \<in> set cs. c \<noteq> []"
  shows "reader_loop send cid h (map ReadBytes cs @ rs) buf s =
    and_then (drain_packets send cid h (buf @ concat cs) s) (\<lambda>(r, s').
      case r of Reading buf' \<Rightarrow> reader_loop send cid h rs buf' s' | ReaderDone \<Rightarrow> Ok (ReaderDone, s'))"
  using assms
proof (induction cs arbitrary: buf s)
  case Nil
  then show ?case
    by (simp add: drain_packets_actions stream_actions_def)
next
  case (Cons c cs)
  let ?k = "\<lambda>(r, s'). case r of Reading buf' \<Rightarrow> reader_loop send cid h rs buf' s' | ReaderDone \<Rightarrow> Ok (ReaderDone, s')"
  obtain ps e where ps: "parse_stream (buf @ c) = (ps, e)" by force
  show ?case
  proof (cases e)
    case StreamEnd
    with ps have "parse_stream (buf @ c @ concat cs) = (ps, StreamEnd)"
      using parse_stream_extend [of "buf @ c" "concat cs"] by simp
    with ps StreamEnd Cons.prems(2) show ?thesis
      by (cases "run_actions send h (stream_actions cid h (ps, StreamEnd)) s")
        (simp_all add: drain_packets_actions)
  next
    case (StreamMore rest)
    obtain qs f where qs: "parse_stream (rest @ concat cs) = (qs, f)" by force
    with ps StreamMore have all: "parse_stream (buf @ c @ concat cs) = (ps @ qs, f)"
      using parse_stream_extend [of "buf @ c" "concat cs"] by simp
    have "parse_stream rest = ([], StreamMore rest)"
      using ps StreamMore parse_stream_rest by blast
    note IH = Cons.IH [OF this]
    have "reader_loop send cid h (map ReadBytes (c # cs) @ rs) buf s =
        and_then (run_actions send h (stream_actions cid h (ps, e)) s)
          (\<lambda>s'. reader_loop send cid h (map ReadBytes cs @ rs) rest s')"
      using ps StreamMore Cons.prems(2)
      by (cases "run_actions send h (stream_actions cid h (ps, e)) s") (simp_all add: drain_packets_actions)
    also have "\<dots> = and_then (run_actions send h (stream_actions cid h (ps, e)) s)
          (\<lambda>s'. and_then (drain_packets send cid h (rest @ concat cs) s') ?k)"
      using IH Cons.prems(2) by (intro and_then_cong_Ok) simp
    also have "\<dots> = and_then (drain_packets send cid h (buf @ c @ concat cs) s) ?k"
      using all qs StreamMore
      by (cases "run_actions send h (stream_actions cid h (ps, e)) s")
        (simp_all add: drain_packets_actions stream_actions_def run_actions_append)
    finally show ?thesis by simp
  qed
qed

text \<open>
  So a reader that gets the chunks \<open>cs\<close> and then the end of the stream or an error does what the
  packets of their concatenation say, then tells the broker once and closes its queue.
\<close>

definition session_actions :: "connection_id \<Rightarrow> handle \<Rightarrow> bytes \<Rightarrow> action list" where
  "session_actions cid h bs = concat (map (packet_actions cid h) (fst (parse_stream bs))) @ end_actions cid"

lemma reader_loop_session:
  assumes "\<forall>c \<in> set cs. c \<noteq> []" and "e = ReadError \<or> e = ReadBytes []"
  shows "reader_loop send cid h (map ReadBytes cs @ e # rs) [] s =
    map_ok (Pair ReaderDone) (run_actions send h (session_actions cid h (concat cs)) s)"
proof -
  have stop: "reader_loop send cid h (e # rs) buf s' = map_ok (Pair ReaderDone) (run_actions send h (end_actions cid) s')"
    for buf s' using assms(2) by (auto simp: finish_reader_actions)
  obtain ps f where ps: "parse_stream (concat cs) = (ps, f)" by force
  have r: "run_actions send h [] = Ok" by (simp add: fun_eq_iff)
  show ?thesis
    unfolding reader_loop_chunks [OF parse_stream_Nil assms(1)] append_Nil
  proof (cases f)
    case (StreamMore rest)
    with ps stop show "and_then (drain_packets send cid h (concat cs) s) (\<lambda>(r, s').
        case r of Reading buf' \<Rightarrow> reader_loop send cid h (e # rs) buf' s' | ReaderDone \<Rightarrow> Ok (ReaderDone, s')) =
      map_ok (Pair ReaderDone) (run_actions send h (session_actions cid h (concat cs)) s)"
      by (cases "run_actions send h (concat (map (packet_actions cid h) ps)) s")
        (simp_all add: drain_packets_actions stream_actions_def session_actions_def run_actions_append
          del: reader_loop.simps)
  next
    case StreamEnd
    with ps show "and_then (drain_packets send cid h (concat cs) s) (\<lambda>(r, s').
        case r of Reading buf' \<Rightarrow> reader_loop send cid h (e # rs) buf' s' | ReaderDone \<Rightarrow> Ok (ReaderDone, s')) =
      map_ok (Pair ReaderDone) (run_actions send h (session_actions cid h (concat cs)) s)"
      by (cases "run_actions send h (concat (map (packet_actions cid h) ps) @ end_actions cid) s")
        (simp_all add: drain_packets_actions stream_actions_def session_actions_def)
  qed
qed

section \<open>What a connection sends, for any broker handle\<close>

fun messages_of :: "action list \<Rightarrow> broker_message list" where
  "messages_of [] = []"
| "messages_of (SendMsg m # as) = m # messages_of as"
| "messages_of (_ # as) = messages_of as"

fun own_queue :: "action list \<Rightarrow> outbound_event queue \<Rightarrow> outbound_event queue" where
  "own_queue [] q = q"
| "own_queue (PushOut p # as) q = own_queue as (pushed q (Packet p))"
| "own_queue (CloseOut # as) q = own_queue as (close_queue q)"
| "own_queue (SendMsg m # as) q = own_queue as q"

lemma messages_of_append [simp]: "messages_of (as @ as') = messages_of as @ messages_of as'"
  by (induction as rule: messages_of.induct) auto

lemma own_queue_append [simp]: "own_queue (as @ as') q = own_queue as' (own_queue as q)"
  by (induction as q rule: own_queue.induct) auto

lemma messages_of_end [simp]: "messages_of (end_actions cid) = [DisconnectClient cid]"
  by (simp add: end_actions_def)

locale broker_handle = message_sink send arrived reaches usable
  for send :: "broker_message \<Rightarrow> 's \<Rightarrow> (unit, unit) outcome \<times> 's"
    and arrived :: "'s \<Rightarrow> 'p \<Rightarrow> broker_message list"
    and reaches :: "'p \<Rightarrow> broker_message \<Rightarrow> bool"
    and usable :: "'s \<Rightarrow> bool"
begin

lemma broker_send_usable: "usable b \<Longrightarrow> broker_send send m b = Ok (snd (send m b))"
  using send_ok [of b m] by (auto simp: broker_send_def split: prod.splits)

lemma run_actions_usable:
  "usable b \<Longrightarrow> run_actions send h as (b, st) = Ok (send_all (messages_of as) b, st(h := own_queue as (st h)))"
proof (induction as arbitrary: b st)
  case (Cons a as)
  then show ?case
    by (cases a) (auto simp: broker_send_usable send_usable push_event_def close_outbound_def fun_eq_iff)
qed simp

text \<open>
  A whole session: nothing panics, the broker gets the packets' messages and one disconnect, in order
  at every port they reach, and only the connection's own queue has changed.
\<close>

lemma session_usable:
  assumes "usable b" and "\<forall>c \<in> set cs. c \<noteq> []" and "e = ReadError \<or> e = ReadBytes []"
  shows "\<exists>b'. reader_loop send cid h (map ReadBytes cs @ e # rs) [] (b, st) =
      Ok (ReaderDone, b', st(h := own_queue (session_actions cid h (concat cs)) (st h))) \<and> usable b' \<and>
    (\<forall>p. arrived b' p = arrived b p @ filter (reaches p) (messages_of (session_actions cid h (concat cs))))"
  using assms
  by (simp add: reader_loop_session run_actions_usable usable_send_all arrived_send_all)

end

interpretation chan_handle: broker_handle chan_send "\<lambda>ch (_ :: unit). inbox ch" "\<lambda>_ _. True" chan_open
  by unfold_locales

interpretation shard_handle: broker_handle "sharded_send hash" shard_inbox
  "\<lambda>i m. i < n \<and> concerns (owner hash n) i m" "shards_up n" for hash n
  by unfold_locales

section \<open>What the writer writes\<close>

fun event_packet :: "outbound_event \<Rightarrow> mqtt_packet" where
  "event_packet (Packet p) = p"

definition wire_image :: "outbound_event list \<Rightarrow> bytes" where
  "wire_image es = concat (map (\<lambda>e. encode (event_packet e)) es)"

lemma wire_image_simps [simp]:
  "wire_image [] = []" "wire_image (Packet p # es) = encode p @ wire_image es"
  by (simp_all add: wire_image_def)

text \<open>A writer whose writes succeed sends everything that is queued and ends once the queue is closed.\<close>

lemma writer_loop_all:
  "length (items q) \<le> k \<Longrightarrow>
   writer_loop (replicate k Written) q out =
     (if closed q then WriterDone else WriterBlocked, q\<lparr>items := []\<rparr>, out @ wire_image (items q))"
proof (induction "items q" arbitrary: q k out)
  case Nil
  then have "pop_blocking q = (if closed q then PopClosed else PopWait, q)" and "q\<lparr>items := []\<rparr> = q"
    by (simp_all add: pop_blocking_def)
  with Nil show ?case by (simp add: writer_loop.simps)
next
  case (Cons x xs)
  obtain p where x: "x = Packet p" by (cases x)
  obtain k' where k: "k = Suc k'" using Cons by (cases k) auto
  have "pop_blocking q = (PopItem x, q\<lparr>items := xs\<rparr>)"
    by (simp add: pop_blocking_def flip: Cons.hyps(2))
  with Cons.hyps(1) [of "q\<lparr>items := xs\<rparr>" k' "out @ encode p"] Cons.prems Cons.hyps(2) x k show ?case
    by (subst writer_loop.simps) (simp flip: Cons.hyps(2))
qed

text \<open>A writer never sends anything but a prefix of what is queued, whatever its writes do.\<close>

lemma writer_loop_prefix:
  "writer_loop ws q out = (r, q', out') \<Longrightarrow> \<exists>bs rest. out' = out @ bs \<and> bs @ rest = wire_image (items q)"
proof (induction ws q out rule: writer_loop.induct)
  case (1 ws q out)
  show ?case
  proof (cases "items q")
    case Nil
    with "1.prems" show ?thesis
      by (auto simp: writer_loop.simps [of ws q] pop_blocking_def split: if_splits)
  next
    case (Cons x xs)
    note items = this
    obtain p where x: "x = Packet p" by (cases x)
    let ?q = "q\<lparr>items := xs\<rparr>"
    have pop: "pop_blocking q = (PopItem (Packet p), ?q)"
      using items x by (simp add: pop_blocking_def)
    show ?thesis
    proof (cases ws)
      case Nil
      with "1.prems" show ?thesis
        by (simp add: writer_loop.simps [of "[]" q] pop)
    next
      case (Cons w ws')
      show ?thesis
      proof (cases w)
        case Written
        with "1.prems" Cons have "writer_loop ws' ?q (out @ encode p) = (r, q', out')"
          by (simp add: writer_loop.simps [of "Written # ws'" q] pop)
        from "1.IH" [OF pop [symmetric] refl refl Cons Written this] obtain bs rest where
          "out' = (out @ encode p) @ bs" "bs @ rest = wire_image xs" by auto
        then show ?thesis
          using x items by (intro exI [of _ "encode p @ bs"] exI [of _ rest]) simp
      next
        case (WriteFailed k)
        with "1.prems" Cons have "out' = out @ take k (encode p)"
          by (simp add: writer_loop.simps [of "WriteFailed k # ws'" q] pop)
        then show ?thesis
          using x items
          by (intro exI [of _ "take k (encode p)"] exI [of _ "drop k (encode p) @ wire_image xs"])
            (simp flip: append_assoc)
      qed
    qed
  qed
qed

section \<open>Identifiers\<close>

text \<open>The ids the first \<open>n\<close> connections get, for a counter that starts at \<open>counter\<close>.\<close>

fun connection_ids :: "nat \<Rightarrow> u64 \<Rightarrow> connection_id list" where
  "connection_ids 0 counter = []"
| "connection_ids (Suc n) counter =
     (case next_connection_id counter of (cid, counter') \<Rightarrow> cid # connection_ids n counter')"

lemma connection_ids_eq: "connection_ids n counter = map (\<lambda>i. counter + of_nat i) [0..<n]"
  by (induction n arbitrary: counter)
    (auto simp: next_connection_id_def map_upt_Suc algebra_simps simp del: upt_Suc)

lemma connection_ids_distinct: "n \<le> 2 ^ 64 \<Longrightarrow> distinct (connection_ids n counter)"
proof -
  assume "n \<le> 2 ^ 64"
  then have "i = j" if "i < n" "j < n" "(of_nat i :: u64) = of_nat j" for i j
    using that by (simp add: of_nat_eq_iff take_bit_nat_eq_self word_of_nat_eq_iff)
  then show ?thesis by (auto simp: connection_ids_eq distinct_map inj_on_def)
qed

section \<open>Properties\<close>

text \<open>C8: How the network cuts the byte stream of a client does not matter: whatever the sizes of the
  reads, the reader does to the broker and to the queues what it does for any other way of cutting the
  same bytes.\<close>

theorem reader_ignores_chunk_boundaries:
  assumes "\<forall>c \<in> set cs. c \<noteq> []" and "\<forall>c \<in> set cs'. c \<noteq> []" and "concat cs = concat cs'"
  shows "reader_loop send cid h (map ReadBytes cs @ rs) [] s = reader_loop send cid h (map ReadBytes cs' @ rs) [] s"
  unfolding reader_loop_chunks [OF parse_stream_Nil assms(1)] reader_loop_chunks [OF parse_stream_Nil assms(2)]
    assms(3) ..

theorem reader_ignores_chunk_boundaries_witness:
  "reader_loop chan_send 1 0 (map ReadBytes [[0xC0], [0]]) [] (channel_new, \<lambda>_. queue_new 1) =
   reader_loop chan_send 1 0 (map ReadBytes [[0xC0, 0]]) [] (channel_new, \<lambda>_. queue_new 1)"
  using reader_ignores_chunk_boundaries [of "[[0xC0], [0]]" "[[0xC0, 0]]" chan_send 1 0 "[]"] by simp

text \<open>C3: A whole connection to the sharded broker: whatever bytes the client sends and however they are
  cut, once the stream ends or fails the handler's reader has returned without a panic, every shard has
  received exactly the messages of the decoded packets that concern it followed by one disconnect, in
  order, and of all queues only the connection's own, new one has changed, by the replies and by being
  closed. A handler whose socket cannot be cloned leaves the broker and the queues alone.\<close>

theorem session_reaches_the_shards:
  assumes "shards_up n txs" and "\<forall>c \<in> set cs. c \<noteq> []" and "e = ReadError \<or> e = ReadBytes []"
  shows "handle_connection (sharded_send hash) False h reads (cid, txs, st) = Ok (cid + 1, ReaderDone, txs, st) \<and>
    (\<exists>txs'. handle_connection (sharded_send hash) True h (map ReadBytes cs @ e # rs) (cid, txs, st) =
      Ok (cid + 1, ReaderDone, txs', st(h :=
        own_queue (session_actions cid h (concat cs)) (queue_new DEFAULT_CLIENT_QUEUE_CAPACITY))) \<and>
    (\<forall>i < n. shard_inbox txs' i = shard_inbox txs i @
       filter (concerns (owner hash n) i)
         (messages_of (concat (map (packet_actions cid h) (fst (parse_stream (concat cs))))) @ [DisconnectClient cid])))"
proof -
  let ?st = "st(h := queue_new DEFAULT_CLIENT_QUEUE_CAPACITY)"
  obtain txs' where r: "reader_loop (sharded_send hash) cid h (map ReadBytes cs @ e # rs) [] (txs, ?st) =
      Ok (ReaderDone, txs', ?st(h := own_queue (session_actions cid h (concat cs)) (?st h)))"
    and a: "\<And>i. shard_inbox txs' i = shard_inbox txs i @
      filter (\<lambda>m. i < n \<and> concerns (owner hash n) i m) (messages_of (session_actions cid h (concat cs)))"
    using shard_handle.session_usable [OF assms, of hash cid h rs ?st] by blast
  have "shard_inbox txs' i = shard_inbox txs i @ filter (concerns (owner hash n) i)
      (messages_of (concat (map (packet_actions cid h) (fst (parse_stream (concat cs))))) @ [DisconnectClient cid])"
    if "i < n" for i
    using a [of i] that by (simp add: session_actions_def)
  moreover have "handle_connection (sharded_send hash) True h (map ReadBytes cs @ e # rs) (cid, txs, st) =
      Ok (cid + 1, ReaderDone, txs', st(h :=
        own_queue (session_actions cid h (concat cs)) (queue_new DEFAULT_CLIENT_QUEUE_CAPACITY)))"
    using r by (simp add: handle_connection_def next_connection_id_def)
  ultimately show ?thesis
    by (simp add: handle_connection_def [of _ False] next_connection_id_def)
qed

theorem session_reaches_the_shards_witness:
  "\<exists>txs'. handle_connection (sharded_send (\<lambda>_. 0)) True 0 [ReadError] (1, [channel_new], \<lambda>_. queue_new 1) =
      Ok (2, ReaderDone, txs', (\<lambda>_. queue_new 1)(0 := close_queue (queue_new DEFAULT_CLIENT_QUEUE_CAPACITY))) \<and>
    shard_inbox txs' 0 = [DisconnectClient 1]"
proof -
  have "shards_up 1 [channel_new]" by (simp add: shards_up_def channel_new_def)
  from session_reaches_the_shards [OF this, of "[]" ReadError "\<lambda>_. 0" 0 "[]" 1 "\<lambda>_. queue_new 1" "[]"] show ?thesis
    by (simp add: session_actions_def end_actions_def shard_inbox_def channel_new_def)
qed


text \<open>C23: A stream of encoded packets, cut anywhere, is dispatched packet by packet in order: the reader
  that has read the encodings of \<open>ps\<close> has done the actions of \<open>ps\<close>, and waits for more with an empty
  buffer.\<close>

theorem reader_dispatches_encoded_packets:
  assumes "\<forall>p \<in> set ps. sendable p \<and> p \<noteq> Disconnect" and "\<forall>c \<in> set cs. c \<noteq> []"
    and "concat cs = concat (map encode ps)"
  shows "reader_loop send cid h (map ReadBytes cs) [] s =
    map_ok (Pair (Reading [])) (run_actions send h (concat (map (packet_actions cid h) ps)) s)"
proof -
  have "parse_stream (concat (map encode ps)) = (ps, StreamMore [])"
    using parse_stream_encode [OF assms(1), of "[]"] by simp
  then have "drain_packets send cid h (concat cs) s =
      map_ok (Pair (Reading [])) (run_actions send h (concat (map (packet_actions cid h) ps)) s)"
    by (simp add: drain_packets_actions assms(3) stream_actions_def)
  then show ?thesis
    using reader_loop_chunks [OF parse_stream_Nil assms(2), of send cid h "[]" s]
    by (cases "run_actions send h (concat (map (packet_actions cid h) ps)) s") simp_all
qed

theorem reader_dispatches_encoded_packets_witness:
  "reader_loop chan_send 1 0 (map ReadBytes [encode PingReq]) [] (channel_new, \<lambda>_. queue_new 1) =
     map_ok (Pair (Reading [])) (run_actions chan_send 0 [PushOut PingResp] (channel_new, \<lambda>_. queue_new 1))"
  using reader_dispatches_encoded_packets [of "[PingReq]" "[encode PingReq]" chan_send 1 0]
  by (simp add: sendable_def max_remaining_length_def encode_fixed_header_only_def)

text \<open>C31: The writer sends the queued packets completely and in order, then blocks, or ends if the queue
  is closed; whatever happens on the socket, it never sends anything but a prefix of that.\<close>

theorem writer_sends_the_queue_in_order:
  "writer_loop (replicate (length (items q)) Written) q out =
     (if closed q then WriterDone else WriterBlocked, q\<lparr>items := []\<rparr>, out @ wire_image (items q)) \<and>
   (\<exists>bs rest. snd (snd (writer_loop ws q out)) = out @ bs \<and> bs @ rest = wire_image (items q))"
proof
  show "\<exists>bs rest. snd (snd (writer_loop ws q out)) = out @ bs \<and> bs @ rest = wire_image (items q)"
    using writer_loop_prefix [of ws q out "fst (writer_loop ws q out)" "fst (snd (writer_loop ws q out))"
        "snd (snd (writer_loop ws q out))"] by simp
qed (rule writer_loop_all, simp)

end
