(* ===== verification/Client_Wire.thy ===== *)
theory Client_Wire
  imports Codec
begin

text \<open>
  The wire format of the command-line client (\<open>src/bin/blitzclient.rs\<close>), which shares no code with
  the broker's \<open>src/protocol.rs\<close>: its encoders, its packet reader and its decoders, and that the two
  sides understand each other. Names that the broker also uses carry the suffix \<open>_c\<close>. The texts of
  the client's \<open>String\<close> errors are constructors here, with the values the texts show.
\<close>

datatype client_error =
    LengthExceeds4 | LengthTruncated
  | StrPrefixTruncated nat nat | StrLengthOverflow | StrBodyTruncated nat nat | StrInvalidUtf8 nat nat
  | ReadHeaderFailed | ReadLengthFailed | LengthTooLong | ReadBodyFailed nat
  | ConnackTooShort nat | SubackTooShort nat | PublishIdTruncated nat nat | PublishIdZero
  | PubackTooShort nat
  | ConnectFailed | WriteFailedFor string | UnexpectedType u8 u8 | ConnackRefused u8 string
  | PubackMismatch u16 u16 | SubackMismatch u16 u16 | SubscriptionRefused string | NoReturnCodes

type_synonym 'a client_result = "(client_error, 'a) outcome"

section \<open>Wire-format helpers\<close>

function encode_rl_loop_c :: "u32 \<Rightarrow> bytes" where
  "encode_rl_loop_c len =
     (let encoded_byte = ucast (len mod 128) :: u8;
          len' = len div 128;
          encoded_byte' = (if 0 < len' then encoded_byte OR 0x80 else encoded_byte)
      in if len' = 0 then [encoded_byte'] else encoded_byte' # encode_rl_loop_c len')"
  by pat_completeness auto
termination
proof (relation "measure unat", goal_cases)
  case (2 x encoded_byte x' encoded_byte')
  then have "unat (x div 128) \<noteq> 0" by (simp only: unsigned_eq_0_iff not_False_eq_True)
  then have "unat x div 128 < unat x" by (simp add: unat_div)
  with 2 show ?case by (simp add: unat_div)
qed simp

declare encode_rl_loop_c.simps [simp del]

definition encode_remaining_length_c :: "u32 \<Rightarrow> bytes" where
  "encode_remaining_length_c len = encode_rl_loop_c len"

function decode_rl_loop_c :: "bytes \<Rightarrow> u32 \<Rightarrow> nat \<Rightarrow> (u32 \<times> nat) client_result" where
  "decode_rl_loop_c buf value i =
     (if 4 \<le> i then Err LengthExceeds4
      else if length buf \<le> i then Err LengthTruncated
      else and_then (idx buf i) (\<lambda>byte.
           and_then (pow_u32 128 i) (\<lambda>multiplier.
           and_then (mul_u32 (ucast byte AND 0x7F) multiplier) (\<lambda>part.
           and_then (add_u32 value part) (\<lambda>value'.
             if byte AND 0x80 = 0 then Ok (value', i + 1)
             else decode_rl_loop_c buf value' (i + 1))))))"
  by pat_completeness auto
termination
  by (relation "measure (\<lambda>(buf, value, i). 4 - i)") auto

declare decode_rl_loop_c.simps [simp del]

definition decode_remaining_length_c :: "bytes \<Rightarrow> (u32 \<times> nat) client_result" where
  "decode_remaining_length_c buf = decode_rl_loop_c buf 0 0"

definition encode_utf8_str :: "string \<Rightarrow> bytes \<Rightarrow> bytes" where
  "encode_utf8_str s out =
     (let bs = as_bytes s; len = of_nat (min (length bs) 65535) :: u16
      in out @ to_be_bytes len @ take (unat len) bs)"

definition decode_utf8_str :: "bytes \<Rightarrow> nat \<Rightarrow> (string \<times> nat) client_result" where
  "decode_utf8_str buf pos =
     (if length buf < pos + 2 then Err (StrPrefixTruncated pos (length buf))
      else and_then (idx buf pos) (\<lambda>hi. and_then (idx buf (pos + 1)) (\<lambda>lo.
        let str_len = unat (from_be_bytes hi lo); start = pos + 2 in
        and_then (ok_or StrLengthOverflow (usize_checked_add start str_len)) (\<lambda>stop.
        if length buf < stop then Err (StrBodyTruncated stop (length buf))
        else and_then (subslice buf start stop) (\<lambda>raw.
        and_then (ok_or (StrInvalidUtf8 start stop) (from_utf8 raw)) (\<lambda>s. Ok (s, stop)))))))"

definition make_packet :: "u8 \<Rightarrow> u8 \<Rightarrow> bytes \<Rightarrow> bytes" where
  "make_packet packet_type flags body =
     (push_bit 4 packet_type OR (flags AND 0x0F)) #
       encode_remaining_length_c (of_nat (length body)) @ body"

section \<open>Packet encoders\<close>

definition encode_connect_c :: "string \<Rightarrow> u16 \<Rightarrow> bytes" where
  "encode_connect_c client_id keep_alive =
     (let body = encode_utf8_str ''MQTT'' [];
          body = body @ [4];
          body = body @ [0x02];
          body = body @ to_be_bytes keep_alive;
          body = encode_utf8_str client_id body
      in make_packet PT_CONNECT 0 body)"

definition encode_subscribe_c :: "u16 \<Rightarrow> string \<Rightarrow> u8 \<Rightarrow> bytes" where
  "encode_subscribe_c packet_id flt qos =
     (let body = to_be_bytes packet_id;
          body = encode_utf8_str flt body;
          body = body @ [qos AND 0x03]
      in make_packet PT_SUBSCRIBE 2 body)"

definition encode_publish_c :: "string \<Rightarrow> bytes \<Rightarrow> u8 \<Rightarrow> u16 option \<Rightarrow> bytes" where
  "encode_publish_c topic payload qos packet_id =
     (let body = encode_utf8_str topic [];
          body = (if 0 < qos then
                    body @ to_be_bytes (case packet_id of Some pid \<Rightarrow> pid | None \<Rightarrow> 1)
                  else body);
          body = body @ payload;
          flags = push_bit 1 (qos AND 0x03)
      in make_packet PT_PUBLISH flags body)"

definition encode_disconnect_c :: bytes where
  "encode_disconnect_c = [push_bit 4 PT_DISCONNECT, 0x00]"

section \<open>Reading a packet\<close>

text \<open>
  The stream is the bytes that arrive before the connection ends; \<open>read_exact\<close> fails when there are
  not enough of them.
\<close>

definition read_exact :: "nat \<Rightarrow> bytes \<Rightarrow> (bytes \<times> bytes) option" where
  "read_exact n inp = (if n \<le> length inp then Some (take n inp, drop n inp) else None)"

fun read_length_bytes :: "bytes \<Rightarrow> bytes \<Rightarrow> (bytes \<times> bytes) client_result" where
  "read_length_bytes [] rl_bytes = Err ReadLengthFailed"
| "read_length_bytes (b # inp) rl_bytes =
     (let rl_bytes' = rl_bytes @ [b] in
      if b AND 0x80 = 0 then Ok (rl_bytes', inp)
      else if 4 \<le> length rl_bytes' then Err LengthTooLong
      else read_length_bytes inp rl_bytes')"

definition read_packet :: "bytes \<Rightarrow> ((u8 \<times> u8 \<times> bytes) \<times> bytes) client_result" where
  "read_packet inp =
     and_then (ok_or ReadHeaderFailed (read_exact 1 inp)) (\<lambda>(header, inp).
     and_then (idx header 0) (\<lambda>header_byte.
     let packet_type = drop_bit 4 header_byte; flags = header_byte AND 0x0F in
     and_then (read_length_bytes inp []) (\<lambda>(rl_bytes, inp).
     and_then (decode_remaining_length_c rl_bytes) (\<lambda>(remaining_len, _).
     let body_len = unat remaining_len in
     and_then (if 0 < body_len then ok_or (ReadBodyFailed body_len) (read_exact body_len inp)
               else Ok ([], inp)) (\<lambda>(body, inp).
     Ok ((packet_type, flags, body), inp))))))"

section \<open>Packet decoders\<close>

definition decode_connack_body :: "bytes \<Rightarrow> (bool \<times> u8) client_result" where
  "decode_connack_body body =
     (if length body < 2 then Err (ConnackTooShort (length body))
      else and_then (idx body 0) (\<lambda>b0. and_then (idx body 1) (\<lambda>b1. Ok (b0 AND 0x01 \<noteq> 0, b1))))"

definition decode_suback_body :: "bytes \<Rightarrow> (u16 \<times> u8 list) client_result" where
  "decode_suback_body body =
     (if length body < 3 then Err (SubackTooShort (length body))
      else and_then (idx body 0) (\<lambda>hi. and_then (idx body 1) (\<lambda>lo.
        and_then (slice_from body 2) (\<lambda>codes. Ok (from_be_bytes hi lo, codes)))))"

definition decode_publish_body :: "u8 \<Rightarrow> bytes \<Rightarrow> (string \<times> bytes \<times> u8 \<times> u16 option) client_result" where
  "decode_publish_body flags body =
     (let qos = drop_bit 1 flags AND 0x03 in
      and_then (decode_utf8_str body 0) (\<lambda>(topic, pos).
      and_then
        (if 0 < qos then
           if length body < pos + 2 then Err (PublishIdTruncated pos (length body))
           else and_then (idx body pos) (\<lambda>hi. and_then (idx body (pos + 1)) (\<lambda>lo.
             let pid = from_be_bytes hi lo in
             if pid = 0 then Err PublishIdZero else Ok (Some pid, pos + 2)))
         else Ok (None, pos)) (\<lambda>(packet_id, pos).
      and_then (slice_from body pos) (\<lambda>payload. Ok (topic, payload, qos, packet_id)))))"

definition decode_puback_body_c :: "bytes \<Rightarrow> u16 client_result" where
  "decode_puback_body_c body =
     (if length body < 2 then Err (PubackTooShort (length body))
      else and_then (idx body 0) (\<lambda>hi. and_then (idx body 1) (\<lambda>lo. Ok (from_be_bytes hi lo))))"

section \<open>The two codecs of the length field agree\<close>

lemma encode_rl_loop_c_eq: "encode_rl_loop_c n = encode_rl_loop n"
proof (induction n rule: encode_rl_loop_c.induct)
  case (1 n)
  then show ?case
    by (subst encode_rl_loop_c.simps, subst encode_rl_loop.simps) (simp add: Let_def)
qed

fun length_error :: "protocol_error \<Rightarrow> client_error" where
  "length_error Incomplete = LengthTruncated"
| "length_error _ = LengthExceeds4"

lemma map_err_and_then: "map_err f (and_then r g) = and_then (map_err f r) (\<lambda>x. map_err f (g x))"
  by (cases r) auto

lemma map_err_idx [simp]: "map_err f (idx xs i) = idx xs i"
  by (simp add: idx_def)

lemma map_err_arith [simp]:
  "map_err f (pow_u32 a n) = pow_u32 a n" "map_err f (mul_u32 a b) = mul_u32 a b"
  "map_err f (add_u32 a b) = add_u32 a b"
  by (simp_all add: pow_u32_def mul_u32_def add_u32_def)

lemma decode_rl_loop_c_eq: "decode_rl_loop_c buf v i = map_err length_error (decode_rl_loop buf v i)"
proof (induction "4 - i" arbitrary: v i rule: less_induct)
  case less
  show ?case
  proof (cases "4 \<le> i \<or> length buf \<le> i")
    case True
    then show ?thesis by (auto simp: decode_rl_loop_c.simps [of buf v i] decode_rl_loop.simps [of buf v i])
  next
    case False
    then have "decode_rl_loop_c buf v' (Suc i) = map_err length_error (decode_rl_loop buf v' (Suc i))" for v'
      by (intro less) linarith
    with False show ?thesis
      unfolding decode_rl_loop_c.simps [of buf v i] decode_rl_loop.simps [of buf v i]
      by (auto simp: map_err_and_then intro!: and_then_cong [OF refl])
  qed
qed

lemma decode_remaining_length_c_eq:
  "decode_remaining_length_c buf = map_err length_error (decode_remaining_length buf)"
  by (simp add: decode_remaining_length_c_def decode_remaining_length_def decode_rl_loop_c_eq)

lemma encode_remaining_length_c_eq: "encode_remaining_length_c n = encode_remaining_length n"
  by (simp add: encode_remaining_length_c_def encode_remaining_length_def encode_rl_loop_c_eq)

interpretation rlc: length_codec encode_remaining_length_c decode_remaining_length_c
  by unfold_locales
    (auto simp: decode_remaining_length_c_eq encode_remaining_length_c_eq rl.dec_enc rl.dec_no_panic
      rl.dec_extend dest: rl.dec_consumed)

section \<open>What the client sends is what the broker encodes\<close>

lemma encode_utf8_str_eq: "encode_utf8_str s out = out @ encode_utf8_string s"
  by (simp add: encode_utf8_str_def encode_utf8_string_def Let_def)

lemma make_packet_eq: "make_packet pt flags body = prepend_fixed_header pt flags body"
  by (simp add: make_packet_def prepend_fixed_header_def encode_remaining_length_c_eq)

lemmas client_encoders = encode_utf8_str_eq make_packet_eq Let_def

lemma encode_connect_c_eq:
  "encode_connect_c cid ka = encode (Connect \<lparr>protocol_name = ''MQTT'', protocol_level = 4,
     clean_session = True, keep_alive_secs = ka, connect_client_id = cid\<rparr>)"
  by (simp add: encode_connect_c_def encode_connect_def connect_body_def client_encoders)

lemma encode_subscribe_c_eq:
  "encode_subscribe_c pid f q =
     encode (Subscribe \<lparr>sub_packet_id = pid, subscriptions = [(f, q AND 3)]\<rparr>)"
  by (simp add: encode_subscribe_c_def encode_subscribe_def subscribe_body_def client_encoders)

lemma encode_publish_c_eq:
  assumes "q = 0 \<and> pid = None \<or> q = 1 \<and> pid \<noteq> None"
  shows "encode_publish_c t payload q pid =
    encode (Publish \<lparr>pub_topic = t, pub_payload = payload, pub_qos = q, pub_retain = False, pub_packet_id = pid\<rparr>)"
  using assms
  by (auto simp: encode_publish_c_def encode_publish_def publish_body_def publish_flags_def client_encoders)

lemma encode_disconnect_c_eq: "encode_disconnect_c = encode Disconnect"
  by (simp add: encode_disconnect_c_def encode_fixed_header_only_def)

section \<open>What the client reads\<close>

lemma read_length_bytes_spec:
  "n < 128 ^ Suc k \<Longrightarrow> length acc + k < 4 \<Longrightarrow>
   read_length_bytes (map of_nat (rl_encode_spec n) @ rest) acc = Ok (acc @ map of_nat (rl_encode_spec n), rest)"
proof (induction k arbitrary: n acc)
  case 0
  then show ?case
    by (simp add: rl_encode_spec.simps [of n] high_bit_iff unat_of_nat)
next
  case (Suc k)
  show ?case
  proof (cases "n < 128")
    case True
    then show ?thesis by (simp add: rl_encode_spec.simps [of n] high_bit_iff unat_of_nat)
  next
    case False
    let ?b = "of_nat (n mod 128 + 128) :: u8"
    have "n mod 128 + 128 < 256" by (simp add: add_mono_thms_linordered_field)
    then have "?b AND 0x80 \<noteq> 0" by (simp add: high_bit_iff unat_of_nat del: of_nat_add)
    moreover have "n div 128 < 128 ^ Suc k" using Suc.prems(1) by (simp add: less_mult_imp_div_less)
    ultimately show ?thesis
      using Suc.IH [of "n div 128" "acc @ [?b]"] Suc.prems False
      by (simp add: rl_encode_spec.simps [of n] del: of_nat_add)
  qed
qed

lemma read_length_bytes_encoded:
  assumes "unat n \<le> max_remaining_length"
  shows "read_length_bytes (encode_remaining_length n @ rest) [] = Ok (encode_remaining_length n, rest)"
proof -
  have "unat n < 128 ^ Suc 3" using assms by (simp add: max_remaining_length_def)
  from read_length_bytes_spec [OF this, of "[]" rest] show ?thesis
    by (simp add: encode_remaining_length_spec)
qed

text \<open>The client reads any framed packet back, and leaves what follows it in the stream.\<close>

lemma read_packet_framed:
  assumes "unat pt < 16" and "length body \<le> max_remaining_length"
  shows "read_packet (prepend_fixed_header pt flags body @ rest) = Ok ((pt, flags AND 0x0F, body), rest)"
proof -
  let ?n = "of_nat (length body) :: u32"
  have n: "unat ?n = length body" using assms(2) by (simp add: max_remaining_length_def unat_of_nat)
  have rl: "decode_remaining_length_c (encode_remaining_length ?n) = Ok (?n, length (encode_remaining_length ?n))"
    using rlc.dec_enc [of ?n "[]"] n assms(2) by (simp add: encode_remaining_length_c_eq)
  define b where "b = push_bit 4 pt OR (flags AND 0x0F)"
  have hdr: "drop_bit 4 b = pt" "b AND 0x0F = flags AND 0x0F"
    unfolding b_def by (rule header_type [OF assms(1)], rule header_flags)
  have pkt: "prepend_fixed_header pt flags body = b # encode_remaining_length ?n @ body"
    by (simp add: prepend_fixed_header_def b_def)
  show ?thesis
    using read_length_bytes_encoded [of ?n "body @ rest"] n assms(2) rl
    by (simp add: read_packet_def pkt read_exact_def Let_def hdr)
qed

lemma read_connack:
  "read_packet (encode_connack c @ rest) =
     Ok ((PT_CONNACK, 0, [if session_present c then 1 else 0, return_code_u8 (return_code c)]), rest)"
  by (simp add: encode_connack_def read_packet_framed packet_type_defs max_remaining_length_def)

lemma decode_connack_encoded:
  "decode_connack_body [if sp then 1 else 0, code] = Ok (sp, code)"
  by (simp add: decode_connack_body_def)

lemma read_suback:
  "length (return_codes c) + 2 \<le> max_remaining_length \<Longrightarrow>
   read_packet (encode_suback c @ rest) =
     Ok ((PT_SUBACK, 0, to_be_bytes (suback_packet_id c) @ return_codes c), rest)"
  by (simp add: encode_suback_def read_packet_framed packet_type_defs)

lemma decode_suback_encoded:
  "codes \<noteq> [] \<Longrightarrow> decode_suback_body (to_be_bytes pid @ codes) = Ok (pid, codes)"
  using from_to_be_bytes [of pid]
  by (cases codes) (simp_all add: decode_suback_body_def nth_append)

lemma read_puback:
  "read_packet (encode_puback c @ rest) = Ok ((PT_PUBACK, 0, to_be_bytes (puback_packet_id c)), rest)"
  by (simp add: encode_puback_def read_packet_framed packet_type_defs max_remaining_length_def)

lemma decode_puback_encoded: "decode_puback_body_c (to_be_bytes pid) = Ok pid"
  using from_to_be_bytes [of pid] by (simp add: decode_puback_body_c_def)

lemma read_publish:
  "length (publish_body p) \<le> max_remaining_length \<Longrightarrow>
   read_packet (encode_publish p @ rest) =
     Ok ((PT_PUBLISH, publish_flags p AND 0x0F, publish_body p), rest)"
  by (simp add: encode_publish_def read_packet_framed packet_type_defs)

lemma decode_utf8_str_eq: "decode_utf8_string buf = Ok (s, n) \<Longrightarrow> decode_utf8_str buf 0 = Ok (s, n)"
  by (auto simp: decode_utf8_string_def decode_utf8_str_def read_u16_def Let_def outcome_simps numeral_2_eq_2
      split: if_splits)

lemma decode_publish_body_encoded:
  assumes "publish_ok p"
  shows "decode_publish_body (publish_flags p AND 0x0F) (publish_body p) =
    Ok (pub_topic p, pub_payload p, pub_qos p, pub_packet_id p)"
proof -
  have t: "wire_str (pub_topic p)" using assms by (simp add: publish_ok_def)
  have q: "pub_qos p = 0 \<or> pub_qos p = 1" using assms by (auto simp: publish_ok_def split: option.splits)
  note bits = publish_flags_bits(1) [OF q]
  have len: "length (encode_utf8_string (pub_topic p)) = 2 + length (pub_topic p)"
    by (rule wire_str_decode(2) [OF t])
  have topic: "decode_utf8_str (publish_body p) 0 = Ok (pub_topic p, 2 + length (pub_topic p))"
    using wire_str_decode(1) [OF t] by (intro decode_utf8_str_eq) (simp add: publish_body_def)
  show ?thesis
  proof (cases "pub_packet_id p")
    case None
    then have "pub_qos p = 0" and body: "publish_body p = encode_utf8_string (pub_topic p) @ pub_payload p"
      using assms by (simp_all add: publish_ok_def publish_body_def)
    then show ?thesis
      unfolding decode_publish_body_def bits Let_def topic using len None by (simp add: body)
  next
    case (Some pid)
    then have q: "pub_qos p = 1" "pid \<noteq> 0"
      and body: "publish_body p = encode_utf8_string (pub_topic p) @ to_be_bytes pid @ pub_payload p"
      using assms by (simp_all add: publish_ok_def publish_body_def)
    let ?n = "2 + length (pub_topic p)"
    have hd: "from_be_bytes (publish_body p ! ?n) (publish_body p ! (?n + 1)) = pid"
      using from_to_be_bytes [of pid] len by (simp add: body nth_append)
    have l: "length (publish_body p) = ?n + 2 + length (pub_payload p)" using len by (simp add: body)
    moreover have "drop (?n + 2) (publish_body p) = pub_payload p" using len by (simp add: body)
    ultimately show ?thesis
      unfolding decode_publish_body_def bits Let_def topic using hd q Some by (simp del: from_be_bytes_eq_0_iff)
  qed
qed

section \<open>Nothing panics\<close>

lemma read_length_bytes_no_panic: "read_length_bytes inp acc \<noteq> Panic"
  by (induction inp acc rule: read_length_bytes.induct) (auto simp: Let_def)

lemma read_packet_no_panic: "read_packet inp \<noteq> Panic"
  by (auto simp: read_packet_def Let_def no_panic outcome_simps read_length_bytes_no_panic
      rlc.dec_no_panic read_exact_def split: if_splits prod.splits)

lemma decode_utf8_str_Ok: "decode_utf8_str buf pos = Ok (s, n) \<Longrightarrow> pos + 2 \<le> n \<and> n \<le> length buf"
  by (auto simp: decode_utf8_str_def Let_def outcome_simps split: if_splits)

lemma decode_utf8_str_no_panic: "decode_utf8_str buf pos \<noteq> Panic"
  by (auto simp: decode_utf8_str_def Let_def outcome_simps no_panic)

lemma decode_publish_body_no_panic: "decode_publish_body flags body \<noteq> Panic"
  by (auto simp: decode_publish_body_def Let_def outcome_simps no_panic decode_utf8_str_no_panic
      dest!: decode_utf8_str_Ok split: if_splits)

lemma decode_bodies_no_panic:
  "decode_connack_body body \<noteq> Panic" "decode_suback_body body \<noteq> Panic" "decode_puback_body_c body \<noteq> Panic"
  by (auto simp: decode_connack_body_def decode_suback_body_def decode_puback_body_c_def no_panic)

text \<open>A packet read takes at least its header and length bytes from the stream.\<close>

lemma read_length_bytes_shorter: "read_length_bytes inp acc = Ok (bs, rest) \<Longrightarrow> length rest < length inp"
  by (induction inp acc rule: read_length_bytes.induct) (auto simp: Let_def less_SucI split: if_splits)

lemma read_packet_shorter: "read_packet inp = Ok (r, rest) \<Longrightarrow> length rest + 2 \<le> length inp"
  by (auto simp: read_packet_def Let_def outcome_simps read_exact_def
      dest!: read_length_bytes_shorter split: if_splits)

section \<open>Properties\<close>

text \<open>C32: The client's encoders and the broker's agree byte for byte: CONNECT, SUBSCRIBE, PUBLISH at
  QoS 0 and QoS 1 and DISCONNECT of the client are what \<open>protocol.rs\<close> encodes for the same packet.\<close>

theorem client_encodes_like_the_broker:
  "encode_connect_c cid ka = encode (Connect \<lparr>protocol_name = ''MQTT'', protocol_level = 4,
     clean_session = True, keep_alive_secs = ka, connect_client_id = cid\<rparr>) \<and>
   encode_subscribe_c pid f q = encode (Subscribe \<lparr>sub_packet_id = pid, subscriptions = [(f, q AND 3)]\<rparr>) \<and>
   encode_publish_c t payload 0 None = encode (Publish \<lparr>pub_topic = t, pub_payload = payload, pub_qos = 0,
     pub_retain = False, pub_packet_id = None\<rparr>) \<and>
   encode_publish_c t payload 1 (Some pid) = encode (Publish \<lparr>pub_topic = t, pub_payload = payload, pub_qos = 1,
     pub_retain = False, pub_packet_id = Some pid\<rparr>) \<and>
   encode_disconnect_c = encode Disconnect"
  by (simp add: encode_connect_c_eq encode_subscribe_c_eq encode_disconnect_c_eq encode_publish_c_eq
      del: encode.simps)

text \<open>C33: The client reads back every packet the broker frames, and leaves what follows in the stream.\<close>

theorem client_reads_framed_packets:
  assumes "unat pt < 16" and "length body \<le> max_remaining_length"
  shows "read_packet (prepend_fixed_header pt flags body @ rest) = Ok ((pt, flags AND 0x0F, body), rest)"
  using assms by (rule read_packet_framed)

theorem client_reads_framed_packets_witness:
  "read_packet (prepend_fixed_header 13 0 [] @ [1, 2]) = Ok ((13, 0, []), [1, 2])"
  using client_reads_framed_packets [of 13 "[]" 0 "[1, 2]"] by simp

text \<open>C34: The client decodes a delivered publish to the topic, payload, QoS and packet id it was sent with.\<close>

theorem client_decodes_publishes:
  assumes "publish_ok p"
  shows "decode_publish_body (publish_flags p AND 0x0F) (publish_body p) =
    Ok (pub_topic p, pub_payload p, pub_qos p, pub_packet_id p)"
  using assms by (rule decode_publish_body_encoded)

theorem client_decodes_publishes_witness:
  "decode_publish_body (publish_flags \<lparr>pub_topic = ''a'', pub_payload = [9], pub_qos = 1, pub_retain = True,
      pub_packet_id = Some 5\<rparr> AND 0x0F)
     (publish_body \<lparr>pub_topic = ''a'', pub_payload = [9], pub_qos = 1, pub_retain = True, pub_packet_id = Some 5\<rparr>) =
   Ok (''a'', [9], 1, Some 5)"
  using client_decodes_publishes
    [of "\<lparr>pub_topic = ''a'', pub_payload = [9], pub_qos = 1, pub_retain = True, pub_packet_id = Some 5\<rparr>"]
  by (simp add: publish_ok_def is_wildcard_filter_def wire_str_def rust_str_def as_bytes_def)

end
