(* ===== verification/Client.thy ===== *)
theory Client
  imports Client_Wire Connection
begin

text \<open>
  The two modes of the command-line client (\<open>src/bin/blitzclient.rs\<close>): \<open>connect_to_broker\<close>, \<open>run_pub\<close>
  and \<open>run_sub\<close>, over a socket that holds the bytes still to arrive and those written. The last
  section runs them against what a broker connection answers.
\<close>

section \<open>Decimal numbers\<close>

definition digit_char :: "nat \<Rightarrow> char" where
  "digit_char d = char_of (48 + d)"

fun dec_string :: "nat \<Rightarrow> string" where
  "dec_string n = (if n < 10 then [digit_char n] else dec_string (n div 10) @ [digit_char (n mod 10)])"

declare dec_string.simps [simp del]

lemma length_dec_string: "n < 10 ^ Suc k \<Longrightarrow> length (dec_string n) \<le> Suc k"
proof (induction k arbitrary: n)
  case 0
  then show ?case by (simp add: dec_string.simps)
next
  case (Suc k)
  from Suc.prems have "n div 10 < 10 ^ Suc k" by (simp add: less_mult_imp_div_less)
  with Suc.IH show ?case by (subst dec_string.simps) simp
qed

definition ascii :: "string \<Rightarrow> bool" where
  "ascii s \<longleftrightarrow> (\<forall>c \<in> set s. of_char c < (128 :: nat))"

lemma ascii_rust_str: "ascii s \<Longrightarrow> rust_str s"
proof -
  assume "ascii s"
  then have "\<forall>b \<in> set (as_bytes s). b < 0x80"
    by (auto simp: ascii_def as_bytes_def word_less_nat_alt)
  then show ?thesis unfolding rust_str_def by (rule utf8_valid_ascii)
qed

lemma digit_char_ascii: "d < 10 \<Longrightarrow> of_char (digit_char d) < (128 :: nat)"
  by (simp add: digit_char_def)

lemma dec_string_ascii: "ascii (dec_string n)"
proof (induction n rule: dec_string.induct)
  case (1 n)
  then show ?case by (subst dec_string.simps) (auto simp: ascii_def digit_char_ascii)
qed

section \<open>The socket\<close>

text \<open>\<open>writes_left\<close> is how many more calls of \<open>write_all\<close> succeed.\<close>

record socket =
  inp :: bytes
  outp :: bytes
  writes_left :: nat

definition write_all :: "string \<Rightarrow> bytes \<Rightarrow> socket \<Rightarrow> socket client_result" where
  "write_all what bs s =
     (if writes_left s = 0 then Err (WriteFailedFor what)
      else Ok (s\<lparr>outp := outp s @ bs, writes_left := writes_left s - 1\<rparr>))"

definition recv_packet :: "socket \<Rightarrow> ((u8 \<times> u8 \<times> bytes) \<times> socket) client_result" where
  "recv_packet s = map_ok (\<lambda>(r, rest). (r, s\<lparr>inp := rest\<rparr>)) (read_packet (inp s))"

section \<open>Connecting\<close>

definition client_id_for :: "u32 \<Rightarrow> string" where
  "client_id_for pid = ''blitzclient-'' @ dec_string (unat pid)"

definition refusal_reason :: "u8 \<Rightarrow> string" where
  "refusal_reason code =
     (if code = 1 then ''unacceptable protocol version''
      else if code = 2 then ''identifier rejected''
      else if code = 3 then ''server unavailable''
      else if code = 4 then ''bad username or password''
      else if code = 5 then ''not authorized''
      else ''unknown return code'')"

definition connect_to_broker :: "bool \<Rightarrow> u32 \<Rightarrow> socket \<Rightarrow> socket client_result" where
  "connect_to_broker tcp_ok pid s =
     (if \<not> tcp_ok then Err ConnectFailed
      else and_then (write_all ''CONNECT'' (encode_connect_c (client_id_for pid) 60) s) (\<lambda>s.
        and_then (recv_packet s) (\<lambda>((pkt_type, flags, body), s).
        if pkt_type \<noteq> PT_CONNACK then Err (UnexpectedType PT_CONNACK pkt_type)
        else and_then (decode_connack_body body) (\<lambda>(present, code).
        if code \<noteq> 0x00 then Err (ConnackRefused code (refusal_reason code))
        else Ok s))))"

section \<open>Publishing\<close>

definition await_puback :: "u16 \<Rightarrow> socket \<Rightarrow> socket client_result" where
  "await_puback pid s =
     and_then (recv_packet s) (\<lambda>((pkt_type, flags, body), s).
     if pkt_type \<noteq> PT_PUBACK then Err (UnexpectedType PT_PUBACK pkt_type)
     else and_then (decode_puback_body_c body) (\<lambda>acked_pid.
     if acked_pid \<noteq> pid then Err (PubackMismatch pid acked_pid) else Ok s))"

definition run_pub :: "bool \<Rightarrow> u32 \<Rightarrow> string \<Rightarrow> string \<Rightarrow> u8 \<Rightarrow> socket \<Rightarrow> socket client_result" where
  "run_pub tcp_ok pid topic message qos s =
     and_then (connect_to_broker tcp_ok pid s) (\<lambda>s.
     let packet_id = (if qos = 1 then Some 1 else None) in
     and_then (write_all ''PUBLISH'' (encode_publish_c topic (as_bytes message) qos packet_id) s) (\<lambda>s.
     and_then (if qos = 1 then
                 (case packet_id of Some pid \<Rightarrow> await_puback pid s | None \<Rightarrow> Panic)
               else Ok s) (\<lambda>s.
     write_all ''DISCONNECT'' encode_disconnect_c s)))"

section \<open>Subscribing\<close>

text \<open>
  The receive loop prints every publish and ignores everything else, until reading fails. What is
  printed is kept as topic and payload; the code prints the payload through \<open>from_utf8_lossy\<close>.
\<close>

function receive_loop :: "bytes \<Rightarrow> (string \<times> bytes) list \<Rightarrow> (string \<times> bytes) list client_result" where
  "receive_loop stream printed =
     (case read_packet stream of
        Err e \<Rightarrow> Ok printed
      | Panic \<Rightarrow> Panic
      | Ok ((pkt_type, flags, body), rest) \<Rightarrow>
          if pkt_type = PT_PUBLISH then
            (case decode_publish_body flags body of
               Ok (topic, payload, qos, pid) \<Rightarrow> receive_loop rest (printed @ [(topic, payload)])
             | Err e \<Rightarrow> receive_loop rest printed
             | Panic \<Rightarrow> Panic)
          else receive_loop rest printed)"
  by pat_completeness auto
termination
  by (relation "measure (\<lambda>(stream, printed). length stream)") (auto dest!: read_packet_shorter)

declare receive_loop.simps [simp del]

definition SUB_PACKET_ID :: u16 where "SUB_PACKET_ID = 1"

definition run_sub :: "bool \<Rightarrow> u32 \<Rightarrow> string \<Rightarrow> socket \<Rightarrow> (string \<times> bytes) list client_result" where
  "run_sub tcp_ok pid flt s =
     and_then (connect_to_broker tcp_ok pid s) (\<lambda>s.
     and_then (write_all ''SUBSCRIBE'' (encode_subscribe_c SUB_PACKET_ID flt 0) s) (\<lambda>s.
     and_then (recv_packet s) (\<lambda>((pkt_type, flags, body), s).
     if pkt_type \<noteq> PT_SUBACK then Err (UnexpectedType PT_SUBACK pkt_type)
     else and_then (decode_suback_body body) (\<lambda>(suback_pid, codes).
     if suback_pid \<noteq> SUB_PACKET_ID then Err (SubackMismatch SUB_PACKET_ID suback_pid)
     else (case codes of
             [] \<Rightarrow> Err NoReturnCodes
           | rc # _ \<Rightarrow> if rc = 0x80 then Err (SubscriptionRefused flt)
                       else receive_loop (inp s) [])))))"

section \<open>The client never panics\<close>

lemma recv_packet_no_panic [no_panic]: "recv_packet s \<noteq> Panic"
  by (simp add: recv_packet_def read_packet_no_panic)

lemma write_all_no_panic [no_panic]: "write_all what bs s \<noteq> Panic"
  by (simp add: write_all_def)

lemma connect_to_broker_no_panic [no_panic]: "connect_to_broker ok pid s \<noteq> Panic"
  by (auto simp: connect_to_broker_def no_panic decode_bodies_no_panic)

lemma run_pub_no_panic: "run_pub ok pid topic message qos s \<noteq> Panic"
  by (auto simp: run_pub_def Let_def await_puback_def no_panic decode_bodies_no_panic outcome_simps split: if_splits)

lemma receive_loop_no_panic [no_panic]: "receive_loop stream printed \<noteq> Panic"
proof (induction stream printed rule: receive_loop.induct)
  case (1 stream printed)
  show ?case
  proof (cases "read_packet stream")
    case (Ok r)
    obtain pt fl body rest where r: "r = ((pt, fl, body), rest)" by (metis surj_pair)
    show ?thesis
    proof (cases "decode_publish_body fl body")
      case Panic
      then show ?thesis by (simp add: decode_publish_body_no_panic)
    qed (use Ok r 1 in \<open>auto simp: receive_loop.simps [of stream printed]\<close>)
  next
    case (Err e)
    then show ?thesis by (simp add: receive_loop.simps)
  next
    case Panic
    then show ?thesis by (simp add: read_packet_no_panic)
  qed
qed

lemma run_sub_no_panic: "run_sub ok pid flt s \<noteq> Panic"
  by (auto simp: run_sub_def no_panic decode_bodies_no_panic split: list.splits)

section \<open>The client and the broker together\<close>

lemma wire_str_client_id: "wire_str (client_id_for pid)"
proof -
  have "length (dec_string (unat pid)) \<le> Suc 9"
    using unat_u32_less [of pid] by (intro length_dec_string) (simp del: unat_u32_less)
  moreover have "ascii (client_id_for pid)"
    using dec_string_ascii [of "unat pid"] by (simp add: client_id_for_def ascii_def)
  ultimately show ?thesis
    by (simp add: wire_str_def ascii_rust_str) (simp add: client_id_for_def)
qed

definition connect_of :: "u32 \<Rightarrow> mqtt_packet" where
  "connect_of pid = Connect \<lparr>protocol_name = ''MQTT'', protocol_level = 4, clean_session = True,
     keep_alive_secs = 60, connect_client_id = client_id_for pid\<rparr>"

definition publish_of :: "string \<Rightarrow> string \<Rightarrow> u8 \<Rightarrow> publish_packet" where
  "publish_of topic message qos = \<lparr>pub_topic = topic, pub_payload = as_bytes message, pub_qos = qos,
     pub_retain = False, pub_packet_id = (if qos = 1 then Some 1 else None)\<rparr>"

definition subscribe_of :: "string \<Rightarrow> mqtt_packet" where
  "subscribe_of flt = Subscribe \<lparr>sub_packet_id = SUB_PACKET_ID, subscriptions = [(flt, 0)]\<rparr>"

definition accepted :: mqtt_packet where
  "accepted = ConnAck \<lparr>session_present = False, return_code = Accepted\<rparr>"

lemma sendable_connect: "sendable (connect_of pid)"
proof -
  have len: "length (client_id_for pid) \<le> 65535" using wire_str_client_id [of pid] by (simp add: wire_str_def)
  then have "length (connect_body \<lparr>protocol_name = ''MQTT'', protocol_level = 4, clean_session = True,
     keep_alive_secs = 60, connect_client_id = client_id_for pid\<rparr>) \<le> max_remaining_length"
    by (simp add: length_connect_body max_remaining_length_def)
  then show ?thesis by (simp add: connect_of_def sendable_def wire_str_client_id)
qed

lemma connect_accepted:
  "0 < writes_left s \<Longrightarrow> inp s = encode accepted @ rest \<Longrightarrow>
   connect_to_broker True pid s =
     Ok (s\<lparr>inp := rest, outp := outp s @ encode (connect_of pid), writes_left := writes_left s - 1\<rparr>)"
  by (cases s) (simp add: connect_to_broker_def write_all_def recv_packet_def accepted_def read_connack
      decode_connack_body_def encode_connect_c_eq connect_of_def)

text \<open>What the connection of a broker answers to a stream, in order.\<close>

fun replies_of :: "action list \<Rightarrow> mqtt_packet list" where
  "replies_of [] = []"
| "replies_of (PushOut p # as) = p # replies_of as"
| "replies_of (_ # as) = replies_of as"

lemma replies_of_append [simp]: "replies_of (as @ as') = replies_of as @ replies_of as'"
  by (induction as rule: replies_of.induct) auto

lemma items_own_queue:
  "length (items q) + length (replies_of as) \<le> capacity q \<Longrightarrow>
   items (own_queue as q) = items q @ map Packet (replies_of as)"
  by (induction as q rule: own_queue.induct) (auto simp: items_pushed close_queue_def)

lemma parse_stream_disconnect: "parse_stream (encode Disconnect) = ([Disconnect], StreamEnd)"
  using decode_encode [of Disconnect "[]"]
  by (simp add: parse_stream.simps [of "encode_fixed_header_only PT_DISCONNECT"] max_remaining_length_def)

lemma parse_stream_session:
  "\<forall>p \<in> set ps. sendable p \<and> p \<noteq> Disconnect \<Longrightarrow>
   parse_stream (concat (map encode (ps @ [Disconnect]))) = (ps @ [Disconnect], StreamEnd)"
  using parse_stream_encode [of ps "encode Disconnect"] parse_stream_disconnect by simp

definition publishable :: "string \<Rightarrow> string \<Rightarrow> u8 \<Rightarrow> bool" where
  "publishable topic message qos \<longleftrightarrow> wire_str topic \<and> topic \<noteq> [] \<and> \<not> is_wildcard_filter topic \<and>
     (qos = 0 \<or> qos = 1) \<and> length topic + length message + 4 \<le> max_remaining_length"

lemma sendable_publish: "publishable topic message qos \<Longrightarrow> sendable (Publish (publish_of topic message qos))"
  by (auto simp: publishable_def sendable_def publish_of_def publish_ok_def publish_body_def
      wire_str_decode(2))

lemma encode_publish_of:
  "qos = 0 \<or> qos = 1 \<Longrightarrow>
   encode_publish_c topic (as_bytes message) qos (if qos = 1 then Some 1 else None) =
     encode (Publish (publish_of topic message qos))"
  unfolding publish_of_def by (intro encode_publish_c_eq) auto

lemma await_puback_ok:
  "inp s = encode (PubAck \<lparr>puback_packet_id = pid\<rparr>) @ rest \<Longrightarrow> await_puback pid s = Ok (s\<lparr>inp := rest\<rparr>)"
  by (simp add: await_puback_def recv_packet_def read_puback decode_puback_encoded)

text \<open>The packets of a publishing client and what it is answered.\<close>

definition pub_packets :: "u32 \<Rightarrow> string \<Rightarrow> string \<Rightarrow> u8 \<Rightarrow> mqtt_packet list" where
  "pub_packets pid topic message qos = [connect_of pid, Publish (publish_of topic message qos), Disconnect]"

definition pub_answers :: "u8 \<Rightarrow> mqtt_packet list" where
  "pub_answers qos = accepted # (if qos = 1 then [PubAck \<lparr>puback_packet_id = 1\<rparr>] else [])"

lemma run_pub_ok:
  assumes "qos = 0 \<or> qos = 1" and "3 \<le> writes_left s"
    and "inp s = concat (map encode (pub_answers qos)) @ rest"
  shows "run_pub True pid topic message qos s =
    Ok (s\<lparr>inp := rest, outp := outp s @ concat (map encode (pub_packets pid topic message qos)),
          writes_left := writes_left s - 3\<rparr>)"
proof -
  let ?s1 = "s\<lparr>inp := concat (map encode (tl (pub_answers qos))) @ rest,
      outp := outp s @ encode (connect_of pid), writes_left := writes_left s - 1\<rparr>"
  let ?s2 = "?s1\<lparr>outp := outp s @ encode (connect_of pid) @ encode (Publish (publish_of topic message qos)),
      writes_left := writes_left s - 2\<rparr>"
  have 1: "connect_to_broker True pid s = Ok ?s1"
    using assms(2,3) by (intro connect_accepted) (simp_all add: pub_answers_def)
  have 2: "write_all ''PUBLISH'' (encode_publish_c topic (as_bytes message) qos (if qos = 1 then Some 1 else None)) ?s1
      = Ok ?s2"
    using assms(1,2) by (simp add: encode_publish_of write_all_def)
  have 3: "(if qos = 1 then (case (if qos = 1 then Some 1 else None) of Some pid \<Rightarrow> await_puback pid ?s2 | None \<Rightarrow> Panic)
      else Ok ?s2) = Ok (?s2\<lparr>inp := rest\<rparr>)"
    using assms(1) await_puback_ok [of ?s2 1 rest] by (auto simp: pub_answers_def)
  have 4: "write_all ''DISCONNECT'' encode_disconnect_c (?s2\<lparr>inp := rest\<rparr>) =
      Ok (s\<lparr>inp := rest, outp := outp s @ concat (map encode (pub_packets pid topic message qos)),
          writes_left := writes_left s - 3\<rparr>)"
    using assms(2) by (cases s) (simp add: write_all_def pub_packets_def encode_disconnect_c_eq)
  show ?thesis
    unfolding run_pub_def 1 and_then.simps Let_def 2 3 4 ..
qed

lemma pub_session:
  assumes "publishable topic message qos"
  shows "parse_stream (concat (map encode (pub_packets pid topic message qos))) =
      (pub_packets pid topic message qos, StreamEnd)"
    and "replies_of (session_actions cid h (concat (map encode (pub_packets pid topic message qos)))) =
      pub_answers qos"
    and "messages_of (session_actions cid h (concat (map encode (pub_packets pid topic message qos)))) =
      [Register cid (client_id_for pid) h, PublishFrom cid (publish_of topic message qos), DisconnectClient cid]"
proof -
  let ?ps = "[connect_of pid, Publish (publish_of topic message qos)]"
  have "\<forall>p \<in> set ?ps. sendable p \<and> p \<noteq> Disconnect"
    using sendable_connect sendable_publish [OF assms] by (simp add: connect_of_def)
  from parse_stream_session [OF this]
  show p: "parse_stream (concat (map encode (pub_packets pid topic message qos))) =
      (pub_packets pid topic message qos, StreamEnd)"
    by (simp add: pub_packets_def)
  show "replies_of (session_actions cid h (concat (map encode (pub_packets pid topic message qos)))) =
      pub_answers qos"
    unfolding session_actions_def p
    by (simp add: pub_packets_def pub_answers_def connect_of_def accepted_def end_actions_def publish_of_def)
  show "messages_of (session_actions cid h (concat (map encode (pub_packets pid topic message qos)))) =
      [Register cid (client_id_for pid) h, PublishFrom cid (publish_of topic message qos), DisconnectClient cid]"
    unfolding session_actions_def p
    by (simp add: pub_packets_def connect_of_def publish_of_def)
qed

section \<open>The receiving side\<close>

definition deliverable :: "publish_packet \<Rightarrow> bool" where
  "deliverable p \<longleftrightarrow> publish_ok p \<and> length (publish_body p) \<le> max_remaining_length"

lemma receive_loop_end: "receive_loop [] printed = Ok printed"
  by (simp add: receive_loop.simps read_packet_def read_exact_def)

lemma receive_loop_publishes:
  "\<forall>p \<in> set ps. deliverable p \<Longrightarrow>
   receive_loop (concat (map (\<lambda>p. encode (Publish p)) ps)) printed =
     Ok (printed @ map (\<lambda>p. (pub_topic p, pub_payload p)) ps)"
proof (induction ps arbitrary: printed)
  case Nil
  then show ?case by (simp add: receive_loop_end)
next
  case (Cons p ps)
  let ?rest = "concat (map (\<lambda>p. encode (Publish p)) ps)"
  have p: "deliverable p" using Cons.prems by simp
  then have "read_packet (encode_publish p @ ?rest) =
      Ok ((PT_PUBLISH, publish_flags p AND 0x0F, publish_body p), ?rest)"
    by (intro read_publish) (simp add: deliverable_def)
  moreover have "decode_publish_body (publish_flags p AND 0x0F) (publish_body p) =
      Ok (pub_topic p, pub_payload p, pub_qos p, pub_packet_id p)"
    using p by (intro decode_publish_body_encoded) (simp add: deliverable_def)
  ultimately have "receive_loop (encode_publish p @ ?rest) printed =
      receive_loop ?rest (printed @ [(pub_topic p, pub_payload p)])"
    by (subst receive_loop.simps) (simp del: encode.simps)
  with Cons show ?case by simp
qed

definition granted :: mqtt_packet where
  "granted = SubAck \<lparr>suback_packet_id = SUB_PACKET_ID, return_codes = [0]\<rparr>"

text \<open>The client up to its SUBACK, whatever comes as the packet after the CONNACK.\<close>

lemma run_sub_connected:
  assumes "2 \<le> writes_left s" and "inp s = encode accepted @ rest"
    and "read_packet rest = Ok ((pt, fl, body), rest')"
  shows "run_sub True pid flt s =
    (if pt \<noteq> PT_SUBACK then Err (UnexpectedType PT_SUBACK pt)
     else and_then (decode_suback_body body) (\<lambda>(suback_pid, codes).
       if suback_pid \<noteq> SUB_PACKET_ID then Err (SubackMismatch SUB_PACKET_ID suback_pid)
       else (case codes of
             [] \<Rightarrow> Err NoReturnCodes
           | rc # _ \<Rightarrow> if rc = 0x80 then Err (SubscriptionRefused flt) else receive_loop rest' [])))"
proof -
  have "connect_to_broker True pid s =
      Ok (s\<lparr>inp := rest, outp := outp s @ encode (connect_of pid), writes_left := writes_left s - 1\<rparr>)"
    using assms(1,2) by (intro connect_accepted) simp_all
  with assms(1,3) show ?thesis
    by (cases "decode_suback_body body")
      (auto simp: run_sub_def write_all_def recv_packet_def split: list.splits)
qed

lemma run_sub_ok:
  assumes "2 \<le> writes_left s" and "\<forall>p \<in> set ps. deliverable p"
    and "inp s = encode accepted @ encode granted @ concat (map (\<lambda>p. encode (Publish p)) ps)"
  shows "run_sub True pid flt s = Ok (map (\<lambda>p. (pub_topic p, pub_payload p)) ps)"
proof -
  let ?rest = "concat (map (\<lambda>p. encode (Publish p)) ps)"
  have "read_packet (encode granted @ ?rest) = Ok ((PT_SUBACK, 0, to_be_bytes SUB_PACKET_ID @ [0]), ?rest)"
    by (simp add: granted_def read_suback max_remaining_length_def)
  from run_sub_connected [OF assms(1,3) this, of pid flt] receive_loop_publishes [OF assms(2), of "[]"]
  show ?thesis by (simp add: decode_suback_encoded del: encode.simps)
qed

text \<open>A publish that arrives before the SUBACK ends the client with an error.\<close>

lemma run_sub_overtaken:
  assumes "2 \<le> writes_left s" and "deliverable p"
    and "inp s = encode accepted @ encode (Publish p) @ rest"
  shows "run_sub True pid flt s = Err (UnexpectedType PT_SUBACK PT_PUBLISH)"
proof -
  have "read_packet (encode (Publish p) @ rest) = Ok ((PT_PUBLISH, publish_flags p AND 0x0F, publish_body p), rest)"
    using assms(2) by (simp add: read_publish deliverable_def)
  from run_sub_connected [OF assms(1,3) this] show ?thesis by (simp add: packet_type_defs)
qed

section \<open>Properties\<close>

text \<open>C19: Publishing works end to end: for a valid topic and QoS the client, answered as the broker's
  connection answers it, ends successfully; the broker's reader, given the bytes the client wrote,
  decodes the three packets, queues exactly the answers the client consumed, and forwards the
  registration, the publish and the disconnect.\<close>

theorem publish_session_succeeds:
  assumes "publishable topic message qos"
  shows "\<exists>s'. run_pub True pid topic message qos
      \<lparr>inp = wire_image (items (own_queue (session_actions cid h
          (concat (map encode (pub_packets pid topic message qos)))) (queue_new DEFAULT_CLIENT_QUEUE_CAPACITY))),
       outp = [], writes_left = 3\<rparr> = Ok s' \<and>
    outp s' = concat (map encode (pub_packets pid topic message qos)) \<and> inp s' = [] \<and>
    parse_stream (outp s') = (pub_packets pid topic message qos, StreamEnd) \<and>
    messages_of (session_actions cid h (outp s')) =
      [Register cid (client_id_for pid) h, PublishFrom cid (publish_of topic message qos), DisconnectClient cid]"
proof -
  let ?w = "concat (map encode (pub_packets pid topic message qos))"
  have q: "qos = 0 \<or> qos = 1" using assms by (simp add: publishable_def)
  have "items (own_queue (session_actions cid h ?w) (queue_new DEFAULT_CLIENT_QUEUE_CAPACITY)) =
      map Packet (pub_answers qos)"
    using pub_session(2) [OF assms, of cid h pid]
    by (subst items_own_queue) (simp_all add: queue_new_def DEFAULT_CLIENT_QUEUE_CAPACITY_def pub_answers_def)
  then have "wire_image (items (own_queue (session_actions cid h ?w) (queue_new DEFAULT_CLIENT_QUEUE_CAPACITY))) =
      concat (map encode (pub_answers qos))"
    by (simp add: wire_image_def comp_def)
  with run_pub_ok [OF q, of "\<lparr>inp = concat (map encode (pub_answers qos)), outp = [], writes_left = 3\<rparr>" "[]" pid topic message]
    pub_session(1) [OF assms, of pid] pub_session(3) [OF assms, of cid h pid] show ?thesis by simp
qed

theorem publish_session_succeeds_witness:
  "\<exists>s'. run_pub True 42 ''a/b'' ''hi'' 1
      \<lparr>inp = wire_image (items (own_queue (session_actions 1 0
          (concat (map encode (pub_packets 42 ''a/b'' ''hi'' 1)))) (queue_new DEFAULT_CLIENT_QUEUE_CAPACITY))),
       outp = [], writes_left = 3\<rparr> = Ok s'"
proof -
  have "publishable ''a/b'' ''hi'' 1"
    by (simp add: publishable_def wire_str_def rust_str_def as_bytes_def is_wildcard_filter_def max_remaining_length_def)
  from publish_session_succeeds [OF this, of 42 1 0] show ?thesis by blast
qed

text \<open>C30: Subscribing works when the SUBACK comes first: the client then prints the topic and payload of
  every publish delivered, in order, until the connection ends.\<close>

theorem subscribe_session_prints_deliveries:
  assumes "\<forall>p \<in> set ps. deliverable p"
  shows "run_sub True pid flt
      \<lparr>inp = wire_image (map Packet (accepted # granted # map Publish ps)), outp = [], writes_left = 2\<rparr> =
    Ok (map (\<lambda>p. (pub_topic p, pub_payload p)) ps)"
  using assms by (intro run_sub_ok) (simp_all add: wire_image_def comp_def)

theorem subscribe_session_prints_deliveries_witness:
  "run_sub True 42 ''#'' \<lparr>inp = wire_image (map Packet (accepted # granted # map Publish
      [\<lparr>pub_topic = ''a'', pub_payload = [9], pub_qos = 0, pub_retain = False, pub_packet_id = None\<rparr>])),
      outp = [], writes_left = 2\<rparr> = Ok [(''a'', [9])]"
proof -
  have t: "wire_str ''a''" by (simp add: wire_str_def rust_str_def as_bytes_def)
  then have "deliverable \<lparr>pub_topic = ''a'', pub_payload = [9], pub_qos = 0, pub_retain = False, pub_packet_id = None\<rparr>"
    by (simp add: deliverable_def publish_ok_def is_wildcard_filter_def publish_body_def wire_str_decode(2)
        max_remaining_length_def)
  then show ?thesis
    using subscribe_session_prints_deliveries
      [of "[\<lparr>pub_topic = ''a'', pub_payload = [9], pub_qos = 0, pub_retain = False, pub_packet_id = None\<rparr>]" 42 "''#''"]
    by simp
qed

end
