(* ===== verification/Cli.thy ===== *)
theory Cli
  imports Client
begin

text \<open>
  The command lines: \<open>parse_args\<close> of the broker (\<open>src/main.rs\<close>) and of the client
  (\<open>src/bin/blitzclient.rs\<close>), with \<open>str::parse\<close> for unsigned integers. An argument list is what
  follows the program name; the loops' index is the position in that list. Warnings are not modelled,
  exits of the process are errors.
\<close>

section \<open>Parsing unsigned integers\<close>

text \<open>An optional plus sign, then digits, at least one; the value must be below \<open>bound\<close>.\<close>

definition is_digit :: "char \<Rightarrow> bool" where
  "is_digit c \<longleftrightarrow> 48 \<le> (of_char c :: nat) \<and> (of_char c :: nat) \<le> 57"

definition digits_value :: "string \<Rightarrow> nat" where
  "digits_value ds = foldl (\<lambda>v c. v * 10 + (of_char c - 48)) 0 ds"

definition parse_uint :: "nat \<Rightarrow> string \<Rightarrow> nat option" where
  "parse_uint bound s =
     (let ds = (case s of c # cs \<Rightarrow> (if c = CHR ''+'' then cs else s) | [] \<Rightarrow> []) in
      if ds \<noteq> [] \<and> list_all is_digit ds \<and> digits_value ds < bound then Some (digits_value ds) else None)"

lemma digit_char_digit: "d < 10 \<Longrightarrow> is_digit (digit_char d) \<and> of_char (digit_char d) - 48 = d"
  by (simp add: is_digit_def digit_char_def)

lemma dec_string_not_Nil [simp]: "dec_string n \<noteq> []"
  by (subst dec_string.simps) simp

lemma dec_string_digits: "list_all is_digit (dec_string n)"
proof (induction n rule: dec_string.induct)
  case (1 n)
  then show ?case by (subst dec_string.simps) (auto simp: digit_char_digit)
qed

lemma digits_value_dec_string: "digits_value (dec_string n) = n"
proof (induction n rule: dec_string.induct)
  case (1 n)
  show ?case
  proof (cases "n < 10")
    case True
    then show ?thesis by (simp add: dec_string.simps [of n] digits_value_def digit_char_digit)
  next
    case False
    with 1 show ?thesis by (simp add: dec_string.simps [of n] digits_value_def digit_char_digit)
  qed
qed

lemma parse_uint_dec_string: "n < bound \<Longrightarrow> parse_uint bound (dec_string n) = Some n"
proof -
  assume n: "n < bound"
  obtain c cs where c: "dec_string n = c # cs" by (metis dec_string_not_Nil neq_Nil_conv)
  then have "is_digit c" using dec_string_digits [of n] by simp
  then have "c \<noteq> CHR ''+''" by (auto simp: is_digit_def)
  with c n show ?thesis
    using dec_string_digits [of n] digits_value_dec_string [of n] by (simp add: parse_uint_def)
qed

lemma parse_uint_less: "parse_uint bound s = Some n \<Longrightarrow> n < bound"
  by (auto simp: parse_uint_def Let_def split: if_splits)

section \<open>The broker\<close>

definition NUM_BROKER_SHARDS :: nat where "NUM_BROKER_SHARDS = 4"

record config =
  conf_host :: string
  conf_port :: nat
  num_shards :: nat

definition default_config :: config where
  "default_config = \<lparr>conf_host = ''127.0.0.1'', conf_port = 1883, num_shards = NUM_BROKER_SHARDS\<rparr>"

definition set_port :: "string \<Rightarrow> config \<Rightarrow> config" where
  "set_port v cfg = (case parse_uint (2 ^ 16) v of Some p \<Rightarrow> cfg\<lparr>conf_port := p\<rparr> | None \<Rightarrow> cfg)"

definition set_shards :: "string \<Rightarrow> config \<Rightarrow> config" where
  "set_shards v cfg =
     (case parse_uint (2 ^ 64) v of
        Some n \<Rightarrow> if 1 \<le> n then cfg\<lparr>num_shards := n\<rparr> else cfg
      | None \<Rightarrow> cfg)"

fun parse_args_loop :: "config \<Rightarrow> string list \<Rightarrow> config" where
  "parse_args_loop cfg [] = cfg"
| "parse_args_loop cfg (a # args) =
     (if a = ''--host'' then
        (case args of v # args' \<Rightarrow> parse_args_loop (cfg\<lparr>conf_host := v\<rparr>) args' | [] \<Rightarrow> cfg)
      else if a = ''--port'' then
        (case args of v # args' \<Rightarrow> parse_args_loop (set_port v cfg) args' | [] \<Rightarrow> cfg)
      else if a = ''--shards'' then
        (case args of v # args' \<Rightarrow> parse_args_loop (set_shards v cfg) args' | [] \<Rightarrow> cfg)
      else parse_args_loop cfg args)"

definition parse_args :: "string list \<Rightarrow> config" where
  "parse_args args = parse_args_loop default_config args"

definition config_ok :: "config \<Rightarrow> bool" where
  "config_ok cfg \<longleftrightarrow> 1 \<le> num_shards cfg \<and> num_shards cfg < 2 ^ 64 \<and> conf_port cfg < 2 ^ 16"

lemma config_ok_updates:
  "config_ok cfg \<Longrightarrow> config_ok (cfg\<lparr>conf_host := v\<rparr>)"
  "config_ok cfg \<Longrightarrow> config_ok (set_port v cfg)"
  "config_ok cfg \<Longrightarrow> config_ok (set_shards v cfg)"
  by (auto simp: config_ok_def set_port_def set_shards_def dest: parse_uint_less split: option.split)

lemma parse_args_loop_ok: "config_ok cfg \<Longrightarrow> config_ok (parse_args_loop cfg args)"
  by (induction cfg args rule: parse_args_loop.induct) (simp_all add: config_ok_updates split: list.split)

lemma parse_args_ok: "config_ok (parse_args args)"
  unfolding parse_args_def
  by (rule parse_args_loop_ok) (simp add: config_ok_def default_config_def NUM_BROKER_SHARDS_def)

text \<open>The start of \<open>main\<close>: the configuration and the shards.\<close>

definition start_broker :: "string list \<Rightarrow> (unit, config \<times> channel list) outcome" where
  "start_broker args =
     (let cfg = parse_args args in map_ok (Pair cfg) (spawn_sharded_broker (num_shards cfg)))"

lemma start_broker_ok:
  "start_broker args = Ok (parse_args args, replicate (num_shards (parse_args args)) channel_new)"
  using parse_args_ok [of args] by (simp add: start_broker_def spawn_sharded_broker_def config_ok_def Let_def)

section \<open>The client\<close>

datatype subcommand = Pub string string u8 | Sub string

record cli =
  cli_host :: string
  cli_port :: nat
  cli_subcommand :: subcommand

datatype cli_exit =
    QosOutOfRange | HostRequired | PortRequired | TopicRequired | MessageRequired | FilterRequired
  | SubcommandRequired

record cli_state =
  st_host :: "string option"
  st_port :: "nat option"
  st_pub_topic :: "string option"
  st_message :: "string option"
  st_qos :: nat
  st_sub_filter :: "string option"
  st_subcmd :: "string option"

definition cli_start :: cli_state where
  "cli_start = \<lparr>st_host = None, st_port = None, st_pub_topic = None, st_message = None, st_qos = 0,
     st_sub_filter = None, st_subcmd = None\<rparr>"

text \<open>\<open>args.get(i)\<close> after \<open>i += 1\<close>: the next argument, if there is one.\<close>

definition next_arg :: "string list \<Rightarrow> string option" where
  "next_arg args = (case args of [] \<Rightarrow> None | v # _ \<Rightarrow> Some v)"

text \<open>The arms of the \<open>match\<close> on an argument.\<close>

datatype cli_flag = FPub | FSub | FHost | FPort | FTopic | FMessage | FQos | FOther

definition flag_of :: "string \<Rightarrow> cli_flag" where
  "flag_of a =
     (if a = ''pub'' then FPub else if a = ''sub'' then FSub
      else if a = ''--host'' then FHost else if a = ''--port'' then FPort
      else if a = ''--topic'' \<or> a = ''--filter'' then FTopic
      else if a = ''--message'' \<or> a = ''--msg'' then FMessage
      else if a = ''--qos'' then FQos else FOther)"

definition qos_arg :: "string list \<Rightarrow> nat" where
  "qos_arg args = (case Option.bind (next_arg args) (parse_uint (2 ^ 8)) of Some q \<Rightarrow> q | None \<Rightarrow> 0)"

fun cli_loop :: "cli_state \<Rightarrow> string list \<Rightarrow> (cli_exit, cli_state) outcome" where
  "cli_loop s [] = Ok s"
| "cli_loop s (a # args) =
     (case flag_of a of
        FPub \<Rightarrow> cli_loop (s\<lparr>st_subcmd := Some ''pub''\<rparr>) args
      | FSub \<Rightarrow> cli_loop (s\<lparr>st_subcmd := Some ''sub''\<rparr>) args
      | FHost \<Rightarrow> cli_loop (s\<lparr>st_host := next_arg args\<rparr>) (drop 1 args)
      | FPort \<Rightarrow> cli_loop (s\<lparr>st_port := Option.bind (next_arg args) (parse_uint (2 ^ 16))\<rparr>) (drop 1 args)
      | FTopic \<Rightarrow> cli_loop (s\<lparr>st_pub_topic := next_arg args, st_sub_filter := next_arg args\<rparr>) (drop 1 args)
      | FMessage \<Rightarrow> cli_loop (s\<lparr>st_message := next_arg args\<rparr>) (drop 1 args)
      | FQos \<Rightarrow>
          if 1 < qos_arg args then Err QosOutOfRange
          else cli_loop (s\<lparr>st_qos := qos_arg args\<rparr>) (drop 1 args)
      | FOther \<Rightarrow> cli_loop s args)"

definition parse_cli :: "string list \<Rightarrow> (cli_exit, cli) outcome" where
  "parse_cli args =
     and_then (cli_loop cli_start args) (\<lambda>s.
     and_then (ok_or HostRequired (st_host s)) (\<lambda>host.
     and_then (ok_or PortRequired (st_port s)) (\<lambda>port.
     and_then
       (if st_subcmd s = Some ''pub'' then
          and_then (ok_or TopicRequired (st_pub_topic s)) (\<lambda>topic.
          and_then (ok_or MessageRequired (st_message s)) (\<lambda>message.
          Ok (Pub topic message (of_nat (st_qos s)))))
        else if st_subcmd s = Some ''sub'' then
          and_then (ok_or FilterRequired (st_sub_filter s)) (\<lambda>flt. Ok (Sub flt))
        else Err SubcommandRequired) (\<lambda>cmd.
     Ok \<lparr>cli_host = host, cli_port = port, cli_subcommand = cmd\<rparr>))))"

text \<open>\<open>main\<close>: run the chosen mode; \<open>tcp_ok\<close> says whether the address accepts the connection.\<close>

definition client_main ::
    "(string \<Rightarrow> nat \<Rightarrow> bool) \<Rightarrow> u32 \<Rightarrow> socket \<Rightarrow> cli \<Rightarrow> unit client_result" where
  "client_main tcp_ok pid s c =
     (let ok = tcp_ok (cli_host c) (cli_port c) in
      case cli_subcommand c of
        Pub topic message qos \<Rightarrow> map_ok (\<lambda>_. ()) (run_pub ok pid topic message qos s)
      | Sub flt \<Rightarrow> map_ok (\<lambda>_. ()) (run_sub ok pid flt s))"

definition cli_state_ok :: "cli_state \<Rightarrow> bool" where
  "cli_state_ok s \<longleftrightarrow> st_qos s \<le> 1 \<and> (\<forall>p. st_port s = Some p \<longrightarrow> p < 2 ^ 16)"

lemma cli_state_ok_updates:
  "cli_state_ok s \<Longrightarrow> cli_state_ok (s\<lparr>st_subcmd := c\<rparr>)"
  "cli_state_ok s \<Longrightarrow> cli_state_ok (s\<lparr>st_host := v\<rparr>)"
  "cli_state_ok s \<Longrightarrow> cli_state_ok (s\<lparr>st_message := v\<rparr>)"
  "cli_state_ok s \<Longrightarrow> cli_state_ok (s\<lparr>st_pub_topic := v, st_sub_filter := v\<rparr>)"
  "cli_state_ok s \<Longrightarrow> q \<le> 1 \<Longrightarrow> cli_state_ok (s\<lparr>st_qos := q\<rparr>)"
  by (simp_all add: cli_state_ok_def)

lemma cli_state_ok_port:
  "cli_state_ok s \<Longrightarrow> cli_state_ok (s\<lparr>st_port := Option.bind (next_arg args) (parse_uint 65536)\<rparr>)"
  by (auto simp: cli_state_ok_def Option.bind_eq_Some_conv dest: parse_uint_less)

lemma cli_loop_ok: "cli_state_ok s \<Longrightarrow> cli_loop s args = Ok s' \<Longrightarrow> cli_state_ok s'"
proof (induction s args rule: cli_loop.induct)
  case (2 s a args)
  then show ?case
    by (cases "flag_of a") (auto simp: cli_state_ok_updates cli_state_ok_port split: if_splits)
qed simp

lemma cli_loop_no_panic: "cli_loop s args \<noteq> Panic"
proof (induction s args rule: cli_loop.induct)
  case (2 s a args)
  then show ?case by (cases "flag_of a") auto
qed simp

text \<open>
  What an accepted command line guarantees: a port, and for \<open>pub\<close> a QoS the client can publish with.
\<close>

lemma parse_cli_ok:
  assumes "parse_cli args = Ok c"
  shows "cli_port c < 2 ^ 16"
    and "cli_subcommand c = Pub t m q \<Longrightarrow> q = 0 \<or> q = 1"
proof -
  from assms obtain s where s: "cli_loop cli_start args = Ok s" "st_port s = Some (cli_port c)"
    and cmd: "cli_subcommand c = Pub t m q \<Longrightarrow> q = of_nat (st_qos s)"
    by (auto simp: parse_cli_def outcome_simps split: if_splits)
  have "cli_state_ok cli_start" by (simp add: cli_state_ok_def cli_start_def)
  from cli_loop_ok [OF this s(1)] have ok: "cli_state_ok s" .
  with s(2) show "cli_port c < 2 ^ 16" by (simp add: cli_state_ok_def)
  show "cli_subcommand c = Pub t m q \<Longrightarrow> q = 0 \<or> q = 1"
    using cmd ok by (auto simp: cli_state_ok_def le_Suc_eq)
qed

section \<open>Properties\<close>



end
