(* ===== verification/Server.thy ===== *)
theory Server
  imports Cluster Client
begin

text \<open>
  The whole broker: connections are accepted and read, their readers perform one action at a time,
  shards handle messages, writers take packets from the queues, in any interleaving. What
  \<open>Cluster\<close> assumes of the messages sent holds here by construction: they come from decoded packets,
  and each connection has its own queue.
\<close>

section \<open>State and steps\<close>

record conn =
  conn_handle :: handle
  conn_buf :: bytes
  conn_todo :: "action list"   \<comment> \<open>what the reader has decoded and not yet done\<close>
  conn_done :: bool             \<comment> \<open>the reader will read no more\<close>

record server =
  sv_cluster :: cluster
  sv_conns :: "connection_id \<rightharpoonup> conn"
  sv_counter :: u64
  sv_handles :: nat              \<comment> \<open>queues allocated so far\<close>

definition server_init :: "channel list \<Rightarrow> server" where
  "server_init txs =
     \<lparr>sv_cluster = cluster_init txs (\<lambda>_. queue_new 0), sv_conns = Map.empty, sv_counter = 1, sv_handles = 0\<rparr>"

datatype server_event =
    Accept connection_id
  | Receive connection_id bytes
  | HangUp connection_id
  | Act connection_id action
  | Shard nat broker_message
  | Write connection_id outbound_event

definition set_queue :: "handle \<Rightarrow> outbound_event queue \<Rightarrow> cluster \<Rightarrow> cluster" where
  "set_queue h q c = c\<lparr>cl_store := (cl_store c)(h := q)\<rparr>"

definition do_accept :: "server \<Rightarrow> server" where
  "do_accept s =
     (let (cid, counter) = next_connection_id (sv_counter s); h = sv_handles s in
      s\<lparr>sv_cluster := set_queue h (queue_new DEFAULT_CLIENT_QUEUE_CAPACITY) (sv_cluster s),
        sv_conns := (sv_conns s)(cid \<mapsto> \<lparr>conn_handle = h, conn_buf = [], conn_todo = [], conn_done = False\<rparr>),
        sv_counter := counter, sv_handles := Suc h\<rparr>)"

definition do_receive :: "connection_id \<Rightarrow> conn \<Rightarrow> bytes \<Rightarrow> server \<Rightarrow> server" where
  "do_receive cid c bs s =
     (let r = parse_stream (conn_buf c @ bs) in
      s\<lparr>sv_conns := (sv_conns s)(cid \<mapsto>
         c\<lparr>conn_buf := (case snd r of StreamMore rest \<Rightarrow> rest | StreamEnd \<Rightarrow> []),
           conn_todo := stream_actions cid (conn_handle c) r,
           conn_done := (snd r = StreamEnd)\<rparr>)\<rparr>)"

definition do_hang_up :: "connection_id \<Rightarrow> conn \<Rightarrow> server \<Rightarrow> server" where
  "do_hang_up cid c s =
     s\<lparr>sv_conns := (sv_conns s)(cid \<mapsto> c\<lparr>conn_todo := end_actions cid, conn_done := True\<rparr>)\<rparr>"

fun perform :: "(string \<Rightarrow> u64) \<Rightarrow> handle \<Rightarrow> action \<Rightarrow> cluster \<Rightarrow> cluster" where
  "perform hash h (SendMsg m) c = after_send hash m c"
| "perform hash h (PushOut p) c = set_queue h (pushed (cl_store c h) (Packet p)) c"
| "perform hash h CloseOut c = set_queue h (close_queue (cl_store c h)) c"

definition do_act :: "(string \<Rightarrow> u64) \<Rightarrow> connection_id \<Rightarrow> conn \<Rightarrow> action \<Rightarrow> action list \<Rightarrow> server \<Rightarrow> server" where
  "do_act hash cid c a as s =
     s\<lparr>sv_cluster := perform hash (conn_handle c) a (sv_cluster s),
       sv_conns := (sv_conns s)(cid \<mapsto> c\<lparr>conn_todo := as\<rparr>)\<rparr>"

definition do_write :: "handle \<Rightarrow> server \<Rightarrow> server" where
  "do_write h s =
     s\<lparr>sv_cluster := set_queue h (snd (pop_blocking (cl_store (sv_cluster s) h))) (sv_cluster s)\<rparr>"

inductive server_step :: "(string \<Rightarrow> u64) \<Rightarrow> server \<Rightarrow> server_event \<Rightarrow> server \<Rightarrow> bool"
  for hash :: "string \<Rightarrow> u64" where
  accept: "server_step hash s (Accept (fst (next_connection_id (sv_counter s)))) (do_accept s)"
| receive: "sv_conns s cid = Some c \<Longrightarrow> conn_todo c = [] \<Longrightarrow> \<not> conn_done c \<Longrightarrow> bs \<noteq> [] \<Longrightarrow>
    server_step hash s (Receive cid bs) (do_receive cid c bs s)"
| hang_up: "sv_conns s cid = Some c \<Longrightarrow> conn_todo c = [] \<Longrightarrow> \<not> conn_done c \<Longrightarrow>
    server_step hash s (HangUp cid) (do_hang_up cid c s)"
| act: "sv_conns s cid = Some c \<Longrightarrow> conn_todo c = a # as \<Longrightarrow>
    server_step hash s (Act cid a) (do_act hash cid c a as s)"
| shard_step: "cluster_step hash (sv_cluster s) (Handled i m) c' \<Longrightarrow>
    server_step hash s (Shard i m) (s\<lparr>sv_cluster := c'\<rparr>)"
| write_step: "sv_conns s cid = Some c \<Longrightarrow>
    fst (pop_blocking (cl_store (sv_cluster s) (conn_handle c))) = PopItem e \<Longrightarrow>
    server_step hash s (Write cid e) (do_write (conn_handle c) s)"

inductive server_run :: "(string \<Rightarrow> u64) \<Rightarrow> server \<Rightarrow> server_event list \<Rightarrow> server \<Rightarrow> bool"
  for hash :: "string \<Rightarrow> u64" where
  sv_nil: "server_run hash s [] s"
| sv_snoc: "server_run hash s es s' \<Longrightarrow> server_step hash s' e s'' \<Longrightarrow> server_run hash s (es @ [e]) s''"

inductive_cases shard_stepE: "server_step hash s (Shard i m) s'"

section \<open>Invariant\<close>

text \<open>The id of a connection is the counter when its queue was allocated.\<close>

definition id_of :: "handle \<Rightarrow> connection_id" where
  "id_of h = 1 + of_nat h"

fun message_inv :: "broker_message \<Rightarrow> bool" where
  "message_inv (Register i c h) \<longleftrightarrow> i = id_of h"
| "message_inv (PublishFrom i p) \<longleftrightarrow> publish_ok p"
| "message_inv (SubscribeTo i f) \<longleftrightarrow> filter_ok f"
| "message_inv (UnsubscribeFrom i f) \<longleftrightarrow> filter_ok f"
| "message_inv (DisconnectClient i) \<longleftrightarrow> True"

definition conn_inv :: "connection_id \<Rightarrow> conn \<Rightarrow> bool" where
  "conn_inv cid c \<longleftrightarrow> cid = id_of (conn_handle c) \<and> (\<forall>m \<in> set (messages_of (conn_todo c)). message_inv m)"

definition server_inv :: "(string \<Rightarrow> u64) \<Rightarrow> nat \<Rightarrow> server \<Rightarrow> bool" where
  "server_inv hash n s \<longleftrightarrow> cluster_inv hash n (sv_cluster s) \<and> shards_inv (sv_cluster s) \<and>
     (\<forall>m \<in> set (cl_sent (sv_cluster s)). message_inv m) \<and>
     (\<forall>cid c. sv_conns s cid = Some c \<longrightarrow> conn_inv cid c) \<and>
     sv_counter s = id_of (sv_handles s)"

lemma subscription_messages:
  "m \<in> set (messages_of (map (\<lambda>(t, q). SendMsg (SubscribeTo cid t)) xs)) \<longleftrightarrow>
     (\<exists>t q. (t, q) \<in> set xs \<and> m = SubscribeTo cid t)"
  by (induction xs) force+

lemma unsubscription_messages:
  "m \<in> set (messages_of (map (\<lambda>t. SendMsg (UnsubscribeFrom cid t)) ts)) \<longleftrightarrow>
     (\<exists>t \<in> set ts. m = UnsubscribeFrom cid t)"
  by (induction ts) auto

lemma packet_messages_inv:
  "client_packet p \<Longrightarrow> cid = id_of h \<Longrightarrow> m \<in> set (messages_of (packet_actions cid h p)) \<Longrightarrow> message_inv m"
  by (cases p) (auto simp: subscription_messages unsubscription_messages split: option.splits if_splits)

lemma stream_messages_inv:
  assumes "cid = id_of h" and "m \<in> set (messages_of (stream_actions cid h (parse_stream bs)))"
  shows "message_inv m"
proof -
  have "m \<in> set (messages_of (concat (map (packet_actions cid h) ps))) \<Longrightarrow> \<forall>p \<in> set ps. client_packet p \<Longrightarrow>
      message_inv m" for ps
    using packet_messages_inv [OF _ assms(1)] by (induction ps) auto
  with parse_stream_packets [of _ bs] assms(2) show ?thesis
    by (auto simp: stream_actions_def end_actions_def split: stream_end.splits)
qed

lemma message_inv_ok: "message_inv m \<Longrightarrow> message_ok m"
  by (cases m) (auto simp: publish_ok_def)

lemma sent_ok_inv: "\<forall>m \<in> set ms. message_inv m \<Longrightarrow> sent_ok ms"
  unfolding sent_ok_def
proof (intro conjI allI impI)
  assume inv: "\<forall>m \<in> set ms. message_inv m"
  then show "\<forall>m \<in> set ms. message_ok m" using message_inv_ok by blast
  fix i c h j d assume "Register i c h \<in> set ms \<and> Register j d h \<in> set ms"
  with inv have "i = id_of h" and "j = id_of h" by (metis message_inv.simps(1))+
  then show "i = j" by simp
qed

lemma set_queue_inv [simp]:
  "cluster_inv hash n (set_queue h q c) = cluster_inv hash n c" "shards_inv (set_queue h q c) = shards_inv c"
  "cl_sent (set_queue h q c) = cl_sent c"
  by (simp_all add: set_queue_def cluster_inv_def shards_inv_def)

lemma perform_inv:
  "cluster_inv hash n c \<Longrightarrow> cluster_inv hash n (perform hash h a c)"
  "shards_inv c \<Longrightarrow> shards_inv (perform hash h a c)"
  "set (cl_sent (perform hash h a c)) = set (messages_of [a]) \<union> set (cl_sent c)"
proof -
  have send: "shards_inv (after_send hash m c) = shards_inv c" "cl_sent (after_send hash m c) = cl_sent c @ [m]" for m
    by (simp_all add: after_send_def shards_inv_def)
  show "cluster_inv hash n c \<Longrightarrow> cluster_inv hash n (perform hash h a c)"
    by (cases a) (simp_all add: cluster_inv_send)
  show "shards_inv c \<Longrightarrow> shards_inv (perform hash h a c)"
    by (cases a) (simp_all add: send)
  show "set (cl_sent (perform hash h a c)) = set (messages_of [a]) \<union> set (cl_sent c)"
    by (cases a) (simp_all add: send)
qed

lemma server_inv_init:
  assumes "spawn_sharded_broker n = Ok txs"
  shows "server_inv hash n (server_init txs)"
  using cluster_inv_init [OF assms, of hash "\<lambda>_. queue_new 0"]
  by (simp add: server_inv_def server_init_def shards_inv_init id_of_def) (simp add: cluster_init_def)

lemma server_inv_act:
  assumes "server_inv hash n s" and "sv_conns s cid = Some c" and "conn_todo c = a # as"
  shows "server_inv hash n (do_act hash cid c a as s)"
proof -
  from assms(1,2) have c: "conn_inv cid c" by (simp add: server_inv_def)
  have "set (messages_of (a # as)) = set (messages_of [a]) \<union> set (messages_of as)" by (cases a) auto
  with c assms(3) have "\<forall>m \<in> set (messages_of [a]). message_inv m" and "conn_inv cid (c\<lparr>conn_todo := as\<rparr>)"
    by (auto simp: conn_inv_def)
  with assms(1) show ?thesis
    by (auto simp: server_inv_def do_act_def perform_inv)
qed

lemma server_inv_conn:
  "server_inv hash n s \<Longrightarrow> conn_inv cid c \<Longrightarrow> server_inv hash n (s\<lparr>sv_conns := (sv_conns s)(cid \<mapsto> c)\<rparr>)"
  by (simp add: server_inv_def)

lemma server_inv_step:
  assumes "server_step hash s e s'" and "server_inv hash n s"
  shows "server_inv hash n s'"
  using assms
proof (induction rule: server_step.induct)
  case (accept s)
  then show ?case
    by (auto simp: server_inv_def do_accept_def next_connection_id_def conn_inv_def id_of_def Let_def)
next
  case (receive s cid c bs)
  then have "cid = id_of (conn_handle c)" by (simp add: server_inv_def conn_inv_def)
  then have "message_inv m" if "m \<in> set (messages_of (stream_actions cid (conn_handle c) (parse_stream bs')))" for m bs'
    using stream_messages_inv that by blast
  with \<open>cid = _\<close> show ?case
    unfolding do_receive_def Let_def by (intro server_inv_conn receive.prems) (simp add: conn_inv_def)
next
  case (hang_up s cid c)
  then have "conn_inv cid (c\<lparr>conn_todo := end_actions cid, conn_done := True\<rparr>)"
    by (simp add: server_inv_def conn_inv_def)
  with hang_up show ?case unfolding do_hang_up_def by (intro server_inv_conn)
next
  case (act s cid c a as)
  then show ?case by (intro server_inv_act)
next
  case (shard_step s i m c')
  have "cl_sent c' = cl_sent (sv_cluster s)"
    using shard_step(1) by cases (simp add: after_handle_def split_beta)
  moreover have "shards_inv c'"
    using shard_step message_inv_ok by (intro shards_inv_step [OF shard_step(1)]) (auto simp: server_inv_def)
  ultimately show ?case
    using shard_step cluster_inv_step [OF shard_step(1)] by (simp add: server_inv_def)
next
  case (write_step s cid c e)
  then show ?case by (simp add: server_inv_def do_write_def)
qed

lemma server_inv_run:
  "server_run hash s es s' \<Longrightarrow> server_inv hash n s \<Longrightarrow> server_inv hash n s'"
  by (induction rule: server_run.induct) (auto intro: server_inv_step)

lemma server_reachable:
  "spawn_sharded_broker n = Ok txs \<Longrightarrow> server_run hash (server_init txs) es s \<Longrightarrow> server_inv hash n s"
  using server_inv_init server_inv_run by blast

section \<open>A retained message that overtakes the SUBACK\<close>

text \<open>A schedule, step by step; \<open>None\<close> if a step is not possible.\<close>

datatype command = DoAccept | DoReceive connection_id bytes | DoAct connection_id | DoShard nat "string list"

fun drive :: "(string \<Rightarrow> u64) \<Rightarrow> command list \<Rightarrow> server \<Rightarrow> server option" where
  "drive hash [] s = Some s"
| "drive hash (DoAccept # cs) s = drive hash cs (do_accept s)"
| "drive hash (DoReceive cid bs # cs) s =
     (case sv_conns s cid of
        None \<Rightarrow> None
      | Some c \<Rightarrow> if conn_todo c = [] \<and> \<not> conn_done c \<and> bs \<noteq> [] then drive hash cs (do_receive cid c bs s) else None)"
| "drive hash (DoAct cid # cs) s =
     (case sv_conns s cid of
        None \<Rightarrow> None
      | Some c \<Rightarrow> (case conn_todo c of [] \<Rightarrow> None | a # as \<Rightarrow> drive hash cs (do_act hash cid c a as s)))"
| "drive hash (DoShard i ks # cs) s =
     (if i < length (cl_shards (sv_cluster s)) then
       (case inbox (cl_chans (sv_cluster s) ! i) of
          [] \<Rightarrow> None
        | m # ms \<Rightarrow> if handler_order (cl_shards (sv_cluster s) ! i) m ks
                    then drive hash cs (s\<lparr>sv_cluster := after_handle i ks m ms (sv_cluster s)\<rparr>) else None)
      else None)"

lemma drive_run:
  "drive hash cs s = Some s' \<Longrightarrow> server_run hash s0 es s \<Longrightarrow> \<exists>es'. server_run hash s0 (es @ es') s'"
proof (induction hash cs s arbitrary: es rule: drive.induct)
  case (1 hash s)
  then show ?case by (intro exI [of _ "[]"]) simp
next
  case (2 hash cs s)
  from 2(1) [OF _ sv_snoc [OF 2(3) accept]] 2(2) show ?case by auto
next
  case (3 hash cid bs cs s)
  then obtain c where c: "sv_conns s cid = Some c" "conn_todo c = []" "\<not> conn_done c" "bs \<noteq> []"
    "drive hash cs (do_receive cid c bs s) = Some s'"
    by (auto split: option.splits if_splits)
  from 3(1) [OF c(1) _ c(5) sv_snoc [OF 3(3) receive [OF c(1-4)]]] c show ?case by auto
next
  case (4 hash cid cs s)
  then obtain c a as where c: "sv_conns s cid = Some c" "conn_todo c = a # as"
    "drive hash cs (do_act hash cid c a as s) = Some s'"
    by (auto split: option.splits list.splits)
  from 4(1) [OF c(1,2,3) sv_snoc [OF 4(3) act [OF c(1,2)]]] show ?case by auto
next
  case (5 hash i ks cs s)
  then obtain m ms where m: "i < length (cl_shards (sv_cluster s))" "inbox (cl_chans (sv_cluster s) ! i) = m # ms"
    "handler_order (cl_shards (sv_cluster s) ! i) m ks"
    "drive hash cs (s\<lparr>sv_cluster := after_handle i ks m ms (sv_cluster s)\<rparr>) = Some s'"
    by (auto split: list.splits if_splits)
  from 5(1) [OF m(1-4) sv_snoc [OF 5(3) shard_step [OF cl_handle [OF m(1-3)]]]] show ?case by auto
qed

lemma single_shard_send:
  "chan_open ch \<Longrightarrow> snd (sharded_send hash m [ch]) = [ch\<lparr>inbox := inbox ch @ [m]\<rparr>]"
  by (cases m) (auto simp: sharded_send_def broadcast_map chan_send_def shard_for_topic_def split: if_splits)

definition race_publish :: publish_packet where
  "race_publish = \<lparr>pub_topic = ''t'', pub_payload = [1], pub_qos = 0, pub_retain = True, pub_packet_id = None\<rparr>"

definition race_schedule :: "bytes \<Rightarrow> bytes \<Rightarrow> command list" where
  "race_schedule pub sub =
     [DoAccept, DoAccept, DoReceive 1 pub, DoAct 1, DoShard 0 [],
      DoReceive 2 sub, DoAct 2, DoShard 0 [], DoAct 2, DoAct 2, DoShard 0 [''t''], DoAct 2]"

lemma race_drive:
  assumes "parse_stream pub = ([Publish race_publish], StreamMore [])"
    and "parse_stream sub = ([connect_of pid, subscribe_of ''t''], StreamMore [])"
    and "pub \<noteq> []" "sub \<noteq> []"
  shows "\<exists>s. drive hash (race_schedule pub sub) (server_init [channel_new]) = Some s \<and>
    items (cl_store (sv_cluster s) 1) = map Packet [accepted, Publish race_publish, granted]"
proof -
  have w: "\<not> is_wildcard_filter ''t''" by (simp add: is_wildcard_filter_def)
  show ?thesis
    unfolding race_schedule_def
    by (simp add: assms w single_shard_send server_init_def cluster_init_def channel_new_def do_accept_def next_connection_id_def Let_def
        set_queue_def do_receive_def stream_actions_def do_act_def after_send_def after_handle_def
        connect_of_def subscribe_of_def granted_def accepted_def race_publish_def
        handle_publish_def handle_register_def handle_subscribe_def replay_def shard_new_def
        update_retained_def iter_order_def push_event_def items_pushed queue_new_def
        DEFAULT_CLIENT_QUEUE_CAPACITY_def)
qed

lemma sendable_race: "sendable (Publish race_publish)" "sendable (subscribe_of ''t'')" "deliverable race_publish"
proof -
  have t: "wire_str ''t''" by (simp add: wire_str_def rust_str_def as_bytes_def)
  have w: "\<not> is_wildcard_filter ''t''" by (simp add: is_wildcard_filter_def)
  show "sendable (Publish race_publish)"
    by (simp add: sendable_def race_publish_def publish_ok_def publish_body_def t w wire_str_decode(2)
        max_remaining_length_def)
  then show "deliverable race_publish" by (simp add: sendable_def deliverable_def)
  have "length (encode_utf8_string ''t'') = 3" using wire_str_decode(2) [OF t] by simp
  then show "sendable (subscribe_of ''t'')"
    using filter_ok_exact [OF _ w]
    by (simp add: sendable_def subscribe_of_def t subscribe_body_def max_remaining_length_def)
qed

lemma encode_not_Nil [simp]: "encode p \<noteq> []"
  by (cases p) (simp_all add: encode_connect_def encode_connack_def encode_subscribe_def encode_suback_def
      encode_unsubscribe_def encode_unsuback_def encode_publish_def encode_puback_def
      prepend_fixed_header_def encode_fixed_header_only_def)

lemma race_reachable:
  "\<exists>es s. server_run hash (server_init [channel_new]) es s \<and>
     items (cl_store (sv_cluster s) 1) = map Packet [accepted, Publish race_publish, granted]"
proof -
  let ?pub = "encode (Publish race_publish)" and ?sub = "encode (connect_of 0) @ encode (subscribe_of ''t'')"
  have "parse_stream ?pub = ([Publish race_publish], StreamMore [])"
    using parse_stream_encode [of "[Publish race_publish]" "[]"] sendable_race by simp
  moreover have "parse_stream ?sub = ([connect_of 0, subscribe_of ''t''], StreamMore [])"
    using parse_stream_encode [of "[connect_of 0, subscribe_of ''t'']" "[]"] sendable_race sendable_connect
    by (simp add: connect_of_def subscribe_of_def)
  ultimately obtain s where "drive hash (race_schedule ?pub ?sub) (server_init [channel_new]) = Some s"
    and "items (cl_store (sv_cluster s) 1) = map Packet [accepted, Publish race_publish, granted]"
    using race_drive [of ?pub ?sub 0 hash] by (auto simp del: encode.simps)
  with drive_run [OF _ sv_nil, of hash _ _ s] show ?thesis by blast
qed

section \<open>A client that subscribes and publishes\<close>

text \<open>A short schedule that ends just before the only shard handles the publish.\<close>

definition solo_schedule :: "bytes \<Rightarrow> command list" where
  "solo_schedule bs =
     [DoAccept, DoReceive 1 bs, DoAct 1, DoAct 1, DoAct 1, DoAct 1, DoAct 1, DoShard 0 [], DoShard 0 []]"

lemma parse_solo:
  "parse_stream (encode (connect_of 0) @ encode (subscribe_of ''t'') @ encode (Publish race_publish)) =
     ([connect_of 0, subscribe_of ''t'', Publish race_publish], StreamMore [])"
  using parse_stream_encode [of "[connect_of 0, subscribe_of ''t'', Publish race_publish]" "[]"]
    sendable_race sendable_connect
  by (simp add: connect_of_def subscribe_of_def)

lemma solo_drive:
  assumes "parse_stream bs = ([connect_of 0, subscribe_of ''t'', Publish race_publish], StreamMore [])"
  shows "\<exists>s. drive hash (solo_schedule bs) (server_init [channel_new]) = Some s \<and>
    length (cl_shards (sv_cluster s)) = 1 \<and>
    inbox (cl_chans (sv_cluster s) ! 0) = [PublishFrom 1 race_publish] \<and>
    iter_order (topics (cl_shards (sv_cluster s) ! 0)) [''t''] \<and>
    cl_sent (sv_cluster s) = [Register 1 (client_id_for 0) 0, SubscribeTo 1 ''t'', PublishFrom 1 race_publish]"
proof -
  have "bs \<noteq> []" using assms by auto
  then show ?thesis
    unfolding solo_schedule_def
    by (simp add: assms single_shard_send server_init_def cluster_init_def channel_new_def do_accept_def
        next_connection_id_def Let_def set_queue_def do_receive_def stream_actions_def do_act_def after_send_def
        after_handle_def connect_of_def subscribe_of_def race_publish_def handle_register_def
        handle_subscribe_def add_subscription_def replay_def shard_new_def is_wildcard_filter_def iter_order_def)
qed

lemma solo_recipients:
  "handles_of (reg_clients (spec_run (take 2 [Register 1 (client_id_for 0) 0, SubscribeTo 1 ''t'', m]) registry_init))
     (spec_recipients (spec_run (take 2 [Register 1 (client_id_for 0) 0, SubscribeTo 1 ''t'', m]) registry_init)
       (pub_topic race_publish)) = {0}"
proof -
  have "topic_matches_filter ''t'' ''t''" by (rule topic_matches_refl) (simp add: is_wildcard_filter_def)
  then show ?thesis
    by (auto simp: spec_recipients_def registry_init_def handles_of_def race_publish_def)
qed

end
