(* ===== verification/Step_Systems.thy ===== *)
theory Step_Systems
  imports Main
begin

text \<open>
  Runs that must end. A component whose steps keep an invariant and lower a rank makes at most as many
  steps as the rank it starts with, and can always be run to a state where nothing is left to do. The
  benchmark's batches (\<open>Bench_Run\<close>) and the broker without new input (\<open>Drain\<close>) are interpretations.
\<close>

text \<open>A state with no successor.\<close>

definition halted :: "('s \<Rightarrow> 's \<Rightarrow> bool) \<Rightarrow> 's \<Rightarrow> bool" where
  "halted step s \<longleftrightarrow> (\<forall>s'. \<not> step s s')"

locale ranked_steps =
  fixes step :: "'s \<Rightarrow> 's \<Rightarrow> bool"
    and inv :: "'s \<Rightarrow> bool"
    and rank :: "'s \<Rightarrow> nat"
  assumes step_inv: "step s s' \<Longrightarrow> inv s \<Longrightarrow> inv s'"
    and step_rank: "step s s' \<Longrightarrow> inv s \<Longrightarrow> rank s' < rank s"
begin

lemma run_inv: "(step ^^ n) s s' \<Longrightarrow> inv s \<Longrightarrow> inv s'"
  by (induction n arbitrary: s') (auto intro: step_inv)

lemma run_rank: "(step ^^ n) s s' \<Longrightarrow> inv s \<Longrightarrow> n + rank s' \<le> rank s"
proof (induction n arbitrary: s')
  case (Suc n)
  then obtain t where t: "(step ^^ n) s t" "step t s'" by auto
  with Suc run_inv step_rank have "n + rank t \<le> rank s" "rank s' < rank t" by blast+
  then show ?case by simp
qed simp

lemma run_bound: "(step ^^ n) s s' \<Longrightarrow> inv s \<Longrightarrow> n \<le> rank s"
  using run_rank by fastforce

lemma halts: "inv s \<Longrightarrow> \<exists>n s'. (step ^^ n) s s' \<and> halted step s'"
proof (induction "rank s" arbitrary: s rule: less_induct)
  case less
  show ?case
  proof (cases "halted step s")
    case True
    then show ?thesis by (intro exI [of _ 0]) auto
  next
    case False
    then obtain t where t: "step s t" by (auto simp: halted_def)
    with less step_inv step_rank obtain n s' where "(step ^^ n) t s'" "halted step s'" by blast
    with t relpowp_Suc_I2 [of step s t n s'] show ?thesis by blast
  qed
qed

end

end
