(* ===== verification/Drain.thy ===== *)
theory Drain
  imports Server Step_Systems
begin

text \<open>
  The broker left to itself: what its connections hold is bounded, and once no more input arrives its
  readers, shards and writers come to rest with everything handled and written.
\<close>

section \<open>Bounded resources\<close>

definition store_ok :: "queue_store \<Rightarrow> bool" where
  "store_ok st \<longleftrightarrow> (\<forall>h. queue_wf (st h) \<and> queue_bound (st h) \<le> DEFAULT_CLIENT_QUEUE_CAPACITY)"

definition resource_inv :: "server \<Rightarrow> bool" where
  "resource_inv s \<longleftrightarrow> store_ok (cl_store (sv_cluster s)) \<and> finite (dom (sv_conns s)) \<and>
     (\<forall>cid c. sv_conns s cid = Some c \<longrightarrow>
        conn_handle c < sv_handles s \<and> length (conn_buf c) < max_packet_length)"

lemma store_ok_upd: "store_ok st \<Longrightarrow> queue_wf q \<Longrightarrow> queue_bound q \<le> DEFAULT_CLIENT_QUEUE_CAPACITY \<Longrightarrow> store_ok (st(h := q))"
  by (simp add: store_ok_def)

text \<open>A shard touches the store by pushing only.\<close>

lemma handle_message_pushes:
  assumes push: "\<And>p h st. P st \<Longrightarrow> P (push_event p h st)" and "P st"
  shows "P (snd (handle_message ks m (sh, st)))"
proof -
  have exact: "P (fst acc) \<Longrightarrow> P (fst (exact_pass cs p subs acc))" for cs p subs acc
    by (induction cs p subs acc rule: exact_pass.induct) (auto simp: push split: option.splits)
  have subs: "P (fst acc) \<Longrightarrow> P (fst (wildcard_subs cs p subs acc))" for cs p subs acc
    by (induction cs p subs acc rule: wildcard_subs.induct) (auto simp: push split: option.splits)
  have wild: "P (fst acc) \<Longrightarrow> P (fst (wildcard_pass cs ts p fs acc))" for cs ts p fs acc
    by (induction cs ts p fs acc rule: wildcard_pass.induct) (auto simp: subs split: option.splits)
  have fold: "P st \<Longrightarrow> P (foldl (\<lambda>st p. push_event (Publish p) h st) st ps)" for h ps st
    by (induction ps arbitrary: st) (auto simp: push)
  show ?thesis
    using assms(2) exact [of "(st, [])"]
    by (cases m)
      (auto simp: handle_register_def handle_subscribe_def handle_unsubscribe_def handle_publish_def
        handle_disconnect_def Let_def split_beta split: option.splits intro!: fold wild)
qed

lemma store_ok_push: "store_ok st \<Longrightarrow> store_ok (st(h := pushed (st h) x))"
  by (simp add: store_ok_def outq.wf_enq outq.bound_enq)

lemma store_ok_handle: "store_ok (cl_store c) \<Longrightarrow> store_ok (cl_store (after_handle i ks m ms c))"
  using handle_message_pushes [of store_ok "cl_store c" ks m "cl_shards c ! i"]
  by (simp add: after_handle_def split_beta push_event_def store_ok_push)

lemma store_ok_perform: "store_ok (cl_store c) \<Longrightarrow> store_ok (cl_store (perform hash h a c))"
  by (cases a)
    (auto simp: after_send_def set_queue_def store_ok_def outq.wf_enq outq.bound_enq outq.wf_shut outq.bound_shut)

lemma store_ok_pop: "store_ok st \<Longrightarrow> store_ok (st(h := snd (pop_blocking (st h))))"
  by (simp add: store_ok_def outq.wf_deq outq.bound_deq)

lemma resource_inv_init: "resource_inv (server_init txs)"
  by (simp add: resource_inv_def server_init_def cluster_init_def store_ok_def queue_bound_def queue_new_def
      queue_wf_def DEFAULT_CLIENT_QUEUE_CAPACITY_def)

lemma resource_inv_conn:
  "resource_inv s \<Longrightarrow> conn_handle c < sv_handles s \<Longrightarrow> length (conn_buf c) < max_packet_length \<Longrightarrow>
   store_ok (cl_store cl) \<Longrightarrow> resource_inv (s\<lparr>sv_cluster := cl, sv_conns := (sv_conns s)(cid \<mapsto> c)\<rparr>)"
  by (auto simp: resource_inv_def)

lemma resource_inv_step: "server_step hash s e s' \<Longrightarrow> resource_inv s \<Longrightarrow> resource_inv s'"
proof (induction rule: server_step.induct)
  case (accept s)
  then show ?case
    by (auto simp: resource_inv_def do_accept_def next_connection_id_def Let_def set_queue_def max_packet_length_def
        queue_bound_def queue_new_def queue_wf_def DEFAULT_CLIENT_QUEUE_CAPACITY_def store_ok_def less_SucI)
next
  case (receive s cid c bs)
  have "length (case snd (parse_stream (conn_buf c @ bs)) of StreamMore rest \<Rightarrow> rest | StreamEnd \<Rightarrow> []) < max_packet_length"
    using parse_stream_bound [of "conn_buf c @ bs" "fst (parse_stream (conn_buf c @ bs))"]
    by (cases "parse_stream (conn_buf c @ bs)") (auto simp: max_packet_length_def split: stream_end.splits)
  moreover have "conn_handle c < sv_handles s" and "store_ok (cl_store (sv_cluster s))"
    using receive by (auto simp: resource_inv_def)
  ultimately show ?case
    using resource_inv_conn [OF receive.prems, of _ "sv_cluster s"] by (simp add: do_receive_def Let_def)
next
  case (hang_up s cid c)
  then show ?case by (auto simp: resource_inv_def do_hang_up_def)
next
  case (act s cid c a as)
  then have "conn_handle c < sv_handles s" "length (conn_buf c) < max_packet_length"
    "store_ok (cl_store (perform hash (conn_handle c) a (sv_cluster s)))"
    by (auto simp: resource_inv_def store_ok_perform)
  then show ?case
    using resource_inv_conn [OF act.prems] by (simp add: do_act_def)
next
  case (shard_step s i m c')
  from shard_step(1) have "store_ok (cl_store (sv_cluster s)) \<Longrightarrow> store_ok (cl_store c')"
    by cases (auto intro: store_ok_handle)
  with shard_step show ?case by (simp add: resource_inv_def)
next
  case (write_step s cid c e)
  then show ?case by (simp add: resource_inv_def do_write_def set_queue_def store_ok_pop)
qed

lemma resource_inv_run: "server_run hash (server_init txs) es s \<Longrightarrow> resource_inv s"
  by (induction "server_init txs" es s rule: server_run.induct) (auto intro: resource_inv_init resource_inv_step)

lemma queue_length_bound:
  "resource_inv s \<Longrightarrow> length (items (cl_store (sv_cluster s) h)) \<le> DEFAULT_CLIENT_QUEUE_CAPACITY"
  by (simp add: resource_inv_def store_ok_def queue_wf_def) (meson order_trans)

section \<open>No more input\<close>

text \<open>
  The steps the broker makes by itself: performing what a reader has decoded, handling a message,
  writing a packet.
\<close>

fun internal :: "server_event \<Rightarrow> bool" where
  "internal (Act cid a) = True"
| "internal (Shard i m) = True"
| "internal (Write cid e) = True"
| "internal _ = False"

definition internal_step :: "(string \<Rightarrow> u64) \<Rightarrow> server \<Rightarrow> server \<Rightarrow> bool" where
  "internal_step hash s s' \<longleftrightarrow> (\<exists>e. internal e \<and> server_step hash s e s')"

definition drain_inv :: "(string \<Rightarrow> u64) \<Rightarrow> nat \<Rightarrow> server \<Rightarrow> bool" where
  "drain_inv hash n s \<longleftrightarrow> server_inv hash n s \<and> resource_inv s"

lemma drain_inv_step: "internal_step hash s s' \<Longrightarrow> drain_inv hash n s \<Longrightarrow> drain_inv hash n s'"
  by (auto simp: internal_step_def drain_inv_def intro: server_inv_step resource_inv_step)

lemma drain_inv_reachable:
  "spawn_sharded_broker n = Ok txs \<Longrightarrow> server_run hash (server_init txs) es s \<Longrightarrow> drain_inv hash n s"
  by (simp add: drain_inv_def server_reachable resource_inv_run)

text \<open>
  What is left to do: actions, each of which may put a message into every channel; messages, each of
  which may fill every queue; packets in queues.
\<close>

definition todo_count :: "server \<Rightarrow> nat" where
  "todo_count s = (\<Sum>cid \<in> dom (sv_conns s). length (conn_todo (the (sv_conns s cid))))"

definition inbox_count :: "server \<Rightarrow> nat" where
  "inbox_count s = (\<Sum>i < length (cl_chans (sv_cluster s)). length (inbox (cl_chans (sv_cluster s) ! i)))"

definition queued :: "server \<Rightarrow> nat" where
  "queued s = (\<Sum>h < sv_handles s. length (items (cl_store (sv_cluster s) h)))"

definition drain_rank :: "server \<Rightarrow> nat" where
  "drain_rank s =
     (todo_count s * (length (cl_chans (sv_cluster s)) + 1) + inbox_count s) *
       (DEFAULT_CLIENT_QUEUE_CAPACITY * sv_handles s + 1) + queued s"

lemma weighted_less: "x' < x \<Longrightarrow> q' \<le> q + r \<Longrightarrow> x' * (r + 1) + q' < x * (r + 1) + (q :: nat)"
proof -
  assume "x' < x" and q: "q' \<le> q + r"
  then have "(x' + 1) * (r + 1) \<le> x * (r + 1)" by (intro mult_le_mono1) simp
  with q show ?thesis by simp
qed

lemma queued_bound: "resource_inv s \<Longrightarrow> queued s \<le> DEFAULT_CLIENT_QUEUE_CAPACITY * sv_handles s"
  using sum_bounded_above [of "{..<sv_handles s}" "\<lambda>h. length (items (cl_store (sv_cluster s) h))"
      DEFAULT_CLIENT_QUEUE_CAPACITY] queue_length_bound [of s]
  by (simp add: queued_def mult.commute)

lemma inbox_count_send:
  assumes "shards_up n chans"
  shows "length (snd (sharded_send hash m chans)) = length chans"
    and "(\<Sum>i < length chans. length (inbox (snd (sharded_send hash m chans) ! i))) \<le>
      (\<Sum>i < length chans. length (inbox (chans ! i))) + length chans"
proof -
  from assms have n: "length chans = n" by (simp add: shards_up_def)
  from shard_sink.send_usable [OF assms, of hash m] have n': "length (snd (sharded_send hash m chans)) = n"
    by (simp add: shards_up_def)
  with n show "length (snd (sharded_send hash m chans)) = length chans" by simp
  have "length (inbox (snd (sharded_send hash m chans) ! i)) \<le> length (inbox (chans ! i)) + 1" if "i < n" for i
    using shard_sink.send_arrived [OF assms, of hash m i] that n n' by (simp add: shard_inbox_def split: if_splits)
  then have "(\<Sum>i < n. length (inbox (snd (sharded_send hash m chans) ! i))) \<le>
      (\<Sum>i < n. length (inbox (chans ! i)) + 1)"
    by (intro sum_mono) simp
  with n show "(\<Sum>i < length chans. length (inbox (snd (sharded_send hash m chans) ! i))) \<le>
      (\<Sum>i < length chans. length (inbox (chans ! i))) + length chans"
    by (simp only: sum.distrib) simp
qed

lemma perform_chans:
  assumes "shards_up n (cl_chans c)"
  shows "length (cl_chans (perform hash h a c)) = length (cl_chans c)"
    and "(\<Sum>i < length (cl_chans c). length (inbox (cl_chans (perform hash h a c) ! i))) \<le>
      (\<Sum>i < length (cl_chans c). length (inbox (cl_chans c ! i))) + length (cl_chans c)"
  using inbox_count_send [OF assms, of hash] by (cases a; simp add: after_send_def set_queue_def)+

lemma sum_less_one:
  fixes f g :: "'a \<Rightarrow> nat"
  shows "finite A \<Longrightarrow> x \<in> A \<Longrightarrow> g x < f x \<Longrightarrow> (\<And>y. y \<in> A \<Longrightarrow> y \<noteq> x \<Longrightarrow> g y = f y) \<Longrightarrow> sum g A < sum f A"
  by (rule sum_strict_mono_ex1) (metis order.strict_implies_order order_refl)+

lemma rank_act:
  assumes "drain_inv hash n s" and c: "sv_conns s cid = Some c" and "conn_todo c = a # as"
  shows "drain_rank (do_act hash cid c a as s) < drain_rank s"
proof -
  let ?s = "do_act hash cid c a as s"
  from assms(1) have up: "shards_up n (cl_chans (sv_cluster s))" and fin: "finite (dom (sv_conns s))"
    by (simp_all add: drain_inv_def server_inv_def cluster_inv_def resource_inv_def)
  have dom: "dom (sv_conns ?s) = dom (sv_conns s)" using c by (auto simp: do_act_def)
  have todo: "todo_count ?s < todo_count s"
    unfolding todo_count_def dom using fin c assms(3)
    by (intro sum_less_one [of _ cid]) (auto simp: do_act_def)
  have len: "length (cl_chans (sv_cluster ?s)) = length (cl_chans (sv_cluster s))"
    using perform_chans(1) [OF up] by (simp add: do_act_def)
  have inbox: "inbox_count ?s \<le> inbox_count s + length (cl_chans (sv_cluster s))"
    unfolding inbox_count_def len using perform_chans(2) [OF up] by (simp add: do_act_def)
  have "resource_inv ?s" using assms resource_inv_step [OF act [OF c assms(3)]] by (simp add: drain_inv_def)
  then have "queued ?s \<le> queued s + DEFAULT_CLIENT_QUEUE_CAPACITY * sv_handles s"
    using queued_bound [of ?s] by (simp add: do_act_def)
  then show ?thesis
    unfolding drain_rank_def len using weighted_less [OF weighted_less [OF todo inbox]] by (simp add: do_act_def)
qed

lemma rank_shard:
  assumes "drain_inv hash n s" and "cluster_step hash (sv_cluster s) (Handled i m) c'"
  shows "drain_rank (s\<lparr>sv_cluster := c'\<rparr>) < drain_rank s"
  using assms(2)
proof cases
  case (cl_handle ms ks)
  let ?s = "s\<lparr>sv_cluster := c'\<rparr>"
  have chans: "cl_chans c' = (cl_chans (sv_cluster s))[i := (cl_chans (sv_cluster s) ! i)\<lparr>inbox := ms\<rparr>]"
    using cl_handle by (simp add: after_handle_def split_beta)
  have i: "i < length (cl_chans (sv_cluster s))"
    using assms(1) cl_handle by (simp add: drain_inv_def server_inv_def cluster_inv_def shards_up_def)
  have "inbox_count ?s < inbox_count s"
    unfolding inbox_count_def using i cl_handle(3)
    by (simp add: chans) (intro sum_less_one [of _ i], auto)
  then have less: "todo_count ?s * (length (cl_chans (sv_cluster s)) + 1) + inbox_count ?s <
      todo_count s * (length (cl_chans (sv_cluster s)) + 1) + inbox_count s"
    by (simp add: todo_count_def)
  have "resource_inv ?s"
    using assms resource_inv_step [OF shard_step [OF assms(2)]] by (simp add: drain_inv_def)
  then have "queued ?s \<le> queued s + DEFAULT_CLIENT_QUEUE_CAPACITY * sv_handles s"
    using queued_bound [of ?s] by simp
  from weighted_less [OF less this] show ?thesis by (simp add: drain_rank_def chans)
qed

lemma rank_write:
  assumes "drain_inv hash n s" and c: "sv_conns s cid = Some c"
    and pop: "fst (pop_blocking (cl_store (sv_cluster s) (conn_handle c))) = PopItem e"
  shows "drain_rank (do_write (conn_handle c) s) < drain_rank s"
proof -
  let ?s = "do_write (conn_handle c) s" and ?h = "conn_handle c"
  have h: "?h < sv_handles s" using assms(1) c by (auto simp: drain_inv_def resource_inv_def)
  have "queued ?s < queued s"
    unfolding queued_def using h pop
    by (simp add: do_write_def set_queue_def)
      (intro sum_less_one [of _ ?h], auto simp: pop_blocking_def split: list.splits if_splits)
  then show ?thesis
    by (simp add: drain_rank_def todo_count_def inbox_count_def do_write_def set_queue_def queued_def)
qed

lemma drain_rank_step: "internal_step hash s s' \<Longrightarrow> drain_inv hash n s \<Longrightarrow> drain_rank s' < drain_rank s"
  unfolding internal_step_def
  by (auto elim!: server_step.cases intro: rank_act rank_shard rank_write)

interpretation drain: ranked_steps "internal_step hash" "drain_inv hash n" drain_rank
  for hash :: "string \<Rightarrow> u64" and n :: nat
  by unfold_locales (blast intro: drain_inv_step drain_rank_step)+

text \<open>At rest nothing is left.\<close>

lemma drain_halted:
  assumes "drain_inv hash n s" and "halted (internal_step hash) s"
  shows "sv_conns s cid = Some c \<Longrightarrow> conn_todo c = [] \<and> items (cl_store (sv_cluster s) (conn_handle c)) = []"
    and "i < n \<Longrightarrow> inbox (cl_chans (sv_cluster s) ! i) = []"
proof -
  have stuck: "\<not> server_step hash s e s'" if "internal e" for e s'
    using assms(2) that by (auto simp: halted_def internal_step_def)
  show "conn_todo c = [] \<and> items (cl_store (sv_cluster s) (conn_handle c)) = []" if c: "sv_conns s cid = Some c"
  proof
    show "conn_todo c = []"
    proof (rule ccontr)
      assume "conn_todo c \<noteq> []"
      then obtain a as where "conn_todo c = a # as" by (auto simp: neq_Nil_conv)
      from act [OF c this, of hash] stuck [of "Act cid a"] show False by simp
    qed
    show "items (cl_store (sv_cluster s) (conn_handle c)) = []"
    proof (rule ccontr)
      assume "items (cl_store (sv_cluster s) (conn_handle c)) \<noteq> []"
      then obtain e es where "items (cl_store (sv_cluster s) (conn_handle c)) = e # es" by (auto simp: neq_Nil_conv)
      then have "fst (pop_blocking (cl_store (sv_cluster s) (conn_handle c))) = PopItem e" by (simp add: outq.deq_item)
      from write_step [OF c this, of hash] stuck [of "Write cid e"] show False by simp
    qed
  qed
  show "inbox (cl_chans (sv_cluster s) ! i) = []" if i: "i < n"
  proof (rule ccontr)
    assume "inbox (cl_chans (sv_cluster s) ! i) \<noteq> []"
    then obtain m ms where "inbox (cl_chans (sv_cluster s) ! i) = m # ms" by (auto simp: neq_Nil_conv)
    then obtain c' where "cluster_step hash (sv_cluster s) (Handled i m) c'"
      using cluster_progress [of hash n "sv_cluster s" i m ms] assms(1) i by (auto simp: drain_inv_def server_inv_def)
    from shard_step [OF this] stuck [of "Shard i m"] show False by simp
  qed
qed

section \<open>Properties\<close>





end
