(* ===== verification/Logging.thy ===== *)
theory Logging
  imports Client
begin

text \<open>
  The logger (\<open>src/logging.rs\<close>). A line is the stream it goes to and its text; the clock is an argument:
  the seconds since the epoch, or \<open>None\<close> for a clock set before it.
\<close>

datatype log_line = Stdout string | Stderr string

definition timestamp :: "nat option \<Rightarrow> nat" where
  "timestamp now = (case now of Some secs \<Rightarrow> secs | None \<Rightarrow> 0)"

definition info :: "nat option \<Rightarrow> string \<Rightarrow> log_line" where
  "info now msg = Stdout (''['' @ dec_string (timestamp now) @ ''] INFO  '' @ msg @ [CHR 0x0A])"

definition warn :: "nat option \<Rightarrow> string \<Rightarrow> log_line" where
  "warn now msg = Stdout (''['' @ dec_string (timestamp now) @ ''] WARN  '' @ msg @ [CHR 0x0A])"

definition error :: "nat option \<Rightarrow> string \<Rightarrow> log_line" where
  "error now msg = Stderr (''['' @ dec_string (timestamp now) @ ''] ERROR '' @ msg @ [CHR 0x0A])"

text \<open>A call of the logger, and the line it prints at a given time.\<close>

datatype log_call = Info string | Warn string | Error string

fun emit :: "nat option \<Rightarrow> log_call \<Rightarrow> log_line" where
  "emit now (Info msg) = info now msg"
| "emit now (Warn msg) = warn now msg"
| "emit now (Error msg) = error now msg"

end
