(* ===== verification/Broker_Main.thy ===== *)
theory Broker_Main
  imports Cli Logging
begin

text \<open>
  The entry point of the broker (\<open>main\<close> of \<open>src/main.rs\<close>): command line, shards, listener, accept loop.
  Binding an address is an argument, and so is what the listener has yielded so far: sockets, and errors
  with their texts. What \<open>main\<close> does is a list of effects in order.
\<close>

datatype 'k main_effect =
    Log log_call
  | Serve 'k          \<comment> \<open>a thread that runs \<open>handle_connection\<close> on the socket\<close>
  | ExitProcess nat

fun accept_loop :: "(string + 'k) list \<Rightarrow> 'k main_effect list" where
  "accept_loop [] = []"
| "accept_loop (Inr stream # rest) = Serve stream # accept_loop rest"
| "accept_loop (Inl e # rest) = Log (Warn (''accept error: '' @ e)) # accept_loop rest"

definition listen_addr :: "config \<Rightarrow> string" where
  "listen_addr cfg = conf_host cfg @ '':'' @ dec_string (conf_port cfg)"

definition broker_main ::
    "(string \<Rightarrow> string + unit) \<Rightarrow> string list \<Rightarrow> (string + 'k) list \<Rightarrow> (unit, 'k main_effect list) outcome" where
  "broker_main bind args incoming =
     map_ok (\<lambda>(cfg, txs).
       Log (Info (''BlitzBroker: '' @ dec_string (num_shards cfg) @ '' broker shard(s) active'')) #
       (case bind (listen_addr cfg) of
          Inl e \<Rightarrow> [Log (Error (''failed to bind '' @ listen_addr cfg @ '': '' @ e)), ExitProcess 1]
        | Inr _ \<Rightarrow> Log (Info (''BlitzBroker listening on '' @ listen_addr cfg)) # accept_loop incoming))
     (start_broker args)"

definition served :: "'k main_effect list \<Rightarrow> 'k list" where
  "served es = concat (map (\<lambda>e. case e of Serve k \<Rightarrow> [k] | _ \<Rightarrow> []) es)"

definition accepted_streams :: "(string + 'k) list \<Rightarrow> 'k list" where
  "accepted_streams rs = concat (map (case_sum (\<lambda>_. []) (\<lambda>k. [k])) rs)"

lemma served_accept_loop: "served (accept_loop rs) = accepted_streams rs"
  by (induction rs rule: accept_loop.induct) (simp_all add: served_def accepted_streams_def)

lemma accept_loop_runs_on: "ExitProcess n \<notin> set (accept_loop rs)"
  by (induction rs rule: accept_loop.induct) simp_all

section \<open>Properties\<close>


end
