(* ===== verification/Bench_Wire.thy ===== *)
theory Bench_Wire
  imports Client Cli
begin

text \<open>
  The wire format and the command line of the benchmark (\<open>src/bin/shard_benchmark.rs\<close>), whose codec is
  a third copy: each function is proved equal to the client's, so what is proved of the client's
  packets holds for the benchmark's. Names carry the suffix \<open>_b\<close>. Errors are the benchmark's texts.
\<close>

section \<open>The codec\<close>

function encode_rl_loop_b :: "u32 \<Rightarrow> bytes" where
  "encode_rl_loop_b len =
     (let encoded_byte = ucast (len mod 128) :: u8;
          len' = len div 128;
          encoded_byte' = (if 0 < len' then encoded_byte OR 0x80 else encoded_byte)
      in if len' = 0 then [encoded_byte'] else encoded_byte' # encode_rl_loop_b len')"
  by pat_completeness auto
termination
proof (relation "measure unat", goal_cases)
  case (2 x encoded_byte x' encoded_byte')
  then have "unat (x div 128) \<noteq> 0" by (simp only: unsigned_eq_0_iff not_False_eq_True)
  then have "unat x div 128 < unat x" by (simp add: unat_div)
  with 2 show ?case by (simp add: unat_div)
qed simp

declare encode_rl_loop_b.simps [simp del]

definition encode_remaining_length_b :: "u32 \<Rightarrow> bytes" where
  "encode_remaining_length_b len = encode_rl_loop_b len"

datatype bench_error =
    BenchLengthExceeds4 | BenchLengthTruncated | BenchLengthTooLong | BenchRead | BenchTcp | BenchWrite
  | BenchExpectedConnack | BenchRefused

function decode_rl_loop_b :: "bytes \<Rightarrow> u32 \<Rightarrow> nat \<Rightarrow> (bench_error, u32 \<times> nat) outcome" where
  "decode_rl_loop_b buf value i =
     (if 4 \<le> i then Err BenchLengthExceeds4
      else if length buf \<le> i then Err BenchLengthTruncated
      else and_then (idx buf i) (\<lambda>byte.
           and_then (pow_u32 128 i) (\<lambda>multiplier.
           and_then (mul_u32 (ucast byte AND 0x7F) multiplier) (\<lambda>part.
           and_then (add_u32 value part) (\<lambda>value'.
             if byte AND 0x80 = 0 then Ok (value', i + 1)
             else decode_rl_loop_b buf value' (i + 1))))))"
  by pat_completeness auto
termination
  by (relation "measure (\<lambda>(buf, value, i). 4 - i)") auto

declare decode_rl_loop_b.simps [simp del]

definition decode_remaining_length_b :: "bytes \<Rightarrow> (bench_error, u32 \<times> nat) outcome" where
  "decode_remaining_length_b buf = decode_rl_loop_b buf 0 0"

definition encode_utf8_str_b :: "string \<Rightarrow> bytes \<Rightarrow> bytes" where
  "encode_utf8_str_b s out =
     (let bs = as_bytes s; len = of_nat (min (length bs) 65535) :: u16
      in out @ to_be_bytes len @ take (unat len) bs)"

definition make_packet_b :: "u8 \<Rightarrow> u8 \<Rightarrow> bytes \<Rightarrow> bytes" where
  "make_packet_b packet_type flags body =
     (push_bit 4 packet_type OR (flags AND 0x0F)) #
       encode_remaining_length_b (of_nat (length body)) @ body"

definition encode_connect_b :: "string \<Rightarrow> bytes" where
  "encode_connect_b client_id =
     (let body = encode_utf8_str_b ''MQTT'' [];
          body = body @ [4];
          body = body @ [0x02];
          body = body @ to_be_bytes 60;
          body = encode_utf8_str_b client_id body
      in make_packet_b PT_CONNECT 0 body)"

definition encode_subscribe_b :: "u16 \<Rightarrow> string \<Rightarrow> bytes" where
  "encode_subscribe_b packet_id flt =
     (let body = to_be_bytes packet_id;
          body = encode_utf8_str_b flt body;
          body = body @ [0]
      in make_packet_b PT_SUBSCRIBE 2 body)"

definition encode_publish_b :: "string \<Rightarrow> bytes \<Rightarrow> bytes" where
  "encode_publish_b topic payload =
     (let body = encode_utf8_str_b topic [];
          body = body @ payload
      in make_packet_b PT_PUBLISH 0 body)"

definition encode_disconnect_b :: bytes where
  "encode_disconnect_b = [push_bit 4 PT_DISCONNECT, 0x00]"

fun read_length_bytes_b :: "bytes \<Rightarrow> bytes \<Rightarrow> (bench_error, bytes \<times> bytes) outcome" where
  "read_length_bytes_b [] rl_bytes = Err BenchRead"
| "read_length_bytes_b (b # stream) rl_bytes =
     (let rl_bytes' = rl_bytes @ [b] in
      if b AND 0x80 = 0 then Ok (rl_bytes', stream)
      else if 4 \<le> length rl_bytes' then Err BenchLengthTooLong
      else read_length_bytes_b stream rl_bytes')"

definition read_packet_b :: "bytes \<Rightarrow> (bench_error, (u8 \<times> u8 \<times> bytes) \<times> bytes) outcome" where
  "read_packet_b stream =
     and_then (ok_or BenchRead (read_exact 1 stream)) (\<lambda>(header, stream).
     and_then (idx header 0) (\<lambda>header_byte.
     let packet_type = drop_bit 4 header_byte; flags = header_byte AND 0x0F in
     and_then (read_length_bytes_b stream []) (\<lambda>(rl_bytes, stream).
     and_then (decode_remaining_length_b rl_bytes) (\<lambda>(remaining_len, _).
     let body_len = unat remaining_len in
     and_then (if 0 < body_len then ok_or BenchRead (read_exact body_len stream)
               else Ok ([], stream)) (\<lambda>(body, stream).
     Ok ((packet_type, flags, body), stream))))))"

definition write_all_b :: "bytes \<Rightarrow> socket \<Rightarrow> (bench_error, socket) outcome" where
  "write_all_b bs s =
     (if writes_left s = 0 then Err BenchWrite
      else Ok (s\<lparr>outp := outp s @ bs, writes_left := writes_left s - 1\<rparr>))"

definition connect_to_broker_b :: "bool \<Rightarrow> string \<Rightarrow> socket \<Rightarrow> (bench_error, socket) outcome" where
  "connect_to_broker_b tcp_ok client_id s =
     (if \<not> tcp_ok then Err BenchTcp
      else and_then (write_all_b (encode_connect_b client_id) s) (\<lambda>s.
        and_then (read_packet_b (inp s)) (\<lambda>((pkt_type, flags, body), rest).
        if pkt_type \<noteq> PT_CONNACK then Err BenchExpectedConnack
        else if length body < 2 then Err BenchRefused
        else and_then (idx body 1) (\<lambda>code.
          if code \<noteq> 0 then Err BenchRefused else Ok (s\<lparr>inp := rest\<rparr>)))))"

section \<open>The benchmark's copy agrees with the client's\<close>

lemma encode_rl_loop_b_eq: "encode_rl_loop_b n = encode_rl_loop_c n"
proof (induction n rule: encode_rl_loop_b.induct)
  case (1 n)
  then show ?case
    by (subst encode_rl_loop_b.simps, subst encode_rl_loop_c.simps) (simp add: Let_def)
qed

lemma make_packet_b_eq: "make_packet_b pt flags body = make_packet pt flags body"
  by (simp add: make_packet_b_def make_packet_def encode_remaining_length_b_def
      encode_remaining_length_c_def encode_rl_loop_b_eq)

lemma encode_utf8_str_b_eq: "encode_utf8_str_b s out = encode_utf8_str s out"
  by (simp add: encode_utf8_str_b_def encode_utf8_str_def)

lemma bench_encoders_eq:
  "encode_connect_b cid = encode_connect_c cid 60"
  "encode_subscribe_b pid flt = encode_subscribe_c pid flt 0"
  "encode_publish_b topic payload = encode_publish_c topic payload 0 None"
  "encode_disconnect_b = encode_disconnect_c"
  by (simp_all add: encode_connect_b_def encode_connect_c_def encode_subscribe_b_def encode_subscribe_c_def
      encode_publish_b_def encode_publish_c_def encode_disconnect_b_def encode_disconnect_c_def
      make_packet_b_eq encode_utf8_str_b_eq Let_def)

fun bench_of :: "client_error \<Rightarrow> bench_error" where
  "bench_of LengthExceeds4 = BenchLengthExceeds4"
| "bench_of LengthTruncated = BenchLengthTruncated"
| "bench_of LengthTooLong = BenchLengthTooLong"
| "bench_of _ = BenchRead"

lemma decode_rl_loop_b_eq: "decode_rl_loop_b buf v i = map_err bench_of (decode_rl_loop_c buf v i)"
proof (induction "4 - i" arbitrary: v i rule: less_induct)
  case less
  show ?case
  proof (cases "4 \<le> i \<or> length buf \<le> i")
    case True
    then show ?thesis by (auto simp: decode_rl_loop_c.simps [of buf v i] decode_rl_loop_b.simps [of buf v i])
  next
    case False
    then have "decode_rl_loop_b buf v' (Suc i) = map_err bench_of (decode_rl_loop_c buf v' (Suc i))" for v'
      by (intro less) linarith
    with False show ?thesis
      unfolding decode_rl_loop_c.simps [of buf v i] decode_rl_loop_b.simps [of buf v i]
      by (auto simp: map_err_and_then intro!: and_then_cong [OF refl])
  qed
qed

lemma encode_remaining_length_b_eq: "encode_remaining_length_b n = encode_remaining_length_c n"
  by (simp add: encode_remaining_length_b_def encode_remaining_length_c_def encode_rl_loop_b_eq)

lemma decode_remaining_length_b_eq:
  "decode_remaining_length_b buf = map_err bench_of (decode_remaining_length_c buf)"
  by (simp add: decode_remaining_length_b_def decode_remaining_length_c_def decode_rl_loop_b_eq)

interpretation rlb: length_codec encode_remaining_length_b decode_remaining_length_b
  by unfold_locales
    (auto simp: encode_remaining_length_b_eq decode_remaining_length_b_eq rlc.dec_enc rlc.dec_no_panic
      rlc.dec_extend dest: rlc.dec_consumed)

lemma read_length_bytes_b_eq: "read_length_bytes_b bs acc = map_err bench_of (read_length_bytes bs acc)"
  by (induction bs acc rule: read_length_bytes_b.induct) (auto simp: Let_def)

lemma map_err_ok_or: "map_err f (ok_or e x) = ok_or (f e) x"
  by (cases x) auto

lemma map_err_if: "map_err f (if c then x else y) = (if c then map_err f x else map_err f y)"
  by simp

lemma read_packet_b_eq: "read_packet_b bs = map_err bench_of (read_packet bs)"
  unfolding read_packet_b_def read_packet_def Let_def
  by (auto simp: map_err_and_then map_err_ok_or map_err_if read_length_bytes_b_eq decode_remaining_length_b_eq
      split_beta intro!: and_then_cong [OF refl])

section \<open>The command line\<close>

record bench_config =
  b_host :: string
  b_port :: nat
  b_channels :: nat
  b_messages :: nat
  b_batch :: nat

definition bench_default :: bench_config where
  "bench_default = \<lparr>b_host = ''127.0.0.1'', b_port = 1883, b_channels = 16, b_messages = 1000, b_batch = 50\<rparr>"

text \<open>\<open>args[i].parse().unwrap()\<close>: a missing or malformed value panics.\<close>

definition parse_unwrap :: "nat \<Rightarrow> string list \<Rightarrow> (unit, nat) outcome" where
  "parse_unwrap bound args =
     and_then (idx args 0) (\<lambda>v. case parse_uint bound v of Some n \<Rightarrow> Ok n | None \<Rightarrow> Panic)"

datatype bench_flag = BHost | BPort | BChannels | BMessages | BBatch | BOther

definition bench_flag_of :: "string \<Rightarrow> bench_flag" where
  "bench_flag_of a =
     (if a = ''--host'' then BHost else if a = ''--port'' then BPort
      else if a = ''--channels'' then BChannels else if a = ''--messages'' then BMessages
      else if a = ''--batch-size'' then BBatch else BOther)"

fun bench_args :: "bench_config \<Rightarrow> string list \<Rightarrow> (unit, bench_config) outcome" where
  "bench_args cfg [] = Ok cfg"
| "bench_args cfg (a # args) =
     (case bench_flag_of a of
        BHost \<Rightarrow> and_then (idx args 0) (\<lambda>v. bench_args (cfg\<lparr>b_host := v\<rparr>) (drop 1 args))
      | BPort \<Rightarrow> and_then (parse_unwrap (2 ^ 16) args) (\<lambda>n. bench_args (cfg\<lparr>b_port := n\<rparr>) (drop 1 args))
      | BChannels \<Rightarrow> and_then (parse_unwrap (2 ^ 64) args) (\<lambda>n. bench_args (cfg\<lparr>b_channels := n\<rparr>) (drop 1 args))
      | BMessages \<Rightarrow> and_then (parse_unwrap (2 ^ 64) args) (\<lambda>n. bench_args (cfg\<lparr>b_messages := n\<rparr>) (drop 1 args))
      | BBatch \<Rightarrow> and_then (parse_unwrap (2 ^ 64) args) (\<lambda>n. bench_args (cfg\<lparr>b_batch := n\<rparr>) (drop 1 args))
      | BOther \<Rightarrow> bench_args cfg args)"

section \<open>Properties\<close>

text \<open>C40: The benchmark's copy of the codec agrees with the client's: its encoders write the same bytes and
  its packet reader reads the same packets, failing exactly when the client's fails.\<close>

theorem benchmark_codec_agrees:
  "encode_connect_b cid = encode_connect_c cid 60 \<and>
   encode_subscribe_b pid flt = encode_subscribe_c pid flt 0 \<and>
   encode_publish_b topic payload = encode_publish_c topic payload 0 None \<and>
   encode_disconnect_b = encode_disconnect_c \<and>
   read_packet_b bs = map_err bench_of (read_packet bs)"
  by (simp add: bench_encoders_eq read_packet_b_eq)

end
