(* ===== verification/Bench_Run.thy ===== *)
theory Bench_Run
  imports Connection Step_Systems
begin

text \<open>
  The batches of the benchmark (\<open>src/bin/shard_benchmark.rs\<close>): on each channel a publisher sends a batch
  and waits for a token, a subscriber receives a batch and sends one, over a channel that holds one
  token. Between them is the broker, which delivers in order; the claim is that the batches keep the
  broker's queue from overflowing. A state also counts the batches each side has finished.
\<close>

datatype pub_pc = Sending nat | AwaitToken | PubDone
datatype sub_pc = Receiving nat | SubDone

record bench =
  sent :: nat
  received :: nat
  tokens :: nat
  pub_at :: pub_pc
  sub_at :: sub_pc
  pub_batches :: nat   \<comment> \<open>ghost: batches the publisher has got a token for\<close>
  sub_batches :: nat   \<comment> \<open>ghost: batches the subscriber has signalled\<close>

text \<open>The heads of the two loops, with \<open>std::cmp::min(batch_size, msgs - done)\<close>.\<close>

definition pub_head :: "nat \<Rightarrow> nat \<Rightarrow> nat \<Rightarrow> pub_pc" where
  "pub_head batch msgs n = (if n < msgs then Sending (min batch (msgs - n)) else PubDone)"

definition sub_head :: "nat \<Rightarrow> nat \<Rightarrow> nat \<Rightarrow> sub_pc" where
  "sub_head batch msgs n = (if n < msgs then Receiving (min batch (msgs - n)) else SubDone)"

definition bench_init :: "nat \<Rightarrow> nat \<Rightarrow> bench" where
  "bench_init batch msgs =
     \<lparr>sent = 0, received = 0, tokens = 0, pub_at = pub_head batch msgs 0, sub_at = sub_head batch msgs 0,
      pub_batches = 0, sub_batches = 0\<rparr>"

inductive bench_step :: "nat \<Rightarrow> nat \<Rightarrow> bench \<Rightarrow> bench \<Rightarrow> bool" for batch msgs :: nat where
  publish: "pub_at s = Sending (Suc k) \<Longrightarrow>
    bench_step batch msgs s (s\<lparr>sent := Suc (sent s), pub_at := Sending k\<rparr>)"
| batch_sent: "pub_at s = Sending 0 \<Longrightarrow> bench_step batch msgs s (s\<lparr>pub_at := AwaitToken\<rparr>)"
| take_token: "pub_at s = AwaitToken \<Longrightarrow> 0 < tokens s \<Longrightarrow>
    bench_step batch msgs s (s\<lparr>tokens := tokens s - 1, pub_at := pub_head batch msgs (sent s),
      pub_batches := Suc (pub_batches s)\<rparr>)"
| receive_one: "sub_at s = Receiving (Suc k) \<Longrightarrow> received s < sent s \<Longrightarrow>
    bench_step batch msgs s (s\<lparr>received := Suc (received s), sub_at := Receiving k\<rparr>)"
| give_token: "sub_at s = Receiving 0 \<Longrightarrow> tokens s < 1 \<Longrightarrow>
    bench_step batch msgs s (s\<lparr>tokens := Suc (tokens s), sub_at := sub_head batch msgs (received s),
      sub_batches := Suc (sub_batches s)\<rparr>)"

section \<open>Invariant\<close>

text \<open>Where the \<open>k\<close>-th batch ends.\<close>

definition batch_end :: "nat \<Rightarrow> nat \<Rightarrow> nat \<Rightarrow> nat" where
  "batch_end batch msgs k = min (batch * k) msgs"

definition pub_inv :: "nat \<Rightarrow> nat \<Rightarrow> bench \<Rightarrow> bool" where
  "pub_inv batch msgs s \<longleftrightarrow>
     (case pub_at s of
        Sending k \<Rightarrow> sent s + k = batch_end batch msgs (Suc (pub_batches s)) \<and> batch_end batch msgs (pub_batches s) < msgs
      | AwaitToken \<Rightarrow> sent s = batch_end batch msgs (Suc (pub_batches s)) \<and> batch_end batch msgs (pub_batches s) < msgs
      | PubDone \<Rightarrow> sent s = msgs \<and> batch_end batch msgs (pub_batches s) = msgs)"

definition sub_inv :: "nat \<Rightarrow> nat \<Rightarrow> bench \<Rightarrow> bool" where
  "sub_inv batch msgs s \<longleftrightarrow> batch_end batch msgs (sub_batches s) \<le> received s \<and>
     (case sub_at s of
        Receiving k \<Rightarrow> received s + k = batch_end batch msgs (Suc (sub_batches s)) \<and> batch_end batch msgs (sub_batches s) < msgs
      | SubDone \<Rightarrow> received s = msgs \<and> batch_end batch msgs (sub_batches s) = msgs)"

definition bench_inv :: "nat \<Rightarrow> nat \<Rightarrow> bench \<Rightarrow> bool" where
  "bench_inv batch msgs s \<longleftrightarrow> pub_inv batch msgs s \<and> sub_inv batch msgs s \<and>
     sub_batches s = pub_batches s + tokens s"

lemma batch_end_Suc_le: "batch_end batch msgs (Suc k) \<le> batch_end batch msgs k + batch"
  by (auto simp: batch_end_def)

lemma batch_end_mono: "j \<le> k \<Longrightarrow> batch_end batch msgs j \<le> batch_end batch msgs k"
  by (simp add: batch_end_def min.coboundedI1 mult_le_mono2 min_le_iff_disj)

lemma batch_end_next:
  "batch_end batch msgs k < msgs \<Longrightarrow>
   batch_end batch msgs k + min batch (msgs - batch_end batch msgs k) = batch_end batch msgs (Suc k)"
  by (auto simp: batch_end_def min_def)

lemma batch_end_le: "batch_end batch msgs k \<le> msgs"
  by (simp add: batch_end_def)

lemma bench_inv_init: "bench_inv batch msgs (bench_init batch msgs)"
  using batch_end_next [of batch msgs 0]
  by (auto simp: bench_inv_def pub_inv_def sub_inv_def bench_init_def pub_head_def sub_head_def)
    (auto simp: batch_end_def)

lemma bench_inv_step: "bench_step batch msgs s s' \<Longrightarrow> bench_inv batch msgs s \<Longrightarrow> bench_inv batch msgs s'"
proof (induction rule: bench_step.induct)
  case (take_token s)
  then have "sent s = batch_end batch msgs (Suc (pub_batches s))" by (simp add: bench_inv_def pub_inv_def)
  with take_token batch_end_next [of batch msgs "Suc (pub_batches s)"] batch_end_le [of batch msgs "Suc (pub_batches s)"]
  show ?case by (auto simp: bench_inv_def pub_inv_def sub_inv_def pub_head_def split: sub_pc.splits)
next
  case (give_token s)
  then have "received s = batch_end batch msgs (Suc (sub_batches s))" by (simp add: bench_inv_def sub_inv_def)
  with give_token batch_end_next [of batch msgs "Suc (sub_batches s)"] batch_end_le [of batch msgs "Suc (sub_batches s)"]
  show ?case by (auto simp: bench_inv_def pub_inv_def sub_inv_def sub_head_def split: pub_pc.splits)
qed (auto simp: bench_inv_def pub_inv_def sub_inv_def split: pub_pc.splits sub_pc.splits)

text \<open>
  The steps still to do. A batch is at least one message, so a side has at most \<open>msgs\<close> batches.
\<close>

definition bench_rank :: "nat \<Rightarrow> bench \<Rightarrow> nat" where
  "bench_rank msgs s =
     (msgs - sent s) + (msgs - received s) + 2 * (msgs - pub_batches s) + (msgs - sub_batches s) +
     (case pub_at s of Sending k \<Rightarrow> 1 | _ \<Rightarrow> 0)"

lemma batches_less:
  assumes "0 < batch" and "batch_end batch msgs k < msgs"
  shows "k < msgs"
proof -
  from assms(1) have "k \<le> batch * k" by simp
  also from assms(2) have "\<dots> < msgs" by (simp add: batch_end_def min_less_iff_disj)
  finally show ?thesis .
qed

lemma bench_rank_step:
  "bench_step batch msgs s s' \<Longrightarrow> 0 < batch \<and> bench_inv batch msgs s \<Longrightarrow> bench_rank msgs s' < bench_rank msgs s"
proof (induction rule: bench_step.induct)
  case (publish s k)
  then have "sent s < msgs" using batch_end_le [of batch msgs "Suc (pub_batches s)"]
    by (auto simp: bench_inv_def pub_inv_def)
  with publish show ?case by (simp add: bench_rank_def)
next
  case (batch_sent s)
  then show ?case by (simp add: bench_rank_def)
next
  case (take_token s)
  then have "0 < batch" "batch_end batch msgs (pub_batches s) < msgs" by (simp_all add: bench_inv_def pub_inv_def)
  then have "pub_batches s < msgs" by (rule batches_less)
  with take_token(1) show ?case by (auto simp: bench_rank_def pub_head_def)
next
  case (receive_one s k)
  then have "received s < msgs" using batch_end_le [of batch msgs "Suc (sub_batches s)"]
    by (auto simp: bench_inv_def sub_inv_def)
  with receive_one show ?case by (simp add: bench_rank_def)
next
  case (give_token s)
  then have "0 < batch" "batch_end batch msgs (sub_batches s) < msgs" unfolding bench_inv_def sub_inv_def by auto
  then have "sub_batches s < msgs" by (rule batches_less)
  with give_token(1) show ?case by (simp add: bench_rank_def)
qed

interpretation bench: ranked_steps "bench_step batch msgs" "\<lambda>s. 0 < batch \<and> bench_inv batch msgs s" "bench_rank msgs"
  for batch msgs :: nat
  by unfold_locales (auto intro: bench_inv_step bench_rank_step)

lemma bench_inv_run: "(bench_step batch msgs ^^ n) (bench_init batch msgs) s \<Longrightarrow> bench_inv batch msgs s"
  by (induction n arbitrary: s) (auto intro: bench_inv_init bench_inv_step)

lemma bench_outstanding:
  assumes "bench_inv batch msgs s"
  shows "sent s \<le> received s + batch"
proof -
  have "sent s \<le> batch_end batch msgs (Suc (pub_batches s))"
    using assms batch_end_mono [of "pub_batches s" "Suc (pub_batches s)" batch msgs]
    by (auto simp: bench_inv_def pub_inv_def split: pub_pc.splits)
  also have "\<dots> \<le> batch_end batch msgs (pub_batches s) + batch" by (rule batch_end_Suc_le)
  also have "\<dots> \<le> batch_end batch msgs (sub_batches s) + batch"
    using assms batch_end_mono [of "pub_batches s" "sub_batches s" batch msgs] by (simp add: bench_inv_def)
  also have "\<dots> \<le> received s + batch" using assms unfolding bench_inv_def sub_inv_def by auto
  finally show ?thesis .
qed

lemma bench_rank_init: "bench_rank msgs (bench_init batch msgs) \<le> 5 * msgs + 1"
  by (simp add: bench_rank_def bench_init_def pub_head_def)

text \<open>As many messages as the queue holds are all kept.\<close>

lemma items_fit:
  assumes "length xs \<le> cap"
  shows "items (foldl pushed (queue_new cap) xs) = xs"
proof -
  have "items (foldl pushed (queue_new cap) xs) = last_n (queue_bound (queue_new cap :: 'a queue)) xs"
    using outq.contents_foldl_enq [OF queue_wf_new, of cap xs] by (simp add: queue_new_def)
  with assms show ?thesis by (simp add: queue_bound_def queue_new_def)
qed

text \<open>With a batch of at least one message neither side can wait for the other for good.\<close>

lemma bench_progress:
  assumes inv: "bench_inv batch msgs s" and live: "pub_at s \<noteq> PubDone \<or> sub_at s \<noteq> SubDone"
  shows "\<exists>s'. bench_step batch msgs s s'"
proof (cases "pub_at s")
  case (Sending k)
  then show ?thesis by (cases k) (blast intro: batch_sent publish)+
next
  case AwaitToken
  show ?thesis
  proof (cases "0 < tokens s")
    case True
    with AwaitToken show ?thesis by (blast intro: take_token)
  next
    case False
    with inv have eq: "sub_batches s = pub_batches s" by (simp add: bench_inv_def)
    with inv AwaitToken have "sub_at s \<noteq> SubDone" by (auto simp: bench_inv_def pub_inv_def sub_inv_def)
    then obtain k where k: "sub_at s = Receiving k" by (cases "sub_at s") auto
    show ?thesis
    proof (cases k)
      case 0
      with k False show ?thesis by (auto intro: give_token)
    next
      case (Suc k')
      with inv eq AwaitToken k have "received s < sent s"
        by (simp add: bench_inv_def pub_inv_def sub_inv_def)
      with k Suc show ?thesis by (blast intro: receive_one)
    qed
  qed
next
  case PubDone
  with inv have "batch_end batch msgs (sub_batches s) = msgs"
    using batch_end_mono [of "pub_batches s" "sub_batches s" batch msgs] batch_end_le [of batch msgs "sub_batches s"]
    by (simp add: bench_inv_def pub_inv_def)
  with inv have "sub_at s = SubDone" by (auto simp: bench_inv_def sub_inv_def split: sub_pc.splits)
  with PubDone live show ?thesis by simp
qed

lemma bench_halted:
  assumes "bench_inv batch msgs s" and "halted (bench_step batch msgs) s"
  shows "pub_at s = PubDone \<and> sub_at s = SubDone \<and> sent s = msgs \<and> received s = msgs"
proof -
  from bench_progress [OF assms(1)] assms(2) have "pub_at s = PubDone" "sub_at s = SubDone"
    by (auto simp: halted_def)
  with assms(1) show ?thesis by (simp add: bench_inv_def pub_inv_def sub_inv_def)
qed

section \<open>Properties\<close>



end
