(* ===== verification/Bench_Setup.thy ===== *)
theory Bench_Setup
  imports Bench_Wire Step_Systems
begin

text \<open>
  The set-up of the benchmark (\<open>main\<close> of \<open>src/bin/shard_benchmark.rs\<close>): the main thread starts a
  subscriber and a publisher for every channel and waits with all of them at a barrier for
  \<open>2 * channels + 1\<close> parties. A worker that cannot connect counts an error and returns; a
  subscriber whose subscription fails panics. Workers are numbered in the order they are started, so the
  subscribers have the even numbers.
\<close>

datatype worker = Connecting | AtBarrier | Returned | Panicked | Passed

datatype main_at = Spawning nat | MainAtBarrier | MainPassed

record bench_setup =
  workers :: "worker list"
  main_thread :: main_at
  error_count :: nat

definition setup_init :: bench_setup where
  "setup_init = \<lparr>workers = [], main_thread = Spawning 0, error_count = 0\<rparr>"

definition barrier_size :: "nat \<Rightarrow> nat" where
  "barrier_size channels = channels * 2 + 1"

text \<open>How many parties wait.\<close>

definition waiting :: "bench_setup \<Rightarrow> nat" where
  "waiting s = length (filter (\<lambda>w. w = AtBarrier) (workers s)) + (if main_thread s = MainAtBarrier then 1 else 0)"

definition release_all :: "bench_setup \<Rightarrow> bench_setup" where
  "release_all s =
     s\<lparr>workers := map (\<lambda>w. if w = AtBarrier then Passed else w) (workers s),
       main_thread := (if main_thread s = MainAtBarrier then MainPassed else main_thread s)\<rparr>"

inductive setup_step :: "nat \<Rightarrow> bench_setup \<Rightarrow> bench_setup \<Rightarrow> bool" for channels :: nat where
  spawn: "main_thread s = Spawning c \<Longrightarrow> c < channels \<Longrightarrow>
    setup_step channels s (s\<lparr>workers := workers s @ [Connecting, Connecting], main_thread := Spawning (Suc c)\<rparr>)"
| main_waits: "main_thread s = Spawning c \<Longrightarrow> \<not> c < channels \<Longrightarrow>
    setup_step channels s (s\<lparr>main_thread := MainAtBarrier\<rparr>)"
| connected: "i < length (workers s) \<Longrightarrow> workers s ! i = Connecting \<Longrightarrow>
    setup_step channels s (s\<lparr>workers := (workers s)[i := AtBarrier]\<rparr>)"
| connect_failed: "i < length (workers s) \<Longrightarrow> workers s ! i = Connecting \<Longrightarrow>
    setup_step channels s (s\<lparr>workers := (workers s)[i := Returned], error_count := error_count s + 1\<rparr>)"
| subscribe_failed: "i < length (workers s) \<Longrightarrow> workers s ! i = Connecting \<Longrightarrow> even i \<Longrightarrow>
    setup_step channels s (s\<lparr>workers := (workers s)[i := Panicked]\<rparr>)"
| release: "waiting s = barrier_size channels \<Longrightarrow> setup_step channels s (release_all s)"

section \<open>Invariant\<close>

definition spawned :: "nat \<Rightarrow> bench_setup \<Rightarrow> nat" where
  "spawned channels s = (case main_thread s of Spawning c \<Rightarrow> c | _ \<Rightarrow> channels)"

definition lost :: "bench_setup \<Rightarrow> nat" where
  "lost s = length (filter (\<lambda>w. w = Returned \<or> w = Panicked) (workers s))"

definition setup_inv :: "nat \<Rightarrow> bench_setup \<Rightarrow> bool" where
  "setup_inv channels s \<longleftrightarrow>
     spawned channels s \<le> channels \<and> length (workers s) = 2 * spawned channels s \<and> error_count s \<le> lost s \<and>
     (if main_thread s = MainPassed then \<forall>w \<in> set (workers s). w = Passed else \<forall>w \<in> set (workers s). w \<noteq> Passed)"

text \<open>The barrier opens only when every worker has arrived.\<close>

lemma waiting_full:
  assumes "setup_inv channels s" and "waiting s = barrier_size channels"
  shows "main_thread s = MainAtBarrier \<and> (\<forall>w \<in> set (workers s). w = AtBarrier)"
proof -
  let ?at = "filter (\<lambda>w. w = AtBarrier) (workers s)"
  have le: "length ?at \<le> length (workers s)" by simp
  from assms(1) have len: "length (workers s) \<le> 2 * channels" by (simp add: setup_inv_def)
  have main: "main_thread s = MainAtBarrier"
  proof (rule ccontr)
    assume "main_thread s \<noteq> MainAtBarrier"
    with assms(2) have "length ?at = 2 * channels + 1" by (simp add: waiting_def barrier_size_def)
    with le len show False by linarith
  qed
  with assms(2) have "length ?at = 2 * channels" by (simp add: waiting_def barrier_size_def)
  with le len have "\<not> length ?at < length (workers s)" by linarith
  with main length_filter_less [of _ "workers s" "\<lambda>w. w = AtBarrier"] show ?thesis by blast
qed

lemma lost_update:
  "i < length ws \<Longrightarrow> ws ! i = Connecting \<Longrightarrow>
   length (filter (\<lambda>w. w = Returned \<or> w = Panicked) (ws[i := w])) =
     length (filter (\<lambda>w. w = Returned \<or> w = Panicked) ws) + (if w = Returned \<or> w = Panicked then 1 else 0)"
  by (induction ws arbitrary: i) (auto simp: nth_Cons split: nat.splits)

lemma setup_inv_update:
  assumes "setup_inv channels s" and "i < length (workers s)" and "workers s ! i = Connecting" and "w \<noteq> Passed"
    and "e \<le> (if w = Returned \<or> w = Panicked then 1 else 0)"
  shows "setup_inv channels (s\<lparr>workers := (workers s)[i := w], error_count := error_count s + e\<rparr>)"
proof -
  from assms(2,3) have "Connecting \<in> set (workers s)" by (metis nth_mem)
  with assms(1) have "main_thread s \<noteq> MainPassed" and "\<forall>w \<in> set (workers s). w \<noteq> Passed"
    by (auto simp: setup_inv_def split: if_splits)
  moreover have "\<forall>v \<in> set ((workers s)[i := w]). v \<noteq> Passed"
    using calculation(2) assms(4) set_update_subset_insert [of "workers s" i w] by blast
  ultimately show ?thesis
    using assms lost_update [OF assms(2,3), of w]
    by (auto simp: setup_inv_def lost_def spawned_def split: if_splits)
qed

lemma setup_inv_step: "setup_step channels s s' \<Longrightarrow> setup_inv channels s \<Longrightarrow> setup_inv channels s'"
proof (induction rule: setup_step.induct)
  case (connected i s)
  then show ?case using setup_inv_update [of channels s i AtBarrier 0] by simp
next
  case (connect_failed i s)
  then show ?case using setup_inv_update [of channels s i Returned 1] by simp
next
  case (subscribe_failed i s)
  then show ?case using setup_inv_update [of channels s i Panicked 0] by simp
next
  case (release s)
  with waiting_full have all: "main_thread s = MainAtBarrier" "\<forall>w \<in> set (workers s). w = AtBarrier" by blast+
  then have "lost s = 0" by (auto simp: lost_def filter_empty_conv)
  with release all show ?case
    by (auto simp: setup_inv_def release_all_def spawned_def)
qed (auto simp: setup_inv_def spawned_def lost_def split: if_splits)

lemma setup_inv_init: "setup_inv channels setup_init"
  by (simp add: setup_inv_def setup_init_def spawned_def lost_def)

section \<open>Every set-up ends\<close>

definition setup_rank :: "nat \<Rightarrow> bench_setup \<Rightarrow> nat" where
  "setup_rank channels s =
     3 * (channels - spawned channels s) + length (filter (\<lambda>w. w = Connecting) (workers s)) +
     (case main_thread s of Spawning c \<Rightarrow> 2 | MainAtBarrier \<Rightarrow> 1 | MainPassed \<Rightarrow> 0)"

lemma connecting_update:
  "i < length ws \<Longrightarrow> ws ! i = Connecting \<Longrightarrow> w \<noteq> Connecting \<Longrightarrow>
   length (filter (\<lambda>w. w = Connecting) (ws[i := w])) < length (filter (\<lambda>w. w = Connecting) ws)"
  by (induction ws arbitrary: i) (auto simp: nth_Cons split: nat.splits)

lemma setup_rank_step:
  "setup_step channels s s' \<Longrightarrow> setup_inv channels s \<Longrightarrow> setup_rank channels s' < setup_rank channels s"
proof (induction rule: setup_step.induct)
  case (main_waits s c)
  then show ?case by (simp add: setup_rank_def spawned_def setup_inv_def)
next
  case (release s)
  with waiting_full have "main_thread s = MainAtBarrier" "\<forall>w \<in> set (workers s). w = AtBarrier" by blast+
  then show ?case by (auto simp: setup_rank_def release_all_def spawned_def filter_empty_conv)
qed (auto simp: setup_rank_def spawned_def connecting_update)

interpretation starting: ranked_steps "setup_step channels" "setup_inv channels" "setup_rank channels"
  for channels :: nat
  by unfold_locales (blast intro: setup_inv_step setup_rank_step)+

lemma setup_inv_run: "(setup_step channels ^^ n) setup_init s \<Longrightarrow> setup_inv channels s"
  using starting.run_inv setup_inv_init by blast

lemma setup_halted:
  assumes inv: "setup_inv channels s" and halt: "halted (setup_step channels) s"
  shows "main_thread s = MainPassed \<or> main_thread s = MainAtBarrier \<and> 0 < lost s"
proof (cases "main_thread s")
  case (Spawning c)
  with halt spawn [of s c channels] main_waits [of s c channels] show ?thesis by (cases "c < channels") (auto simp: halted_def)
next
  case MainAtBarrier
  have connecting: "w \<noteq> Connecting" if w: "w \<in> set (workers s)" for w
  proof
    assume "w = Connecting"
    with w obtain i where "i < length (workers s)" "workers s ! i = Connecting" by (auto simp: in_set_conv_nth)
    with connected halt show False by (auto simp: halted_def)
  qed
  have "\<forall>w \<in> set (workers s). w \<noteq> Passed" using inv MainAtBarrier by (simp add: setup_inv_def)
  with connecting have settled: "\<forall>w \<in> set (workers s). w = AtBarrier \<or> w = Returned \<or> w = Panicked"
    by (meson worker.exhaust)
  have "waiting s \<noteq> barrier_size channels" using halt release by (auto simp: halted_def)
  moreover have "length (workers s) = 2 * channels" using inv MainAtBarrier by (simp add: setup_inv_def spawned_def)
  ultimately have short: "length (filter (\<lambda>w. w = AtBarrier) (workers s)) \<noteq> length (workers s)"
    using MainAtBarrier by (simp add: waiting_def barrier_size_def)
  have "\<not> (\<forall>w \<in> set (workers s). w = AtBarrier)"
  proof
    assume "\<forall>w \<in> set (workers s). w = AtBarrier"
    then have "filter (\<lambda>w. w = AtBarrier) (workers s) = workers s" by (rule filter_True)
    with short show False by simp
  qed
  with settled have "\<exists>w \<in> set (workers s). w = Returned \<or> w = Panicked" by blast
  then have "0 < lost s" by (auto simp: lost_def filter_empty_conv)
  with MainAtBarrier show ?thesis by simp
qed simp

section \<open>Properties\<close>

text \<open>C39: The set-up of the benchmark always comes to an end, after at most \<open>3 * channels + 2\<close> steps, and
  the main thread passes the barrier only if every worker did and no connection failed. So the warning
  about connection errors at the end of \<open>main\<close> can never be printed: with an error the main thread
  stays at the barrier.\<close>

theorem benchmark_waits_for_every_connection:
  assumes "(setup_step channels ^^ n) setup_init s"
  shows "n \<le> 3 * channels + 2 \<and>
    (main_thread s = MainPassed \<longrightarrow> error_count s = 0 \<and> workers s = replicate (2 * channels) Passed) \<and>
    (halted (setup_step channels) s \<and> 0 < error_count s \<longrightarrow> main_thread s = MainAtBarrier)"
proof (intro conjI impI)
  note inv = setup_inv_run [OF assms]
  show "n \<le> 3 * channels + 2"
    using starting.run_bound [OF assms setup_inv_init] by (simp add: setup_rank_def setup_init_def spawned_def)
  assume "main_thread s = MainPassed"
  with inv have all: "\<forall>w \<in> set (workers s). w = Passed" "length (workers s) = 2 * channels" "error_count s \<le> lost s"
    by (simp_all add: setup_inv_def spawned_def)
  then show "workers s = replicate (2 * channels) Passed" by (simp add: replicate_eqI)
  from all have "lost s = 0" by (auto simp: lost_def filter_empty_conv)
  with all show "error_count s = 0" by simp
next
  note inv = setup_inv_run [OF assms]
  assume stop: "halted (setup_step channels) s \<and> 0 < error_count s"
  have "main_thread s \<noteq> MainPassed"
  proof
    assume "main_thread s = MainPassed"
    with inv have "lost s = 0" by (auto simp: setup_inv_def lost_def filter_empty_conv)
    with inv stop show False by (simp add: setup_inv_def)
  qed
  with setup_halted [OF inv] stop show "main_thread s = MainAtBarrier" by blast
qed

text \<open>One channel whose subscriber cannot connect.\<close>

definition failed_setup :: bench_setup where
  "failed_setup = \<lparr>workers = [Returned, AtBarrier], main_thread = MainAtBarrier, error_count = 1\<rparr>"

lemma failed_setup_run: "(setup_step 1 ^^ 4) setup_init failed_setup"
proof -
  let ?s1 = "\<lparr>workers = [Connecting, Connecting], main_thread = Spawning 1, error_count = 0\<rparr>"
  let ?s2 = "\<lparr>workers = [Returned, Connecting], main_thread = Spawning 1, error_count = 1\<rparr>"
  let ?s3 = "\<lparr>workers = [Returned, AtBarrier], main_thread = Spawning 1, error_count = 1\<rparr>"
  have "setup_step 1 setup_init ?s1" using spawn [of setup_init 0 1] by (simp add: setup_init_def)
  moreover have "setup_step 1 ?s1 ?s2" using connect_failed [of 0 ?s1 1] by simp
  moreover have "setup_step 1 ?s2 ?s3" using connected [of 1 ?s2 1] by simp
  moreover have "setup_step 1 ?s3 failed_setup" using main_waits [of ?s3 1 1] by (simp add: failed_setup_def)
  ultimately show ?thesis by (auto simp: eval_nat_numeral intro!: relcomppI)
qed

theorem benchmark_waits_for_every_connection_witness:
  "\<exists>s. (setup_step 1 ^^ 4) setup_init s \<and> 0 < error_count s \<and> main_thread s \<noteq> MainPassed"
proof -
  from benchmark_waits_for_every_connection [OF failed_setup_run]
  have "main_thread failed_setup = MainPassed \<longrightarrow> error_count failed_setup = 0" by blast
  with failed_setup_run show ?thesis by (intro exI [of _ failed_setup]) (simp add: failed_setup_def)
qed

end
