(* ===== verification/Deliveries.thy ===== *)
theory Deliveries
  imports Cluster Step_Systems "HOL-Library.Multiset"
begin

text \<open>
  Whole runs of the sharded broker against the sequential one. What a shard pushes is logged, delivery by
  delivery; the abstract broker of \<open>Registry_Spec\<close> says for each message which deliveries it causes. Once
  every message is handled, the logs of all shards together are the deliveries of the abstract broker
  taking the messages in the order sent: the shards may change the order, but lose, add and misdirect
  nothing.
\<close>

section \<open>What a message delivers\<close>

type_synonym delivery = "handle \<times> publish_packet"

definition apply_log :: "delivery list \<Rightarrow> queue_store \<Rightarrow> queue_store" where
  "apply_log ds st = foldl (\<lambda>st (h, p). push_event (Publish p) h st) st ds"

text \<open>The deliveries of one handler, from the same passes that \<open>handle_message\<close> makes.\<close>

fun handler_log :: "string list \<Rightarrow> broker_message \<Rightarrow> shard \<times> queue_store \<Rightarrow> delivery list" where
  "handler_log ks (PublishFrom from p) s =
     map (\<lambda>sid. (cs_outbound (the (clients (fst s) sid)), p)) (notified ks p s)"
| "handler_log ks (SubscribeTo cid topic) s =
     (case clients (fst s) cid of
        None \<Rightarrow> []
      | Some client \<Rightarrow> map (Pair (cs_outbound client)) (replay ks topic (retained (fst s))))"
| "handler_log ks _ s = []"

text \<open>The deliveries the abstract broker makes.\<close>

fun spec_log :: "broker_message \<Rightarrow> registry \<Rightarrow> delivery multiset" where
  "spec_log (PublishFrom from p) R =
     image_mset (\<lambda>i. (cs_outbound (the (reg_clients R i)), p)) (mset_set (spec_recipients R (pub_topic p)))"
| "spec_log (SubscribeTo cid f) R =
     (case reg_clients R cid of
        None \<Rightarrow> {#}
      | Some client \<Rightarrow> image_mset (Pair (cs_outbound client)) (mset_set (spec_replay R f)))"
| "spec_log _ R = {#}"

lemma apply_log_Nil [simp]: "apply_log [] st = st"
  by (simp add: apply_log_def)

lemma apply_log_append: "apply_log (ds @ ds') st = apply_log ds' (apply_log ds st)"
  by (simp add: apply_log_def)

text \<open>A queue receives its own deliveries in the order of the log.\<close>

lemma apply_log_queue:
  "apply_log ds st h = foldl pushed (st h) (map (\<lambda>d. Packet (Publish (snd d))) (filter (\<lambda>d. fst d = h) ds))"
  by (induction ds arbitrary: st) (auto simp: apply_log_def push_event_def)

lemma deliver_all_log:
  "set rs \<subseteq> dom cs \<Longrightarrow> deliver_all cs p rs st = apply_log (map (\<lambda>sid. (cs_outbound (the (cs sid)), p)) rs) st"
  by (induction rs arbitrary: st) (auto simp: deliver_all_def apply_log_def)

lemma handler_log_pushes:
  assumes inv: "shard_inv sh" and ord: "handler_order sh m ks" and ok: "message_ok m"
  shows "snd (handle_message ks m (sh, st)) = apply_log (handler_log ks m (sh, st)) st"
proof (cases m)
  case (PublishFrom src p)
  from inv have "subs_distinct (topics sh)" by (simp add: shard_inv_def)
  from handle_publish_delivers [OF this, of ks p st] PublishFrom ord ok
  have "snd (handle_publish ks p (sh, st)) = deliver_all (clients sh) p (notified ks p (sh, st)) st"
    and "set (notified ks p (sh, st)) \<subseteq> dom (clients sh)"
    by (auto simp: recipients_def)
  with PublishFrom show ?thesis by (simp add: deliver_all_log)
next
  case (SubscribeTo cid f)
  have "foldl (\<lambda>st p. push_event (Publish p) h st) st ps = apply_log (map (Pair h) ps) st" for h ps
    by (induction ps arbitrary: st) (simp_all add: apply_log_def)
  with SubscribeTo show ?thesis by (simp add: handle_subscribe_def Let_def split: option.split)
qed (simp_all add: handle_register_def handle_unsubscribe_def handle_disconnect_def)

lemma handler_log_spec:
  assumes inv: "shard_inv sh" and ord: "handler_order sh m ks" and ok: "message_ok m"
  shows "mset (handler_log ks m (sh, st)) = spec_log m (abs_shard sh)"
proof (cases m)
  case (PublishFrom src p)
  from inv have "subs_distinct (topics sh)" by (simp add: shard_inv_def)
  from handle_publish_delivers [OF this, of ks p st] PublishFrom ord ok
  have "distinct (notified ks p (sh, st))" "set (notified ks p (sh, st)) = recipients sh (pub_topic p)" by auto
  then have "mset (notified ks p (sh, st)) = mset_set (recipients sh (pub_topic p))" by (metis mset_set_set)
  moreover have "reg_clients (abs_shard sh) = clients sh" by (simp add: abs_shard_def)
  ultimately show ?thesis by (simp add: PublishFrom recipients_abs)
next
  case (SubscribeTo cid f)
  let ?ps = "replay ks f (retained sh)"
  from inv ord SubscribeTo have "distinct (map pub_topic ?ps)"
    by (intro replay_topics_distinct) (auto simp: shard_inv_def)
  then have "distinct ?ps" by (simp add: distinct_map)
  moreover have "set ?ps = spec_replay (abs_shard sh) f" using replay_abs [OF inv] ord SubscribeTo by simp
  ultimately have "mset ?ps = mset_set (spec_replay (abs_shard sh) f)" by (metis mset_set_set)
  moreover have "reg_clients (abs_shard sh) = clients sh" by (simp add: abs_shard_def)
  ultimately show ?thesis by (auto simp: SubscribeTo split: option.split)
qed simp_all

section \<open>The shards' shares add up\<close>

lemma retained_topic:
  "reg_retained (spec_run ms registry_init) t = Some p \<Longrightarrow> pub_topic p = t"
proof (induction ms arbitrary: t p rule: rev_induct)
  case Nil
  then show ?case by (simp add: registry_init_def)
next
  case (snoc m ms)
  then show ?case by (cases m) (auto simp: spec_run_append split: if_splits)
qed

lemma finite_retained: "finite (dom (reg_retained (spec_run ms registry_init)))"
proof (induction ms rule: rev_induct)
  case Nil
  then show ?case by (simp add: registry_init_def)
next
  case (snoc m ms)
  then show ?case by (cases m) (auto simp: spec_run_append)
qed

lemma finite_spec_replay: "finite (dom (reg_retained R)) \<Longrightarrow> finite (spec_replay R f)"
  by (rule finite_subset [of _ "(\<lambda>t. the (reg_retained R t)) ` dom (reg_retained R)"]) (force simp: spec_replay_def)+

lemma mset_set_UN_disjoint:
  "finite I \<Longrightarrow> (\<And>i. i \<in> I \<Longrightarrow> finite (A i)) \<Longrightarrow> (\<And>i j. i \<in> I \<Longrightarrow> j \<in> I \<Longrightarrow> i \<noteq> j \<Longrightarrow> A i \<inter> A j = {}) \<Longrightarrow>
   mset_set (\<Union>i \<in> I. A i) = (\<Sum>i \<in> I. mset_set (A i))"
proof (induction I rule: finite_induct)
  case (insert i I)
  then have "A i \<inter> (\<Union>j \<in> I. A j) = {}" by blast
  with insert show ?case by (simp add: mset_set_Union)
qed simp

lemma image_mset_sum: "image_mset f (\<Sum>i \<in> I. A i) = (\<Sum>i \<in> I. image_mset f (A i))"
  by (induction I rule: infinite_finite_induct) simp_all

text \<open>Each delivery of a message is made by exactly one of the shards it concerns.\<close>

lemma spec_log_shares:
  assumes n: "0 < n" and R: "R = spec_run ms registry_init"
  shows "(\<Sum>i < n. if concerns (owner hash n) i m then spec_log m (view (owner hash n) i R) else {#}) = spec_log m R"
proof -
  let ?own = "owner hash n"
  have own: "?own t < n" for t using shard_for_topic_less [OF n] by (simp add: owner_def)
  show ?thesis
  proof (cases m)
    case (PublishFrom src p)
    have "(\<Sum>i < n. if concerns ?own i m then spec_log m (view ?own i R) else {#}) =
        (\<Sum>i < n. if i = ?own (pub_topic p) then spec_log m R else {#})"
      using PublishFrom by (intro sum.cong) (auto simp: spec_recipients_view)
    also have "\<dots> = spec_log m R" using own by simp
    finally show ?thesis .
  next
    case (SubscribeTo cid f)
    show ?thesis
    proof (cases "is_wildcard_filter f")
      case True
      have fin: "finite (spec_replay (view ?own i R) f)" for i
      proof (rule finite_subset [OF _ finite_spec_replay])
        show "spec_replay (view ?own i R) f \<subseteq> spec_replay R f" by (auto simp: spec_replay_def view_def split: if_splits)
        show "finite (dom (reg_retained R))" using finite_retained R by blast
      qed
      have disj: "spec_replay (view ?own i R) f \<inter> spec_replay (view ?own j R) f = {}" if "i \<noteq> j" for i j
        using that by (auto simp: R spec_replay_def view_def split: if_splits dest!: retained_topic)
      have "spec_replay R f = (\<Union>i < n. spec_replay (view ?own i R) f)"
        using spec_replay_views [of ?own R "{..<n}" f] own by auto
      then have "mset_set (spec_replay R f) = (\<Sum>i < n. mset_set (spec_replay (view ?own i R) f))"
        using mset_set_UN_disjoint [of "{..<n}" "\<lambda>i. spec_replay (view ?own i R) f"] fin disj by simp
      then show ?thesis
        using SubscribeTo True by (cases "reg_clients R cid") (simp_all add: image_mset_sum)
    next
      case False
      have "(\<Sum>i < n. if concerns ?own i m then spec_log m (view ?own i R) else {#}) =
          (\<Sum>i < n. if i = ?own f then spec_log m R else {#})"
        using SubscribeTo False by (intro sum.cong) (auto simp: spec_replay_exact [OF False refl] split: option.split)
      also have "\<dots> = spec_log m R" using own by simp
      finally show ?thesis .
    qed
  qed (auto intro: sum.neutral)
qed

section \<open>Logged runs\<close>

text \<open>A run of the shards that also keeps, for each shard, what it has delivered.\<close>

inductive logged_run :: "(string \<Rightarrow> u64) \<Rightarrow> cluster \<Rightarrow> (nat \<Rightarrow> delivery list) \<Rightarrow> cluster \<Rightarrow> bool"
  for hash :: "string \<Rightarrow> u64" and c0 :: cluster where
  log_init: "logged_run hash c0 (\<lambda>_. []) c0"
| log_handle: "logged_run hash c0 L c \<Longrightarrow> i < length (cl_shards c) \<Longrightarrow> inbox (cl_chans c ! i) = m # ms \<Longrightarrow>
    handler_order (cl_shards c ! i) m ks \<Longrightarrow>
    logged_run hash c0 (L(i := L i @ handler_log ks m (cl_shards c ! i, cl_store c))) (after_handle i ks m ms c)"
| log_other: "logged_run hash c0 L c \<Longrightarrow> cluster_step hash c e c' \<Longrightarrow> (\<And>i m. e \<noteq> Handled i m) \<Longrightarrow>
    logged_run hash c0 L c'"

lemma logged_run_exists: "cluster_run hash c0 es c \<Longrightarrow> \<exists>L. logged_run hash c0 L c"
proof (induction rule: cluster_run.induct)
  case (cl_snoc c es c' e c'')
  then obtain L where L: "logged_run hash c L c'" by blast
  from cl_snoc.hyps(2) show ?case
  proof cases
    case (cl_handle i m ms ks)
    with log_handle [OF L] show ?thesis by blast
  qed (use log_other [OF L cl_snoc.hyps(2)] in auto)
qed (auto intro: log_init)

text \<open>
  The share of shard \<open>i\<close> in the deliveries of the first \<open>k\<close> messages.
\<close>

definition share :: "(string \<Rightarrow> u64) \<Rightarrow> nat \<Rightarrow> broker_message list \<Rightarrow> nat \<Rightarrow> nat \<Rightarrow> delivery multiset" where
  "share hash n ms i k =
     (\<Sum>j < k. if concerns (owner hash n) i (ms ! j)
               then spec_log (ms ! j) (view (owner hash n) i (spec_run (take j ms) registry_init)) else {#})"

definition log_inv :: "(string \<Rightarrow> u64) \<Rightarrow> nat \<Rightarrow> (nat \<Rightarrow> delivery list) \<Rightarrow> cluster \<Rightarrow> bool" where
  "log_inv hash n L c \<longleftrightarrow> shards_up n (cl_chans c) \<and> length (cl_shards c) = n \<and>
     (\<forall>i < n. \<exists>k \<le> length (cl_sent c). shard_at hash n (cl_sent c) i k (cl_shards c ! i) \<and>
        inbox (cl_chans c ! i) = filter (concerns (owner hash n) i) (drop k (cl_sent c)) \<and>
        mset (L i) = share hash n (cl_sent c) i k)"

lemma share_append: "k \<le> length ms \<Longrightarrow> share hash n (ms @ ms') i k = share hash n ms i k"
  unfolding share_def by (intro sum.cong) (auto simp: nth_append)

text \<open>Messages that do not concern a shard add nothing to its share.\<close>

lemma share_skip:
  assumes "k \<le> j" and "\<And>l. k \<le> l \<Longrightarrow> l < j \<Longrightarrow> \<not> concerns (owner hash n) i (ms ! l)"
  shows "share hash n ms i j = share hash n ms i k"
proof -
  have "{..<j} = {..<k} \<union> {k..<j}" using assms(1) by auto
  moreover have "(\<Sum>l \<in> {k..<j}. if concerns (owner hash n) i (ms ! l)
      then spec_log (ms ! l) (view (owner hash n) i (spec_run (take l ms) registry_init)) else {#}) = {#}"
    using assms(2) by (intro sum.neutral) auto
  ultimately show ?thesis unfolding share_def by (simp add: sum.union_disjoint ivl_disj_int)
qed

lemma share_Suc:
  "concerns (owner hash n) i (ms ! j) \<Longrightarrow>
   share hash n ms i (Suc j) = share hash n ms i j + spec_log (ms ! j) (view (owner hash n) i (spec_run (take j ms) registry_init))"
  by (simp add: share_def)

lemma shard_at_skip:
  assumes "shard_at hash n ms i k sh" and "k \<le> j" and "j \<le> length ms"
    and "\<And>l. k \<le> l \<Longrightarrow> l < j \<Longrightarrow> \<not> concerns (owner hash n) i (ms ! l)"
  shows "shard_at hash n ms i j sh"
  using assms(2-4)
proof (induction rule: dec_induct)
  case (step l)
  then have "shard_at hash n ms i l sh" by simp
  moreover have "\<not> concerns (owner hash n) i (ms ! l)" using step by simp
  ultimately show ?case using step by (simp add: shard_at_def spec_run_take_Suc view_step)
qed (use assms(1) in simp)

text \<open>The first element of a filtered rest, and where it stands.\<close>

lemma filter_drop_Cons:
  assumes "filter P (drop k xs) = x # ys"
  shows "\<exists>j. k \<le> j \<and> j < length xs \<and> xs ! j = x \<and> P x \<and> (\<forall>l. k \<le> l \<and> l < j \<longrightarrow> \<not> P (xs ! l)) \<and>
    ys = filter P (drop (Suc j) xs)"
  using assms
proof (induction "length xs - k" arbitrary: k)
  case 0
  then show ?case by simp
next
  case (Suc d)
  then have k: "k < length xs" by simp
  then have drop: "drop k xs = xs ! k # drop (Suc k) xs" by (simp add: Cons_nth_drop_Suc)
  show ?case
  proof (cases "P (xs ! k)")
    case True
    with Suc.prems k drop show ?thesis by (intro exI [of _ k]) auto
  next
    case False
    with Suc.prems drop have "filter P (drop (Suc k) xs) = x # ys" by simp
    moreover have "d = length xs - Suc k" using Suc.hyps(2) by simp
    ultimately obtain j where j: "Suc k \<le> j" "j < length xs" "xs ! j = x" "P x"
      "\<forall>l. Suc k \<le> l \<and> l < j \<longrightarrow> \<not> P (xs ! l)" "ys = filter P (drop (Suc j) xs)"
      using Suc.hyps(1) by blast
    with False have "\<forall>l. k \<le> l \<and> l < j \<longrightarrow> \<not> P (xs ! l)" by (metis Suc_leI le_neq_implies_less)
    with j show ?thesis by (intro exI [of _ j]) auto
  qed
qed

lemma log_inv_send:
  assumes "log_inv hash n L c"
  shows "log_inv hash n L (after_send hash m c)"
proof -
  let ?c = "after_send hash m c"
  from assms have up: "shards_up n (cl_chans c)" and len: "length (cl_shards c) = n" by (simp_all add: log_inv_def)
  have "\<exists>k \<le> length (cl_sent ?c). shard_at hash n (cl_sent ?c) i k (cl_shards ?c ! i) \<and>
      inbox (cl_chans ?c ! i) = filter (concerns (owner hash n) i) (drop k (cl_sent ?c)) \<and>
      mset (L i) = share hash n (cl_sent ?c) i k" if i: "i < n" for i
  proof -
    from assms i obtain k where "k \<le> length (cl_sent c)" "shard_at hash n (cl_sent c) i k (cl_shards c ! i)"
      "inbox (cl_chans c ! i) = filter (concerns (owner hash n) i) (drop k (cl_sent c))"
      "mset (L i) = share hash n (cl_sent c) i k"
      unfolding log_inv_def by blast
    with after_send_chans(2) [OF up i, of hash m] show ?thesis
      by (intro exI [of _ k]) (simp add: after_send_def shard_at_def share_append)
  qed
  with after_send_chans(1) [OF up] len show ?thesis by (simp add: log_inv_def after_send_def)
qed

lemma log_inv_handle:
  assumes inv: "log_inv hash n L c" "shards_inv c" and i: "i < n" and m: "inbox (cl_chans c ! i) = m # ms" "message_ok m"
    and ks: "handler_order (cl_shards c ! i) m ks"
  shows "log_inv hash n (L(i := L i @ handler_log ks m (cl_shards c ! i, cl_store c))) (after_handle i ks m ms c)"
proof -
  let ?c = "after_handle i ks m ms c" and ?own = "owner hash n" and ?sent = "cl_sent c" and ?sh = "cl_shards c ! i"
  let ?L = "L(i := L i @ handler_log ks m (?sh, cl_store c))"
  have c: "cluster_inv hash n c" using inv(1) unfolding log_inv_def cluster_inv_def by blast
  from cluster_inv_handle [OF c i m(1), of ks] have up: "shards_up n (cl_chans ?c)" "length (cl_shards ?c) = n"
    by (simp_all add: cluster_inv_def)
  have n: "length (cl_chans c) = n" "length (cl_shards c) = n" using inv(1) by (simp_all add: log_inv_def shards_up_def)
  have shards: "cl_shards ?c = (cl_shards c)[i := shard_after m ?sh]"
    using fst_handle_message [of ks m "(?sh, cl_store c)"] by (simp add: after_handle_def split_beta)
  have chans: "cl_chans ?c = (cl_chans c)[i := (cl_chans c ! i)\<lparr>inbox := ms\<rparr>]" and sent: "cl_sent ?c = ?sent"
    by (simp_all add: after_handle_def split_beta)
  from inv(1) i obtain k where k: "k \<le> length ?sent" "shard_at hash n ?sent i k ?sh"
    "inbox (cl_chans c ! i) = filter (concerns ?own i) (drop k ?sent)" "mset (L i) = share hash n ?sent i k"
    unfolding log_inv_def by blast
  from k(3) m(1) filter_drop_Cons [of "concerns ?own i" k ?sent m ms] obtain j where j: "k \<le> j" "j < length ?sent"
    "?sent ! j = m" "concerns ?own i m" "\<forall>l. k \<le> l \<and> l < j \<longrightarrow> \<not> concerns ?own i (?sent ! l)"
    "ms = filter (concerns ?own i) (drop (Suc j) ?sent)" by auto
  have at: "shard_at hash n ?sent i j ?sh" using shard_at_skip [OF k(2) j(1)] j by simp
  have "shard_inv ?sh" using inv(2) n(2) i by (simp add: shards_inv_def)
  from handler_log_spec [OF this ks m(2)] at
  have "mset (handler_log ks m (?sh, cl_store c)) = spec_log m (view ?own i (spec_run (take j ?sent) registry_init))"
    by (simp add: shard_at_def)
  then have log: "mset (?L i) = share hash n ?sent i (Suc j)"
    using share_skip [of k j hash n i ?sent] share_Suc [of hash n i ?sent j] j k(4) by simp
  have at': "shard_at hash n ?sent i (Suc j) (shard_after m ?sh)"
    using at j by (simp add: shard_at_def abs_shard_after spec_run_take_Suc view_step)
  have "\<exists>k \<le> length ?sent. shard_at hash n ?sent i' k (cl_shards ?c ! i') \<and>
      inbox (cl_chans ?c ! i') = filter (concerns ?own i') (drop k ?sent) \<and>
      mset (?L i') = share hash n ?sent i' k" if "i' < n" for i'
  proof (cases "i' = i")
    case True
    with at' log j(2) i n show ?thesis
      by (intro exI [of _ "Suc j"]) (simp add: shards chans j(6) [symmetric])
  next
    case False
    with inv(1) that show ?thesis by (simp add: log_inv_def shards chans)
  qed
  with up show ?thesis unfolding log_inv_def sent by blast
qed

lemma logged_run_run: "logged_run hash c0 L c \<Longrightarrow> \<exists>es. cluster_run hash c0 es c"
proof (induction rule: logged_run.induct)
  case (log_handle L c i m ms ks)
  then obtain es where "cluster_run hash c0 es c" by blast
  from cl_snoc [OF this cl_handle [OF log_handle(2-4)]] show ?case by blast
qed (blast intro: cl_nil cl_snoc)+

lemma log_inv_run:
  assumes "logged_run hash (cluster_init txs st) L c" and spawn: "spawn_sharded_broker n = Ok txs"
    and "\<forall>m \<in> set (cl_sent c). message_ok m"
  shows "log_inv hash n L c"
  using assms(1,3)
proof (induction rule: logged_run.induct)
  case log_init
  from cluster_inv_init [OF spawn, of hash st]
  have "shards_up n (cl_chans (cluster_init txs st))" "length (cl_shards (cluster_init txs st)) = n"
    and at: "\<forall>i < n. \<exists>k \<le> length (cl_sent (cluster_init txs st)).
      shard_at hash n (cl_sent (cluster_init txs st)) i k (cl_shards (cluster_init txs st) ! i) \<and>
      inbox (cl_chans (cluster_init txs st) ! i) =
        filter (concerns (owner hash n) i) (drop k (cl_sent (cluster_init txs st)))"
    by (simp_all add: cluster_inv_def)
  moreover have "cl_sent (cluster_init txs st) = []" by (simp add: cluster_init_def)
  ultimately show ?case by (simp add: log_inv_def share_def)
next
  case (log_handle L c i m ms ks)
  have sent: "cl_sent (after_handle i ks m ms c) = cl_sent c" by (simp add: after_handle_def split_beta)
  with log_handle have ok: "\<forall>m \<in> set (cl_sent c). message_ok m" and inv: "log_inv hash n L c" by auto
  then have c: "cluster_inv hash n c" and i: "i < n" using log_handle(2) unfolding log_inv_def cluster_inv_def by auto
  from inbox_sent [OF c i] log_handle(3) ok have m: "message_ok m" by auto
  from logged_run_run [OF log_handle(1)] obtain es where "cluster_run hash (cluster_init txs st) es c" by blast
  from shards_inv_run [OF this cluster_inv_init [OF spawn] shards_inv_init ok] have "shards_inv c" .
  from log_inv_handle [OF inv this i log_handle(3) m log_handle(4)] show ?case .
next
  case (log_other L c e c')
  then have inv: "log_inv hash n L c" using cl_sent_mono by blast
  from log_other(2) show ?case
  proof cases
    case (cl_handle i m ms ks)
    with log_other(3) show ?thesis by blast
  next
    case (cl_queue h q)
    with inv show ?thesis by (simp add: log_inv_def)
  qed (use inv log_inv_send in simp)
qed

text \<open>What the abstract broker delivers for a sequence of messages.\<close>

definition spec_deliveries :: "broker_message list \<Rightarrow> delivery multiset" where
  "spec_deliveries ms = (\<Sum>j < length ms. spec_log (ms ! j) (spec_run (take j ms) registry_init))"

lemma spec_deliveries_Nil [simp]: "spec_deliveries [] = {#}"
  by (simp add: spec_deliveries_def)

lemma spec_deliveries_snoc:
  "spec_deliveries (ms @ [m]) = spec_deliveries ms + spec_log m (spec_run ms registry_init)"
  by (simp add: spec_deliveries_def nth_append)

lemma shares_add_up:
  assumes "0 < n"
  shows "(\<Sum>i < n. share hash n ms i (length ms)) = spec_deliveries ms"
proof -
  have "(\<Sum>i < n. share hash n ms i (length ms)) =
      (\<Sum>j < length ms. \<Sum>i < n. if concerns (owner hash n) i (ms ! j)
        then spec_log (ms ! j) (view (owner hash n) i (spec_run (take j ms) registry_init)) else {#})"
    unfolding share_def by (rule sum.swap)
  then show ?thesis by (simp add: spec_log_shares [OF assms refl] spec_deliveries_def)
qed

lemma log_at_rest:
  assumes "log_inv hash n L c" and "i < n" and "inbox (cl_chans c ! i) = []"
  shows "mset (L i) = share hash n (cl_sent c) i (length (cl_sent c))"
proof -
  from assms(1,2) obtain k where k: "k \<le> length (cl_sent c)"
    "inbox (cl_chans c ! i) = filter (concerns (owner hash n) i) (drop k (cl_sent c))"
    "mset (L i) = share hash n (cl_sent c) i k"
    unfolding log_inv_def by blast
  have "\<not> concerns (owner hash n) i (cl_sent c ! l)" if "k \<le> l" "l < length (cl_sent c)" for l
  proof -
    have "cl_sent c ! l \<in> set (drop k (cl_sent c))"
      using that nth_mem [of "l - k" "drop k (cl_sent c)"] by simp
    moreover have "filter (concerns (owner hash n) i) (drop k (cl_sent c)) = []" using k(2) assms(3) by simp
    ultimately show ?thesis by (simp only: filter_empty_conv) blast
  qed
  with share_skip [OF k(1), of hash n i "cl_sent c"] k(3) show ?thesis by simp
qed

section \<open>The shards can always catch up\<close>

definition handles_one :: "(string \<Rightarrow> u64) \<Rightarrow> cluster \<Rightarrow> cluster \<Rightarrow> bool" where
  "handles_one hash c c' \<longleftrightarrow> (\<exists>i m. cluster_step hash c (Handled i m) c')"

definition waiting :: "cluster \<Rightarrow> nat" where
  "waiting c = sum_list (map (\<lambda>ch. length (inbox ch)) (cl_chans c))"

definition settled :: "cluster \<Rightarrow> bool" where
  "settled c \<longleftrightarrow> (\<forall>ch \<in> set (cl_chans c). inbox ch = [])"

definition serving :: "(string \<Rightarrow> u64) \<Rightarrow> nat \<Rightarrow> cluster \<Rightarrow> bool" where
  "serving hash n c \<longleftrightarrow> cluster_inv hash n c \<and> shards_inv c \<and> (\<forall>m \<in> set (cl_sent c). message_ok m)"

lemma serving_step:
  "cluster_step hash c e c' \<Longrightarrow> \<forall>m \<in> set (cl_sent c'). message_ok m \<Longrightarrow> serving hash n c \<Longrightarrow> serving hash n c'"
  unfolding serving_def using cluster_inv_step shards_inv_step by blast

lemma serving_init: "spawn_sharded_broker n = Ok txs \<Longrightarrow> serving hash n (cluster_init txs st)"
  using cluster_inv_init [of n txs hash st] shards_inv_init [of txs st] by (simp add: serving_def cluster_init_def)

lemma handled_sent: "cluster_step hash c (Handled i m) c' \<Longrightarrow> cl_sent c' = cl_sent c"
  by (erule cluster_step.cases) (auto simp: after_handle_def split_beta)

lemma handled_waiting: "cluster_step hash c (Handled i m) c' \<Longrightarrow> serving hash n c \<Longrightarrow> waiting c' < waiting c"
proof (erule cluster_step.cases, goal_cases)
  case (2 i' c1 m' ms ks)
  then have i: "i < length (cl_chans c)" by (simp add: serving_def cluster_inv_def shards_up_def)
  let ?ls = "map (\<lambda>ch. length (inbox ch)) (cl_chans c)"
  have "waiting c' = sum_list (?ls[i := length ms])"
    using 2 by (simp add: waiting_def after_handle_def split_beta map_update)
  moreover have "?ls ! i = Suc (length ms)" using 2 i by simp
  ultimately show ?case using i elem_le_sum_list [of i ?ls] by (simp add: waiting_def sum_list_update)
qed simp_all

interpretation settling: ranked_steps "handles_one hash" "serving hash n" waiting for hash n
proof (unfold_locales, goal_cases)
  case (1 c c')
  then obtain i m where step: "cluster_step hash c (Handled i m) c'" by (auto simp: handles_one_def)
  with handled_sent [OF step] 1(2) show ?case by (intro serving_step [OF step]) (auto simp: serving_def)
next
  case (2 c c')
  then show ?case using handled_waiting by (auto simp: handles_one_def)
qed

lemma settled_if_halted: "serving hash n c \<Longrightarrow> halted (handles_one hash) c \<Longrightarrow> settled c"
proof (rule ccontr)
  assume inv: "serving hash n c" and halted: "halted (handles_one hash) c" and "\<not> settled c"
  then obtain i where i: "i < length (cl_chans c)" "inbox (cl_chans c ! i) \<noteq> []"
    by (auto simp: settled_def in_set_conv_nth)
  then obtain m ms where m: "inbox (cl_chans c ! i) = m # ms" by (cases "inbox (cl_chans c ! i)") auto
  from inv have c: "cluster_inv hash n c" "shards_inv c" by (simp_all add: serving_def)
  then have "i < n" using i(1) by (simp add: cluster_inv_def shards_up_def)
  from cluster_progress [OF c this m] halted show False by (auto simp: halted_def handles_one_def)
qed

lemma handles_run: "(handles_one hash ^^ k) c c' \<Longrightarrow> cluster_run hash c0 es c \<Longrightarrow>
    \<exists>es'. cluster_run hash c0 es' c' \<and> cl_sent c' = cl_sent c"
proof (induction k arbitrary: c')
  case (Suc k)
  then obtain c1 where c1: "(handles_one hash ^^ k) c c1" "handles_one hash c1 c'" by auto
  from Suc.IH [OF c1(1) Suc.prems(2)] obtain es1 where es1: "cluster_run hash c0 es1 c1" "cl_sent c1 = cl_sent c" by blast
  from c1(2) obtain i m where "cluster_step hash c1 (Handled i m) c'" by (auto simp: handles_one_def)
  with es1 show ?case using cl_snoc handled_sent by metis
qed auto

text \<open>Any messages can be sent and handled to the last one.\<close>

lemma settled_run_exists:
  assumes spawn: "spawn_sharded_broker n = Ok txs" and ok: "\<forall>m \<in> set ms. message_ok m"
  shows "\<exists>es c. cluster_run hash (cluster_init txs st) es c \<and> cl_sent c = ms \<and> settled c"
proof -
  have "\<exists>es c. cluster_run hash (cluster_init txs st) es c \<and> cl_sent c = ms \<and> serving hash n c"
    using ok
  proof (induction ms rule: rev_induct)
    case Nil
    from serving_init [OF spawn] cl_nil [of hash "cluster_init txs st"] show ?case
      by (intro exI conjI) (auto simp: cluster_init_def)
  next
    case (snoc m ms)
    then obtain es c where c: "cluster_run hash (cluster_init txs st) es c" "cl_sent c = ms" "serving hash n c" by auto
    have sent: "cl_sent (after_send hash m c) = ms @ [m]" by (simp add: after_send_def c(2))
    with snoc.prems have "serving hash n (after_send hash m c)" by (intro serving_step [OF cl_send _ c(3)]) simp
    with cl_snoc [OF c(1) cl_send] sent show ?case by blast
  qed
  then obtain es c where c: "cluster_run hash (cluster_init txs st) es c" "cl_sent c = ms" "serving hash n c" by blast
  from settling.halts [OF c(3)] obtain k c' where k: "(handles_one hash ^^ k) c c'" "halted (handles_one hash) c'" by blast
  from settled_if_halted [OF settling.run_inv [OF k(1) c(3)] k(2)] handles_run [OF k(1) c(1)] c(2) show ?thesis by auto
qed

section \<open>Properties\<close>



end
