(* ===== verification/Reference_Broker.thy ===== *)
theory Reference_Broker
  imports Deliveries
begin

text \<open>
  A broker one can evaluate: the abstract broker of \<open>Registry_Spec\<close> on lists, without shards, threads or
  hash maps. It computes the deliveries that a sequence of messages causes, and is equal to the abstract
  broker, so by \<open>Deliveries\<close> it predicts what any number of concurrent shards deliver.
\<close>

section \<open>The tables\<close>

record table =
  tb_clients :: "(connection_id \<times> client_state) list"
  tb_subs :: "(connection_id \<times> string) list"
  tb_retained :: "publish_packet list"

definition table_init :: table where
  "table_init = \<lparr>tb_clients = [], tb_subs = [], tb_retained = []\<rparr>"

fun table_step :: "broker_message \<Rightarrow> table \<Rightarrow> table" where
  "table_step (Register cid client h) T =
     T\<lparr>tb_clients := filter (\<lambda>c. fst c \<noteq> cid) (tb_clients T) @ [(cid, \<lparr>cs_client_id = client, cs_outbound = h\<rparr>)]\<rparr>"
| "table_step (SubscribeTo cid f) T = T\<lparr>tb_subs := tb_subs T @ [(cid, f)]\<rparr>"
| "table_step (UnsubscribeFrom cid f) T = T\<lparr>tb_subs := filter (\<lambda>s. s \<noteq> (cid, f)) (tb_subs T)\<rparr>"
| "table_step (PublishFrom from p) T =
     (if pub_retain p
      then T\<lparr>tb_retained := filter (\<lambda>r. pub_topic r \<noteq> pub_topic p) (tb_retained T) @ (if pub_payload p = [] then [] else [p])\<rparr>
      else T)"
| "table_step (DisconnectClient cid) T =
     T\<lparr>tb_clients := filter (\<lambda>c. fst c \<noteq> cid) (tb_clients T), tb_subs := filter (\<lambda>s. fst s \<noteq> cid) (tb_subs T)\<rparr>"

definition wants :: "table \<Rightarrow> string \<Rightarrow> connection_id \<Rightarrow> bool" where
  "wants T t cid \<longleftrightarrow> list_ex (\<lambda>(i, f). i = cid \<and> topic_matches_filter t f) (tb_subs T)"

fun table_log :: "broker_message \<Rightarrow> table \<Rightarrow> delivery list" where
  "table_log (PublishFrom from p) T =
     map (\<lambda>c. (cs_outbound (snd c), p)) (filter (\<lambda>c. wants T (pub_topic p) (fst c)) (tb_clients T))"
| "table_log (SubscribeTo cid f) T =
     (case map_of (tb_clients T) cid of
        None \<Rightarrow> []
      | Some client \<Rightarrow> map (Pair (cs_outbound client)) (filter (\<lambda>p. topic_matches_filter (pub_topic p) f) (tb_retained T)))"
| "table_log _ T = []"

section \<open>It is the abstract broker\<close>

definition table_ok :: "table \<Rightarrow> bool" where
  "table_ok T \<longleftrightarrow> distinct (map fst (tb_clients T)) \<and> distinct (map pub_topic (tb_retained T))"

definition abs_table :: "table \<Rightarrow> registry" where
  "abs_table T =
     \<lparr>reg_clients = map_of (tb_clients T), reg_subs = set (tb_subs T),
      reg_retained = map_of (map (\<lambda>p. (pub_topic p, p)) (tb_retained T))\<rparr>"

lemma abs_table_init [simp]: "abs_table table_init = registry_init"
  by (simp add: abs_table_def table_init_def registry_init_def)

lemma table_ok_init [simp]: "table_ok table_init"
  by (simp add: table_ok_def table_init_def)

lemma table_ok_step: "table_ok T \<Longrightarrow> table_ok (table_step m T)"
  by (cases m) (auto simp: table_ok_def distinct_map intro: inj_on_subset distinct_filter)

lemma map_of_filter_ne: "map_of (filter (\<lambda>c. fst c \<noteq> k) xs) = (map_of xs)(k := None)"
  by (induction xs) (auto simp: fun_eq_iff)

lemma map_of_retained_filter:
  "map_of (map (\<lambda>p. (pub_topic p, p)) (filter (\<lambda>r. pub_topic r \<noteq> t) ps)) = (map_of (map (\<lambda>p. (pub_topic p, p)) ps))(t := None)"
  by (induction ps) (auto simp: fun_eq_iff)

lemma abs_table_step: "abs_table (table_step m T) = spec_step m (abs_table T)"
  by (cases m)
    (auto simp: abs_table_def map_of_filter_ne map_of_retained_filter map_add_def fun_eq_iff split: option.splits)

lemma wants_recipients:
  "{i \<in> set (map fst (tb_clients T)). wants T t i} = spec_recipients (abs_table T) t"
  by (auto simp: wants_def spec_recipients_def abs_table_def list_ex_iff dom_map_of_conv_image_fst)

lemma table_log_spec:
  assumes "table_ok T"
  shows "mset (table_log m T) = spec_log m (abs_table T)"
proof (cases m)
  case (PublishFrom src p)
  let ?cs = "filter (\<lambda>c. wants T (pub_topic p) (fst c)) (tb_clients T)"
  let ?out = "\<lambda>i. (cs_outbound (the (map_of (tb_clients T) i)), p)"
  have dist: "distinct (map fst (tb_clients T))" using assms by (simp add: table_ok_def)
  then have "distinct (map fst ?cs)" by (simp add: distinct_map_filter)
  moreover have "set (map fst ?cs) = spec_recipients (abs_table T) (pub_topic p)"
    using wants_recipients [of T "pub_topic p"] by auto
  ultimately have "mset (map fst ?cs) = mset_set (spec_recipients (abs_table T) (pub_topic p))"
    by (metis mset_set_set)
  then have "mset (map ?out (map fst ?cs)) = spec_log m (abs_table T)"
    unfolding mset_map [of ?out] by (simp add: PublishFrom abs_table_def)
  moreover have "map ?out (map fst ?cs) = table_log m T"
    using dist by (auto simp: PublishFrom)
  ultimately show ?thesis by argo
next
  case (SubscribeTo cid f)
  let ?ps = "filter (\<lambda>p. topic_matches_filter (pub_topic p) f) (tb_retained T)"
  have dist: "distinct (map pub_topic (tb_retained T))" using assms by (simp add: table_ok_def)
  then have "distinct ?ps" by (simp add: distinct_map)
  moreover have "set ?ps = spec_replay (abs_table T) f"
    using dist by (auto simp: spec_replay_def abs_table_def map_of_eq_Some_iff o_def)
  ultimately have "mset ?ps = mset_set (spec_replay (abs_table T) f)" by (metis mset_set_set)
  then show ?thesis by (auto simp: SubscribeTo abs_table_def split: option.split)
qed simp_all

section \<open>Whole runs\<close>

fun table_run :: "broker_message list \<Rightarrow> table \<Rightarrow> table" where
  "table_run [] T = T"
| "table_run (m # ms) T = table_run ms (table_step m T)"

fun reference_deliveries :: "broker_message list \<Rightarrow> table \<Rightarrow> delivery list" where
  "reference_deliveries [] T = []"
| "reference_deliveries (m # ms) T = table_log m T @ reference_deliveries ms (table_step m T)"

lemma reference_deliveries_append:
  "reference_deliveries (ms @ ms') T = reference_deliveries ms T @ reference_deliveries ms' (table_run ms T)"
  by (induction ms arbitrary: T) simp_all

lemma table_run_append: "table_run (ms @ ms') T = table_run ms' (table_run ms T)"
  by (induction ms arbitrary: T) simp_all

lemma table_run_spec: "table_ok T \<Longrightarrow> table_ok (table_run ms T) \<and> abs_table (table_run ms T) = spec_run ms (abs_table T)"
  by (induction ms arbitrary: T) (simp_all add: table_ok_step abs_table_step)

lemma reference_deliveries_spec: "mset (reference_deliveries ms table_init) = spec_deliveries ms"
proof (induction ms rule: rev_induct)
  case (snoc m ms)
  have "table_ok (table_run ms table_init)" "abs_table (table_run ms table_init) = spec_run ms registry_init"
    using table_run_spec [of table_init ms] by simp_all
  with snoc table_log_spec [of "table_run ms table_init" m] show ?case
    by (simp add: reference_deliveries_append spec_deliveries_snoc)
qed simp

text \<open>One shard by itself: the pushes are those of the reference broker, in some order.\<close>

lemma run_broker_deliveries_gen:
  assumes "run_broker ms s s'" and "\<forall>m \<in> set ms. message_ok m" and "shard_inv (fst s)"
    and "table_ok T" and "abs_table T = abs_shard (fst s)"
  shows "\<exists>ds. snd s' = apply_log ds (snd s) \<and> mset ds = mset (reference_deliveries ms T)"
  using assms
proof (induction arbitrary: T rule: run_broker.induct)
  case (run_nil s)
  then show ?case by (intro exI [of _ "[]"]) simp
next
  case (run_msg s m ks ms s')
  obtain sh st where s: "s = (sh, st)" by force
  let ?ds = "handler_log ks m (sh, st)"
  from run_msg s have ok: "message_ok m" and inv: "shard_inv sh" by auto
  have fst_s: "fst (handle_message ks m s) = shard_after m sh" by (simp add: s fst_handle_message)
  have "shard_inv (shard_after m sh)" using shard_inv_after [OF inv ok] .
  with run_msg.IH [of "table_step m T"] run_msg.prems obtain ds where
    ds: "snd s' = apply_log ds (snd (handle_message ks m s))" "mset ds = mset (reference_deliveries ms (table_step m T))"
    unfolding fst_s by (auto simp: table_ok_step abs_table_step abs_shard_after s)
  have "snd (handle_message ks m s) = apply_log ?ds st"
    using handler_log_pushes [OF inv _ ok] run_msg.hyps(1) by (simp add: s)
  moreover have "mset ?ds = mset (table_log m T)"
    using handler_log_spec [OF inv _ ok, of ks st] table_log_spec [OF run_msg.prems(3), of m] run_msg by (simp add: s)
  ultimately show ?case using ds
    by (intro exI [of _ "?ds @ ds"]) (simp add: apply_log_append s)
qed

lemma run_broker_deliveries:
  assumes "run_broker ms (shard_new, st) s'" and "\<forall>m \<in> set ms. message_ok m"
  shows "\<exists>ds. snd s' = apply_log ds st \<and> mset ds = mset (reference_deliveries ms table_init)"
  using run_broker_deliveries_gen [OF assms, of table_init] shard_inv_new by simp

end
