(* ===== verification/Broker_Scripts.thy ===== *)
theory Broker_Scripts
  imports Reference_Broker
begin

text \<open>
  Test threads. The tests of \<open>src/broker.rs\<close> start shards, send messages and look at queues while the shards
  run. Such a test is a script of actions; its runs are the interleavings of the script with the shards.
  A script passes if no interleaving fails an assertion, every run ends, and it ends only when the script
  is finished, so that no blocking call is left waiting. The main lemma reduces this to a check against
  the reference broker of \<open>Reference_Broker\<close>, in which no thread occurs.
\<close>

section \<open>Scripts\<close>

datatype test_action =
    Send broker_message      \<comment> \<open>\<open>send(..).unwrap()\<close>\<close>
  | Pop handle               \<comment> \<open>\<open>pop_blocking().expect(..)\<close>, which has to be a publish\<close>
  | PopNone handle           \<comment> \<open>\<open>assert!(pop_blocking().is_none())\<close>\<close>
  | Close handle             \<comment> \<open>\<open>close()\<close>\<close>
  | Join                     \<comment> \<open>drop the senders and \<open>join\<close> the broker threads\<close>
  | Assert "(handle \<Rightarrow> publish_packet list) \<Rightarrow> bool"   \<comment> \<open>about the packets popped so far, by queue\<close>

datatype 'a acted = Blocks | Fails | Next 'a

type_synonym popped = "handle \<Rightarrow> publish_packet list"

definition with_queue :: "handle \<Rightarrow> outbound_event queue \<Rightarrow> cluster \<Rightarrow> cluster" where
  "with_queue h q c = c\<lparr>cl_store := (cl_store c)(h := q)\<rparr>"

fun act :: "(string \<Rightarrow> u64) \<Rightarrow> test_action \<Rightarrow> cluster \<times> popped \<Rightarrow> (cluster \<times> popped) acted" where
  "act hash (Send m) (c, g) =
     (if fst (sharded_send hash m (cl_chans c)) = Ok () then Next (after_send hash m c, g) else Fails)"
| "act hash (Pop h) (c, g) =
     (case pop_blocking (cl_store c h) of
        (PopItem (Packet (Publish p)), q) \<Rightarrow> Next (with_queue h q c, g(h := g h @ [p]))
      | (PopWait, q) \<Rightarrow> Blocks
      | _ \<Rightarrow> Fails)"
| "act hash (PopNone h) (c, g) =
     (case pop_blocking (cl_store c h) of
        (PopClosed, q) \<Rightarrow> Next (c, g)
      | (PopWait, q) \<Rightarrow> Blocks
      | _ \<Rightarrow> Fails)"
| "act hash (Close h) (c, g) = Next (with_queue h (close_queue (cl_store c h)) c, g)"
| "act hash Join (c, g) = (if settled c then Next (c, g) else Blocks)"
| "act hash (Assert Q) (c, g) = (if Q g then Next (c, g) else Fails)"

record script =
  todo :: "test_action list"
  shards_at :: cluster
  got :: popped
  failed :: bool

inductive script_step :: "(string \<Rightarrow> u64) \<Rightarrow> script \<Rightarrow> script \<Rightarrow> bool" for hash :: "string \<Rightarrow> u64" where
  script_acts: "todo s = a # as \<Longrightarrow> act hash a (shards_at s, got s) = Next (c, g) \<Longrightarrow>
    script_step hash s (s\<lparr>todo := as, shards_at := c, got := g\<rparr>)"
| script_fails: "todo s = a # as \<Longrightarrow> act hash a (shards_at s, got s) = Fails \<Longrightarrow>
    script_step hash s (s\<lparr>todo := [], failed := True\<rparr>)"
| script_shard: "handles_one hash (shards_at s) c \<Longrightarrow> script_step hash s (s\<lparr>shards_at := c\<rparr>)"

definition script_init :: "channel list \<Rightarrow> (handle \<Rightarrow> nat) \<Rightarrow> test_action list \<Rightarrow> script" where
  "script_init txs cap as =
     \<lparr>todo = as, shards_at = cluster_init txs (\<lambda>h. queue_new (cap h)), got = (\<lambda>_. []), failed = False\<rparr>"

text \<open>On \<open>n\<close> shards, with new queues of the given capacities.\<close>

definition script_passes :: "(string \<Rightarrow> u64) \<Rightarrow> nat \<Rightarrow> (handle \<Rightarrow> nat) \<Rightarrow> test_action list \<Rightarrow> bool" where
  "script_passes hash n cap as \<longleftrightarrow>
     (\<forall>txs. spawn_sharded_broker n = Ok txs \<longrightarrow>
       (\<exists>bound. \<forall>k s. (script_step hash ^^ k) (script_init txs cap as) s \<longrightarrow>
          k \<le> bound \<and> \<not> failed s \<and> (halted (script_step hash) s \<longrightarrow> todo s = [])))"

section \<open>The check against the reference broker\<close>

record forecast =
  fc_table :: table
  fc_due :: "delivery list"
  fc_popped :: "handle \<Rightarrow> nat"
  fc_closed :: "handle list"
  fc_joined :: bool
  fc_known :: "popped \<Rightarrow> bool"   \<comment> \<open>what the assertions so far say of the packets popped\<close>

definition forecast_init :: forecast where
  "forecast_init = \<lparr>fc_table = table_init, fc_due = [], fc_popped = (\<lambda>_. 0), fc_closed = [], fc_joined = False,
      fc_known = (\<lambda>_. True)\<rparr>"

definition due_for :: "handle \<Rightarrow> delivery list \<Rightarrow> publish_packet list" where
  "due_for h ds = map snd (filter (\<lambda>d. fst d = h) ds)"

definition fits :: "(handle \<Rightarrow> nat) \<Rightarrow> delivery list \<Rightarrow> bool" where
  "fits cap ds \<longleftrightarrow> list_all (\<lambda>d. length (due_for (fst d) ds) \<le> cap (fst d)) ds"

definition forecast_send :: "broker_message \<Rightarrow> forecast \<Rightarrow> forecast" where
  "forecast_send m F = F\<lparr>fc_table := table_step m (fc_table F), fc_due := fc_due F @ table_log m (fc_table F)\<rparr>"

fun forecast_after :: "test_action \<Rightarrow> forecast \<Rightarrow> forecast" where
  "forecast_after (Send m) F = forecast_send m F"
| "forecast_after (Pop h) F =
     F\<lparr>fc_popped := (fc_popped F)(h := Suc (fc_popped F h)), fc_known := (\<lambda>g. fc_known F (g(h := butlast (g h))))\<rparr>"
| "forecast_after (Close h) F = F\<lparr>fc_closed := h # fc_closed F\<rparr>"
| "forecast_after Join F = F\<lparr>fc_joined := True\<rparr>"
| "forecast_after (Assert Q) F = F\<lparr>fc_known := (\<lambda>g. fc_known F g \<and> Q g)\<rparr>"
| "forecast_after (PopNone h) F = F"

text \<open>
  What a script may rely on: a pop on a delivery that is due, and after a close only once the shards are
  done; the end of a closed queue once everything due was popped; an assertion on what the queues'
  deliveries can have been.
\<close>

fun forecast_ok :: "(handle \<Rightarrow> nat) \<Rightarrow> test_action \<Rightarrow> forecast \<Rightarrow> bool" where
  "forecast_ok cap (Send m) F \<longleftrightarrow> \<not> fc_joined F \<and> message_ok m \<and> fits cap (fc_due F @ table_log m (fc_table F))"
| "forecast_ok cap (Pop h) F \<longleftrightarrow>
     fc_popped F h < length (due_for h (fc_due F)) \<and> (fc_joined F \<or> h \<notin> set (fc_closed F))"
| "forecast_ok cap (PopNone h) F \<longleftrightarrow> h \<in> set (fc_closed F) \<and> fc_popped F h = length (due_for h (fc_due F))"
| "forecast_ok cap (Assert Q) F \<longleftrightarrow>
     (\<forall>g. fc_known F g \<and> (\<forall>h. length (g h) = fc_popped F h \<and> mset (g h) \<subseteq># mset (due_for h (fc_due F))) \<longrightarrow> Q g)"
| "forecast_ok cap _ F \<longleftrightarrow> True"

fun script_ok :: "(handle \<Rightarrow> nat) \<Rightarrow> test_action list \<Rightarrow> forecast \<Rightarrow> bool" where
  "script_ok cap [] F \<longleftrightarrow> True"
| "script_ok cap (a # as) F \<longleftrightarrow> forecast_ok cap a F \<and> script_ok cap as (forecast_after a F)"

section \<open>Logs and forecasts\<close>

lemma share_mono: "k \<le> k' \<Longrightarrow> share hash n ms i k \<subseteq># share hash n ms i k'"
  by (induction rule: dec_induct) (auto simp: share_def intro: subset_mset.order_trans)

lemma sum_subseteq_mset:
  "finite I \<Longrightarrow> (\<And>i. i \<in> I \<Longrightarrow> A i \<subseteq># B i) \<Longrightarrow> (\<Sum>i \<in> I. A i) \<subseteq># (\<Sum>i \<in> I. B i)"
  by (induction I rule: finite_induct) (auto intro: subset_mset.add_mono)

lemma log_subset:
  assumes "log_inv hash n L c"
  shows "(\<Sum>i < n. mset (L i)) \<subseteq># spec_deliveries (cl_sent c)"
proof -
  from assms have n: "0 < n" by (simp add: log_inv_def shards_up_def)
  have "mset (L i) \<subseteq># share hash n (cl_sent c) i (length (cl_sent c))" if "i < n" for i
  proof -
    from assms that obtain k where "k \<le> length (cl_sent c)" "mset (L i) = share hash n (cl_sent c) i k"
      unfolding log_inv_def by blast
    then show ?thesis by (simp add: share_mono)
  qed
  then show ?thesis
    unfolding shares_add_up [OF n, of hash "cl_sent c", symmetric] by (intro sum_subseteq_mset) simp_all
qed

lemma log_settled:
  assumes "log_inv hash n L c" and "settled c"
  shows "(\<Sum>i < n. mset (L i)) = spec_deliveries (cl_sent c)"
proof -
  from assms(1) have n: "0 < n" "length (cl_chans c) = n" by (simp_all add: log_inv_def shards_up_def)
  with assms(2) have "\<forall>i < n. inbox (cl_chans c ! i) = []" by (auto simp: settled_def)
  with log_at_rest [OF assms(1)] shares_add_up [OF n(1), of hash "cl_sent c"] show ?thesis by simp
qed

definition logged :: "(nat \<Rightarrow> delivery list) \<Rightarrow> nat \<Rightarrow> handle \<Rightarrow> publish_packet multiset" where
  "logged L n h = image_mset snd (filter_mset (\<lambda>d. fst d = h) (\<Sum>i < n. mset (L i)))"

lemma mset_due_for: "mset (due_for h ds) = image_mset snd (filter_mset (\<lambda>d. fst d = h) (mset ds))"
  by (simp add: due_for_def)

lemma logged_due:
  assumes "log_inv hash n L c" and "ds = reference_deliveries (cl_sent c) table_init"
  shows "logged L n h \<subseteq># mset (due_for h ds)"
    and "settled c \<Longrightarrow> logged L n h = mset (due_for h ds)"
  using log_subset [OF assms(1)] log_settled [OF assms(1)]
  by (simp_all add: logged_def mset_due_for assms(2) reference_deliveries_spec image_mset_subseteq_mono multiset_filter_mono)

lemma sum_mset_upd:
  "i < (n :: nat) \<Longrightarrow> (\<Sum>j < n. mset ((L(i := L i @ ds)) j)) = (\<Sum>j < n. mset (L j)) + mset ds"
  by (simp add: sum.remove [of "{..<n}" i] add.commute add.left_commute)

lemma logged_upd: "i < n \<Longrightarrow> logged (L(i := L i @ ds)) n h = logged L n h + mset (due_for h ds)"
  unfolding logged_def by (subst sum_mset_upd) (simp_all add: mset_due_for)

lemma fits_due: "fits cap ds \<Longrightarrow> length (due_for h ds) \<le> cap h"
proof (cases "due_for h ds = []")
  case False
  assume "fits cap ds"
  from False obtain d where "d \<in> set ds" "fst d = h" by (auto simp: due_for_def filter_empty_conv)
  with \<open>fits cap ds\<close> show ?thesis by (auto simp: fits_def list_all_iff)
qed simp

section \<open>The invariant of a script\<close>

definition queue_holds :: "outbound_event queue \<Rightarrow> nat \<Rightarrow> publish_packet multiset \<Rightarrow> bool" where
  "queue_holds q cap P \<longleftrightarrow> capacity q = cap \<and>
     (\<exists>ps. items q = map (\<lambda>p. Packet (Publish p)) ps \<and> mset ps = P)"

definition tracks ::
    "(string \<Rightarrow> u64) \<Rightarrow> nat \<Rightarrow> (handle \<Rightarrow> nat) \<Rightarrow> (nat \<Rightarrow> delivery list) \<Rightarrow> forecast \<Rightarrow> cluster \<Rightarrow> popped \<Rightarrow> bool" where
  "tracks hash n cap L F c g \<longleftrightarrow> serving hash n c \<and> log_inv hash n L c \<and>
     fc_table F = table_run (cl_sent c) table_init \<and> fc_due F = reference_deliveries (cl_sent c) table_init \<and>
     fits cap (fc_due F) \<and> (fc_joined F \<longrightarrow> settled c) \<and> fc_known F g \<and>
     (\<forall>h. fc_popped F h = length (g h) \<and> (closed (cl_store c h) \<longleftrightarrow> h \<in> set (fc_closed F)) \<and>
        mset (g h) \<subseteq># logged L n h \<and> queue_holds (cl_store c h) (cap h) (logged L n h - mset (g h)))"

definition script_inv :: "(string \<Rightarrow> u64) \<Rightarrow> nat \<Rightarrow> (handle \<Rightarrow> nat) \<Rightarrow> script \<Rightarrow> bool" where
  "script_inv hash n cap s \<longleftrightarrow> \<not> failed s \<and>
     (\<exists>L F. tracks hash n cap L F (shards_at s) (got s) \<and> script_ok cap (todo s) F)"

text \<open>Queues while a script uses them.\<close>

lemma serving_with_queue: "serving hash n c \<Longrightarrow> serving hash n (with_queue h q c)"
  by (simp add: serving_def with_queue_def cluster_inv_def shards_inv_def)

lemma log_inv_with_queue: "log_inv hash n L c \<Longrightarrow> log_inv hash n L (with_queue h q c)"
  by (simp add: log_inv_def with_queue_def)

lemma with_queue_simps [simp]:
  "cl_sent (with_queue h q c) = cl_sent c" "cl_store (with_queue h q c) = (cl_store c)(h := q)"
  "settled (with_queue h q c) \<longleftrightarrow> settled c"
  by (simp_all add: with_queue_def settled_def)

lemma queue_holds_wf: "queue_holds q cap P \<Longrightarrow> size P \<le> cap \<Longrightarrow> queue_wf q"
  by (auto simp: queue_holds_def queue_wf_def queue_bound_def)

lemma queue_holds_push:
  assumes "queue_holds q cap P" and "size (P + mset ps) \<le> cap"
  shows "queue_holds (foldl pushed q (map (\<lambda>p. Packet (Publish p)) ps)) cap (P + mset ps)"
proof -
  from assms(1) obtain qs where qs: "items q = map (\<lambda>p. Packet (Publish p)) qs" "mset qs = P" "capacity q = cap"
    by (auto simp: queue_holds_def)
  let ?es = "map (\<lambda>p. Packet (Publish p)) ps"
  have wf: "queue_wf q" using queue_holds_wf [OF assms(1)] assms(2) by simp
  have "capacity (foldl pushed q es) = capacity q" for es by (induction es arbitrary: q) simp_all
  moreover have "length (items q @ ?es) \<le> queue_bound q"
    using assms(2) qs by (auto simp: queue_bound_def)
  then have "items (foldl pushed q ?es) = map (\<lambda>p. Packet (Publish p)) (qs @ ps)"
    using outq.contents_foldl_enq [OF wf, of ?es] qs(1) by (simp only: last_n_all map_append)
  ultimately show ?thesis unfolding queue_holds_def using qs by (intro conjI exI [of _ "qs @ ps"]) auto
qed

lemma closed_foldl_pushed: "closed (foldl pushed q es) = closed q"
  by (induction es arbitrary: q) simp_all

section \<open>Steps of the shards\<close>

lemma tracks_shard:
  assumes tr: "tracks hash n cap L F c g" and step: "handles_one hash c c'"
  shows "\<exists>L'. tracks hash n cap L' F c' g"
proof -
  from tr have sv: "serving hash n c" and L: "log_inv hash n L c" and fit: "fits cap (fc_due F)"
    unfolding tracks_def by blast+
  have sv': "serving hash n c'" using settling.step_inv [OF step sv] .
  from step obtain i m ms ks where i: "i < length (cl_shards c)" and m: "inbox (cl_chans c ! i) = m # ms"
    and ks: "handler_order (cl_shards c ! i) m ks" and c': "c' = after_handle i ks m ms c"
    by (auto simp: handles_one_def elim!: cluster_step.cases)
  let ?ds = "handler_log ks m (cl_shards c ! i, cl_store c)"
  let ?L = "L(i := L i @ ?ds)"
  have n: "i < n" and sh: "shards_inv c" and ci: "cluster_inv hash n c"
    using i sv by (simp_all add: serving_def cluster_inv_def)
  have ok: "message_ok m" using inbox_sent [OF ci n] m sv by (auto simp: serving_def)
  have L': "log_inv hash n ?L c'" unfolding c' using log_inv_handle [OF L sh n m ok ks] .
  have sent: "cl_sent c' = cl_sent c" and st: "cl_store c' = apply_log ?ds (cl_store c)"
    using handler_log_pushes [of "cl_shards c ! i" m ks "cl_store c"] ok ks sh i
    by (simp_all add: c' after_handle_def split_beta shards_inv_def)
  have "settled c' \<and> False" if "settled c"
    using that m i ci by (auto simp: settled_def cluster_inv_def shards_up_def)
  moreover have "queue_holds (cl_store c' h) (cap h) (logged ?L n h - mset (g h)) \<and> mset (g h) \<subseteq># logged ?L n h" for h
  proof -
    let ?ps = "due_for h ?ds"
    have h: "mset (g h) \<subseteq># logged L n h" "queue_holds (cl_store c h) (cap h) (logged L n h - mset (g h))"
      using tr by (simp_all add: tracks_def)
    have sum: "logged ?L n h - mset (g h) = logged L n h - mset (g h) + mset ?ps"
      using h(1) by (simp add: logged_upd [OF n] subset_mset.add_diff_assoc2)
    have "size (logged ?L n h) \<le> length (due_for h (fc_due F))"
      using logged_due(1) [OF L', of "fc_due F" h] tr size_mset_mono by (fastforce simp: tracks_def sent)
    also have "\<dots> \<le> cap h" using fits_due [OF fit] .
    finally have "size (logged ?L n h - mset (g h)) \<le> cap h"
      using size_mset_mono [OF diff_subset_eq_self, of "logged ?L n h" "mset (g h)"] by simp
    then have "queue_holds (foldl pushed (cl_store c h) (map (\<lambda>p. Packet (Publish p)) ?ps)) (cap h) (logged L n h - mset (g h) + mset ?ps)"
      by (intro queue_holds_push [OF h(2)]) (simp only: sum)
    moreover have "cl_store c' h = foldl pushed (cl_store c h) (map (\<lambda>p. Packet (Publish p)) ?ps)"
      by (simp add: st apply_log_queue due_for_def o_def)
    moreover have "mset (g h) \<subseteq># logged ?L n h"
      using h(1) by (simp add: logged_upd [OF n] subset_mset.add_increasing2)
    ultimately show ?thesis by (simp only: sum)
  qed
  moreover have "closed (cl_store c' h) = closed (cl_store c h)" for h
    by (simp add: st apply_log_queue closed_foldl_pushed)
  ultimately have "tracks hash n cap ?L F c' g" using tr sv' L' by (auto simp: tracks_def sent)
  then show ?thesis by blast
qed

section \<open>Steps of the script\<close>

lemma tracks_send:
  assumes tr: "tracks hash n cap L F c g" and ok: "forecast_ok cap (Send m) F"
  shows "fst (sharded_send hash m (cl_chans c)) = Ok ()"
    and "tracks hash n cap L (forecast_after (Send m) F) (after_send hash m c) g"
proof -
  from tr have sv: "serving hash n c" and L: "log_inv hash n L c" by (simp_all add: tracks_def)
  then have up: "shards_up n (cl_chans c)" by (simp add: log_inv_def)
  show "fst (sharded_send hash m (cl_chans c)) = Ok ()" by (rule shard_sink.send_ok [OF up])
  have "serving hash n (after_send hash m c)"
    using ok sv by (intro serving_step [OF cl_send _ sv]) (auto simp: after_send_def serving_def)
  with log_inv_send [OF L] tr ok show "tracks hash n cap L (forecast_after (Send m) F) (after_send hash m c) g"
    by (simp add: tracks_def forecast_send_def after_send_def table_run_append reference_deliveries_append)
qed

lemma tracks_pop:
  assumes tr: "tracks hash n cap L F c g" and ok: "forecast_ok cap (Pop h) F"
  shows "act hash (Pop h) (c, g) \<noteq> Fails"
    and "act hash (Pop h) (c, g) = Blocks \<Longrightarrow> \<not> settled c"
    and "act hash (Pop h) (c, g) = Next (c', g') \<Longrightarrow> tracks hash n cap L (forecast_after (Pop h) F) c' g'"
proof -
  let ?q = "cl_store c h"
  from tr obtain ps where ps: "items ?q = map (\<lambda>p. Packet (Publish p)) ps" "mset ps = logged L n h - mset (g h)"
    "mset (g h) \<subseteq># logged L n h" "capacity ?q = cap h"
    by (auto simp: tracks_def queue_holds_def)
  have L: "log_inv hash n L c" and due: "fc_due F = reference_deliveries (cl_sent c) table_init"
    and n: "fc_popped F h = length (g h)" and cl: "closed ?q \<longleftrightarrow> h \<in> set (fc_closed F)"
    using tr by (simp_all add: tracks_def)
  have nonempty: "ps \<noteq> []" if "settled c"
  proof
    assume "ps = []"
    with ps(2,3) have "mset (g h) = logged L n h" by (metis mset.simps(1) Diff_eq_empty_iff_mset subset_mset.antisym)
    with logged_due(2) [OF L due that, of h] have "length (g h) = length (due_for h (fc_due F))" by (metis mset_eq_length)
    with n ok show False by simp
  qed
  have open_q: "\<not> closed ?q" if "\<not> settled c" using that ok cl tr by (auto simp: tracks_def)
  show "act hash (Pop h) (c, g) \<noteq> Fails" "act hash (Pop h) (c, g) = Blocks \<Longrightarrow> \<not> settled c"
    using nonempty open_q by (cases ps; auto simp: pop_blocking_def ps(1))+
  assume "act hash (Pop h) (c, g) = Next (c', g')"
  then obtain p ps' where p: "ps = p # ps'" and c': "c' = with_queue h (?q\<lparr>items := map (\<lambda>p. Packet (Publish p)) ps'\<rparr>) c"
    and g': "g' = g(h := g h @ [p])"
    by (cases ps) (auto simp: pop_blocking_def ps(1) split: if_splits)
  have "mset ps' = logged L n h - mset (g h @ [p])" "mset (g h @ [p]) \<subseteq># logged L n h"
  proof -
    have sum: "logged L n h = mset (g h) + add_mset p (mset ps')"
      using ps(2,3) p by (metis mset.simps(2) subset_mset.add_diff_inverse)
    show "mset ps' = logged L n h - mset (g h @ [p])" "mset (g h @ [p]) \<subseteq># logged L n h" by (simp_all add: sum)
  qed
  then have "queue_holds (cl_store c' h) (cap h) (logged L n h - mset (g' h)) \<and> mset (g' h) \<subseteq># logged L n h"
    by (auto simp: c' g' queue_holds_def ps(4))
  with tr show "tracks hash n cap L (forecast_after (Pop h) F) c' g'"
    by (auto simp: tracks_def c' g' serving_with_queue log_inv_with_queue)
qed

lemma tracks_pop_none:
  assumes tr: "tracks hash n cap L F c g" and ok: "forecast_ok cap (PopNone h) F"
  shows "act hash (PopNone h) (c, g) = Next (c, g)"
proof -
  from tr have L: "log_inv hash n L c" and due: "fc_due F = reference_deliveries (cl_sent c) table_init"
    and h: "fc_popped F h = length (g h)" "closed (cl_store c h)" "mset (g h) \<subseteq># logged L n h"
      "queue_holds (cl_store c h) (cap h) (logged L n h - mset (g h))"
    using ok by (simp_all add: tracks_def)
  have "size (logged L n h) \<le> length (g h)"
    using size_mset_mono [OF logged_due(1) [OF L due, of h]] ok h(1) by simp
  then have "size (logged L n h - mset (g h)) = 0" using h(3) by (simp add: size_Diff_submset)
  then have "items (cl_store c h) = []" using h(4) by (simp add: queue_holds_def)
  with h(2) show ?thesis by (simp add: pop_blocking_def)
qed

lemma tracks_act:
  assumes tr: "tracks hash n cap L F c g" and ok: "forecast_ok cap a F"
  shows "act hash a (c, g) \<noteq> Fails \<and> (act hash a (c, g) = Blocks \<longrightarrow> \<not> settled c) \<and>
    (\<forall>c' g'. act hash a (c, g) = Next (c', g') \<longrightarrow> tracks hash n cap L (forecast_after a F) c' g')"
proof (cases a)
  case (Send m)
  with tracks_send [OF tr, of m] ok show ?thesis by auto
next
  case (Pop h)
  with tracks_pop [OF tr, of h] ok show ?thesis by blast
next
  case (PopNone h)
  with tracks_pop_none [OF tr, of h] ok tr show ?thesis by auto
next
  case (Close h)
  have "queue_holds (close_queue q) k P = queue_holds q k P" for q k P by (simp add: queue_holds_def close_queue_def)
  with tr Close show ?thesis
    by (auto simp: tracks_def serving_with_queue log_inv_with_queue close_queue_def)
next
  case Join
  with tr show ?thesis by (auto simp: tracks_def)
next
  case (Assert Q)
  have "mset (g h) \<subseteq># mset (due_for h (fc_due F))" for h
  proof -
    have "mset (g h) \<subseteq># logged L n h" "logged L n h \<subseteq># mset (due_for h (fc_due F))"
      using tr logged_due(1) [of hash n L c "fc_due F" h] by (simp_all add: tracks_def)
    then show ?thesis by (rule subset_mset.order_trans)
  qed
  then have "Q g" using ok Assert tr by (simp add: tracks_def)
  then have "tracks hash n cap L (F\<lparr>fc_known := (\<lambda>g. fc_known F g \<and> Q g)\<rparr>) c g" using tr by (auto simp: tracks_def)
  with Assert \<open>Q g\<close> show ?thesis by simp
qed

section \<open>Runs of the script\<close>

lemma script_inv_step: "script_step hash s s' \<Longrightarrow> script_inv hash n cap s \<Longrightarrow> script_inv hash n cap s'"
proof (induction rule: script_step.induct)
  case (script_acts s a as c g)
  then obtain L F where F: "tracks hash n cap L F (shards_at s) (got s)" "forecast_ok cap a F" "script_ok cap as (forecast_after a F)"
    by (auto simp: script_inv_def)
  with tracks_act [OF F(1,2)] script_acts show ?case by (auto simp: script_inv_def)
next
  case (script_fails s a as)
  then obtain L F where F: "tracks hash n cap L F (shards_at s) (got s)" "forecast_ok cap a F"
    by (auto simp: script_inv_def)
  with tracks_act [OF F] script_fails show ?case by simp
next
  case (script_shard s c)
  then show ?case using tracks_shard by (fastforce simp: script_inv_def)
qed

definition script_rank :: "nat \<Rightarrow> script \<Rightarrow> nat" where
  "script_rank n s = Suc n * length (todo s) + waiting (shards_at s)"

lemma waiting_send:
  assumes "shards_up n (cl_chans c)"
  shows "waiting (after_send hash m c) \<le> waiting c + n"
proof -
  let ?c = "after_send hash m c"
  from assms after_send_chans(1) [OF assms, of hash m] have len: "length (cl_chans c) = n" "length (cl_chans ?c) = n"
    by (simp_all add: shards_up_def)
  have "waiting ?c = (\<Sum>i < n. length (inbox (cl_chans ?c ! i)))"
    by (simp add: waiting_def sum_list_sum_nth len atLeast0LessThan)
  also have "\<dots> \<le> (\<Sum>i < n. length (inbox (cl_chans c ! i)) + 1)"
    using after_send_chans(2) [OF assms, of _ hash m] by (intro sum_mono) simp
  also have "\<dots> = waiting c + n"
    unfolding sum.distrib by (simp add: waiting_def sum_list_sum_nth len atLeast0LessThan)
  finally show ?thesis .
qed

lemma waiting_act:
  assumes "act hash a (c, g) = Next (c', g')" and "shards_up n (cl_chans c)"
  shows "waiting c' \<le> waiting c + n"
  using assms waiting_send [OF assms(2), of hash]
  by (cases a) (auto simp: with_queue_def waiting_def split: if_splits prod.splits pop_result.splits outbound_event.splits mqtt_packet.splits)

lemma script_rank_step:
  "script_step hash s s' \<Longrightarrow> script_inv hash n cap s \<Longrightarrow> script_rank n s' < script_rank n s"
proof (induction rule: script_step.induct)
  case (script_acts s a as c g)
  then have "shards_up n (cl_chans (shards_at s))" by (auto simp: script_inv_def tracks_def log_inv_def)
  from waiting_act [OF script_acts(2) this] script_acts(1) show ?case by (simp add: script_rank_def)
next
  case (script_fails s a as)
  then show ?case by (simp add: script_rank_def)
next
  case (script_shard s c)
  then have "serving hash n (shards_at s)" by (auto simp: script_inv_def tracks_def)
  from settling.step_rank [OF script_shard(1) this] show ?case by (simp add: script_rank_def)
qed

interpretation scripted: ranked_steps "script_step hash" "script_inv hash n cap" "script_rank n" for hash n cap
  by unfold_locales (auto intro: script_inv_step script_rank_step)

lemma script_not_stuck:
  assumes "script_inv hash n cap s" and "halted (script_step hash) s"
  shows "todo s = []"
proof (rule ccontr)
  assume "todo s \<noteq> []"
  then obtain a as where a: "todo s = a # as" by (cases "todo s") auto
  from assms(1) a obtain L F where F: "tracks hash n cap L F (shards_at s) (got s)" "forecast_ok cap a F"
    by (auto simp: script_inv_def)
  have "act hash a (shards_at s, got s) = Blocks"
    using assms(2) script_acts [OF a, of hash] script_fails [OF a, of hash]
    by (cases "act hash a (shards_at s, got s)") (auto simp: halted_def)
  with tracks_act [OF F] have "\<not> settled (shards_at s)" by blast
  moreover have "halted (handles_one hash) (shards_at s)"
    using assms(2) script_shard by (auto simp: halted_def)
  moreover have "serving hash n (shards_at s)" using F(1) by (simp add: tracks_def)
  ultimately show False using settled_if_halted by blast
qed

lemma script_inv_init:
  assumes "spawn_sharded_broker n = Ok txs" and "script_ok cap as forecast_init"
  shows "script_inv hash n cap (script_init txs cap as)"
proof -
  let ?c = "cluster_init txs (\<lambda>h. queue_new (cap h))"
  have "log_inv hash n (\<lambda>_. []) ?c"
    by (rule log_inv_run [OF log_init assms(1)]) (simp add: cluster_init_def)
  then have "tracks hash n cap (\<lambda>_. []) forecast_init ?c (\<lambda>_. [])"
    using serving_init [OF assms(1)]
    by (simp add: tracks_def forecast_init_def cluster_init_def fits_def logged_def queue_holds_def queue_new_def)
  with assms(2) show ?thesis by (auto simp: script_inv_def script_init_def)
qed

lemma script_ok_passes: "script_ok cap as forecast_init \<Longrightarrow> script_passes hash n cap as"
  unfolding script_passes_def
proof (intro allI impI)
  fix txs
  assume "script_ok cap as forecast_init" and "spawn_sharded_broker n = Ok txs"
  then have init: "script_inv hash n cap (script_init txs cap as)" by (intro script_inv_init)
  show "\<exists>bound. \<forall>k s. (script_step hash ^^ k) (script_init txs cap as) s \<longrightarrow>
      k \<le> bound \<and> \<not> failed s \<and> (halted (script_step hash) s \<longrightarrow> todo s = [])"
  proof (intro exI allI impI)
    fix k s
    assume run: "(script_step hash ^^ k) (script_init txs cap as) s"
    have inv: "script_inv hash n cap s" using scripted.run_inv [OF run init] .
    then show "k \<le> script_rank n (script_init txs cap as) \<and> \<not> failed s \<and> (halted (script_step hash) s \<longrightarrow> todo s = [])"
      using scripted.run_bound [OF run init] script_not_stuck [OF inv] by (simp add: script_inv_def)
  qed
qed

section \<open>Properties\<close>

text \<open>C14: A thread that sends messages to the sharded broker and reads queues while the shards run gets what the
  reference broker, which has no threads, predicts. If by that prediction every pop has a delivery due,
  every queue it closes and checks is used up, the assertions hold of all packets that can have been popped
  and no queue overflows, then in every interleaving, on any number of shards and with any hash function,
  no send fails, no assertion fails, the run ends, and no pop or join is left waiting.\<close>

theorem predicted_scripts_pass:
  assumes "script_ok cap as forecast_init" and "spawn_sharded_broker n = Ok txs"
  shows "\<exists>bound. \<forall>k s. (script_step hash ^^ k) (script_init txs cap as) s \<longrightarrow>
    k \<le> bound \<and> \<not> failed s \<and> (halted (script_step hash) s \<longrightarrow> todo s = [])"
  using script_ok_passes [OF assms(1), of hash n] assms(2) by (simp add: script_passes_def)

theorem predicted_scripts_pass_witness:
  "\<exists>bound. \<forall>k s. (script_step (\<lambda>_. 5) ^^ k)
     (script_init [channel_new, channel_new] (\<lambda>_. 1)
       [Send (Register 1 ''c'' 0), Send (SubscribeTo 1 ''t''),
        Send (PublishFrom 2 \<lparr>pub_topic = ''t'', pub_payload = [1], pub_qos = 0, pub_retain = False, pub_packet_id = None\<rparr>),
        Pop 0, Join, Close 0, PopNone 0]) s \<longrightarrow>
     k \<le> bound \<and> \<not> failed s \<and> (halted (script_step (\<lambda>_. 5)) s \<longrightarrow> todo s = [])"
proof -
  have t: "\<not> is_wildcard_filter ''t''" by (simp add: is_wildcard_filter_def)
  show ?thesis
    by (rule predicted_scripts_pass [where n = 2])
      (simp_all add: forecast_init_def table_init_def forecast_send_def wants_def fits_def due_for_def t topic_matches_refl
        spawn_sharded_broker_def eval_nat_numeral)
qed

end
