(* ===== verification/Protocol_Tests.thy ===== *)
theory Protocol_Tests
  imports Codec
begin

text \<open>
  The unit tests of \<open>src/protocol.rs\<close>, run on the model: each definition is the test of that name, a
  conjunction of its assertions, and each lemma says that the test passes. They check that the
  definitions of the codec are the code's on the inputs its authors thought of; where an input is
  large or pseudo-random the general theorems stand in for evaluation.
\<close>

section \<open>Assertions\<close>

definition is_ok :: "('e, 'a) outcome \<Rightarrow> bool" where
  "is_ok r \<longleftrightarrow> (case r of Ok _ \<Rightarrow> True | _ \<Rightarrow> False)"

definition is_err :: "('e, 'a) outcome \<Rightarrow> bool" where
  "is_err r \<longleftrightarrow> (case r of Err _ \<Rightarrow> True | _ \<Rightarrow> False)"

definition is_malformed :: "'a decoded \<Rightarrow> bool" where
  "is_malformed r \<longleftrightarrow> (case r of Err (MalformedPayload _) \<Rightarrow> True | _ \<Rightarrow> False)"

definition is_unsupported :: "'a decoded \<Rightarrow> bool" where
  "is_unsupported r \<longleftrightarrow> (case r of Err (UnsupportedFeature _) \<Rightarrow> True | _ \<Rightarrow> False)"

text \<open>Evaluation goes from left to right: a continuation is looked at once it gets its value.\<close>

lemma and_then_weak_cong: "r = r' \<Longrightarrow> and_then r f = and_then r' f"
  by simp

section \<open>Remaining length\<close>

definition remaining_length_roundtrip_single_byte :: bool where
  "remaining_length_roundtrip_single_byte \<longleftrightarrow>
     (let encoded = encode_remaining_length 64 in
      encoded = [0x40] \<and> decode_remaining_length encoded = Ok (64, 1))"

definition remaining_length_roundtrip_two_bytes :: bool where
  "remaining_length_roundtrip_two_bytes \<longleftrightarrow>
     (let encoded = encode_remaining_length 321 in
      encoded = [0xC1, 0x02] \<and> decode_remaining_length encoded = Ok (321, 2))"

definition remaining_length_max_value_four_bytes :: bool where
  "remaining_length_max_value_four_bytes \<longleftrightarrow>
     (let encoded = encode_remaining_length 268435455 in
      encoded = [0xFF, 0xFF, 0xFF, 0x7F] \<and> decode_remaining_length encoded = Ok (268435455, 4))"

definition remaining_length_incomplete_never_panics :: bool where
  "remaining_length_incomplete_never_panics \<longleftrightarrow>
     decode_remaining_length [0x80] = Err Incomplete \<and> decode_remaining_length [] = Err Incomplete"

definition remaining_length_rejects_five_continuation_bytes :: bool where
  "remaining_length_rejects_five_continuation_bytes \<longleftrightarrow>
     decode_remaining_length [0xFF, 0xFF, 0xFF, 0xFF, 0x01] = Err InvalidRemainingLength"

lemma rl_decode_spec_4: "rl_decode_spec 4 bs = rl_decode_spec (Suc (Suc (Suc (Suc 0)))) bs"
  by (simp add: eval_nat_numeral)

lemmas rl_eval = encode_remaining_length_spec rl_encode_spec.simps decode_remaining_length_spec rl_decode_spec_4

lemma remaining_length_tests:
  remaining_length_roundtrip_single_byte
  remaining_length_roundtrip_two_bytes
  remaining_length_max_value_four_bytes
  remaining_length_incomplete_never_panics
  remaining_length_rejects_five_continuation_bytes
  unfolding remaining_length_roundtrip_single_byte_def remaining_length_roundtrip_two_bytes_def
    remaining_length_max_value_four_bytes_def remaining_length_incomplete_never_panics_def
    remaining_length_rejects_five_continuation_bytes_def
  by (simp_all add: rl_eval Let_def)

section \<open>Framing and strings\<close>

definition decode_empty_buffer_is_incomplete_not_panic :: bool where
  "decode_empty_buffer_is_incomplete_not_panic \<longleftrightarrow> decode [] = Err Incomplete"

definition decode_unknown_packet_type_is_rejected :: bool where
  "decode_unknown_packet_type_is_rejected \<longleftrightarrow> decode [0x00, 0x00] = Err (UnknownPacketType 0)"

definition decode_truncated_after_fixed_header_is_incomplete :: bool where
  "decode_truncated_after_fixed_header_is_incomplete \<longleftrightarrow> decode [push_bit 4 PT_PINGREQ, 10] = Err Incomplete"

definition decode_pingreq_roundtrip :: bool where
  "decode_pingreq_roundtrip \<longleftrightarrow>
     (let bytes = encode PingReq in
      case decode bytes of Ok (packet, consumed) \<Rightarrow> consumed = length bytes \<and> packet = PingReq | _ \<Rightarrow> False)"

definition decode_pingreq_rejects_nonzero_remaining_length :: bool where
  "decode_pingreq_rejects_nonzero_remaining_length \<longleftrightarrow> is_malformed (decode [push_bit 4 PT_PINGREQ, 0x01, 0xAB])"

definition utf8_string_rejects_truncated_length_prefix :: bool where
  "utf8_string_rejects_truncated_length_prefix \<longleftrightarrow> is_err (decode_utf8_string [0x00])"

definition utf8_string_rejects_length_exceeding_buffer :: bool where
  "utf8_string_rejects_length_exceeding_buffer \<longleftrightarrow> is_err (decode_utf8_string ([0x00, 0x64] @ as_bytes ''hi''))"

definition utf8_string_rejects_invalid_utf8_bytes :: bool where
  "utf8_string_rejects_invalid_utf8_bytes \<longleftrightarrow> is_err (decode_utf8_string [0x00, 0x02, 0xFF, 0xFE])"

definition decode_only_consumes_one_packet_leaves_rest_buffered :: bool where
  "decode_only_consumes_one_packet_leaves_rest_buffered \<longleftrightarrow>
     (let second = encode PingReq; buf = encode PingReq @ second in
      case decode buf of
        Ok (_, consumed) \<Rightarrow> consumed = length buf - length second \<and>
          (case decode (drop consumed buf) of Ok (_, consumed2) \<Rightarrow> consumed2 = length second | _ \<Rightarrow> False)
      | _ \<Rightarrow> False)"

definition decode_max_remaining_length_never_panics :: bool where
  "decode_max_remaining_length_never_panics \<longleftrightarrow> is_err (decode [push_bit 4 PT_PUBLISH, 0xFF, 0xFF, 0xFF, 0x7F])"

text \<open>The pseudo-random inputs: three shifts per number, the length first, then that many bytes.\<close>

definition xorshift :: "u32 \<Rightarrow> u32" where
  "xorshift st =
     (let st = st XOR push_bit 13 st; st = st XOR drop_bit 17 st in st XOR push_bit 5 st)"

fun random_bytes :: "nat \<Rightarrow> u32 \<Rightarrow> bytes \<times> u32" where
  "random_bytes 0 st = ([], st)"
| "random_bytes (Suc n) st =
     (let st = xorshift st in case random_bytes n st of (bs, st') \<Rightarrow> (ucast (st mod 256) # bs, st'))"

fun random_rounds :: "nat \<Rightarrow> u32 \<Rightarrow> bool" where
  "random_rounds 0 st = True"
| "random_rounds (Suc n) st =
     (let st = xorshift st in
      case random_bytes (unat (st mod 64)) st of (buf, st') \<Rightarrow> decode buf \<noteq> Panic \<and> random_rounds n st')"

definition decode_never_panics_on_random_bytes :: bool where
  "decode_never_panics_on_random_bytes \<longleftrightarrow> random_rounds 20000 0x12345678"

lemmas decode_eval = decode_Nil decode_Cons rl_eval decode_body_def packet_type_defs is_malformed_def is_err_def
  is_ok_def is_unsupported_def

lemma framing_tests:
  decode_empty_buffer_is_incomplete_not_panic
  decode_unknown_packet_type_is_rejected
  decode_truncated_after_fixed_header_is_incomplete
  decode_pingreq_roundtrip
  decode_pingreq_rejects_nonzero_remaining_length
  decode_only_consumes_one_packet_leaves_rest_buffered
  decode_max_remaining_length_never_panics
  unfolding decode_empty_buffer_is_incomplete_not_panic_def decode_unknown_packet_type_is_rejected_def
    decode_truncated_after_fixed_header_is_incomplete_def decode_pingreq_roundtrip_def
    decode_pingreq_rejects_nonzero_remaining_length_def decode_only_consumes_one_packet_leaves_rest_buffered_def
    decode_max_remaining_length_never_panics_def
  by (simp_all add: decode_eval Let_def encode_fixed_header_only_def)

lemma string_tests:
  utf8_string_rejects_truncated_length_prefix
  utf8_string_rejects_length_exceeding_buffer
  utf8_string_rejects_invalid_utf8_bytes
  unfolding utf8_string_rejects_truncated_length_prefix_def utf8_string_rejects_length_exceeding_buffer_def
    utf8_string_rejects_invalid_utf8_bytes_def
  by (simp_all add: is_err_def decode_utf8_string_def read_u16_def from_be_bytes_def as_bytes_def from_utf8_def)

lemma random_rounds_pass: "random_rounds n st"
  by (induction n arbitrary: st) (simp_all add: Let_def decode_no_panic split: prod.split)

lemma random_test: decode_never_panics_on_random_bytes
  by (simp add: decode_never_panics_on_random_bytes_def random_rounds_pass)

section \<open>CONNECT\<close>

definition sample_connect :: connect_packet where
  "sample_connect =
     \<lparr>protocol_name = ''MQTT'', protocol_level = 4, clean_session = True, keep_alive_secs = 60,
      connect_client_id = ''test-client''\<rparr>"

definition connect_roundtrip :: bool where
  "connect_roundtrip \<longleftrightarrow>
     (let bytes = encode (Connect sample_connect) in
      case decode bytes of
        Ok (Connect p, consumed) \<Rightarrow> consumed = length bytes \<and> protocol_name p = ''MQTT'' \<and> protocol_level p = 4 \<and>
          clean_session p \<and> keep_alive_secs p = 60 \<and> connect_client_id p = ''test-client''
      | _ \<Rightarrow> False)"

definition connect_rejects_wrong_protocol_name :: bool where
  "connect_rejects_wrong_protocol_name \<longleftrightarrow>
     is_malformed (decode (prepend_fixed_header PT_CONNECT 0 (encode_utf8_string ''MQXX'' @ [4, 0x02] @ to_be_bytes 60 @ encode_utf8_string ''id'')))"

definition connect_rejects_unsupported_protocol_level :: bool where
  "connect_rejects_unsupported_protocol_level \<longleftrightarrow>
     is_unsupported (decode (prepend_fixed_header PT_CONNECT 0 (encode_utf8_string ''MQTT'' @ [5, 0x02] @ to_be_bytes 60 @ encode_utf8_string ''id'')))"

definition connect_truncated_mid_variable_header_is_malformed_not_panic :: bool where
  "connect_truncated_mid_variable_header_is_malformed_not_panic \<longleftrightarrow>
     is_err (decode (prepend_fixed_header PT_CONNECT 0 (encode_utf8_string ''MQTT'')))"

section \<open>SUBSCRIBE and UNSUBSCRIBE\<close>

definition subscribe_roundtrip_multiple_topics :: bool where
  "subscribe_roundtrip_multiple_topics \<longleftrightarrow>
     (let bytes = encode (Subscribe \<lparr>sub_packet_id = 42, subscriptions = [(''a/b'', 0), (''c/d'', 1)]\<rparr>) in
      case decode bytes of
        Ok (Subscribe p, consumed) \<Rightarrow> consumed = length bytes \<and> sub_packet_id p = 42 \<and>
          subscriptions p = [(''a/b'', 0), (''c/d'', 1)]
      | _ \<Rightarrow> False)"

definition subscribe_rejects_empty_topic_list :: bool where
  "subscribe_rejects_empty_topic_list \<longleftrightarrow>
     is_malformed (decode (prepend_fixed_header PT_SUBSCRIBE 2 (to_be_bytes 1)))"

definition subscribe_rejects_invalid_qos :: bool where
  "subscribe_rejects_invalid_qos \<longleftrightarrow>
     is_malformed (decode (prepend_fixed_header PT_SUBSCRIBE 2 (to_be_bytes 1 @ encode_utf8_string ''a'' @ [3])))"

definition unsubscribe_roundtrip :: bool where
  "unsubscribe_roundtrip \<longleftrightarrow>
     (case decode (encode (Unsubscribe \<lparr>unsub_packet_id = 7, topic_filters = [''x/y'']\<rparr>)) of
        Ok (Unsubscribe p, _) \<Rightarrow> unsub_packet_id p = 7 \<and> topic_filters p = [''x/y'']
      | _ \<Rightarrow> False)"

definition subscribe_rejects_invalid_wildcard_filter :: bool where
  "subscribe_rejects_invalid_wildcard_filter \<longleftrightarrow>
     is_malformed (decode (prepend_fixed_header PT_SUBSCRIBE 2 (to_be_bytes 1 @ encode_utf8_string ''sport/tennis#'' @ [0])))"

definition subscribe_accepts_valid_wildcard_filter :: bool where
  "subscribe_accepts_valid_wildcard_filter \<longleftrightarrow>
     is_ok (decode (encode (Subscribe \<lparr>sub_packet_id = 1, subscriptions = [(''sport/+/player1'', 0)]\<rparr>)))"

lemmas body_eval = decode_connect_def decode_subscribe_def decode_unsubscribe_def decode_publish_def decode_puback_def
  subscribe_loop.simps unsubscribe_loop.simps decode_str_at_def decode_utf8_string_def read_u16_def
  from_be_bytes_def to_be_bytes_def from_utf8_def as_bytes_def of_bytes_def char_of_def bit_0 encode_utf8_string_short
  prepend_fixed_header_def validate_topic_filter_def levels_def

lemmas encoder_eval = encode_connect_def connect_body_def encode_subscribe_def subscribe_body_def
  encode_unsubscribe_def unsubscribe_body_def encode_publish_def publish_body_def publish_flags_def
  encode_puback_def

lemma connect_tests:
  connect_roundtrip
  connect_rejects_wrong_protocol_name
  connect_rejects_unsupported_protocol_level
  connect_truncated_mid_variable_header_is_malformed_not_panic
  unfolding connect_roundtrip_def connect_rejects_wrong_protocol_name_def connect_rejects_unsupported_protocol_level_def
    connect_truncated_mid_variable_header_is_malformed_not_panic_def
  by (simp_all add: decode_eval body_eval encoder_eval sample_connect_def Let_def cong: and_then_weak_cong)

lemma subscribe_tests:
  subscribe_roundtrip_multiple_topics
  subscribe_rejects_empty_topic_list
  subscribe_rejects_invalid_qos
  unsubscribe_roundtrip
  subscribe_rejects_invalid_wildcard_filter
  subscribe_accepts_valid_wildcard_filter
  unfolding subscribe_roundtrip_multiple_topics_def subscribe_rejects_empty_topic_list_def
    subscribe_rejects_invalid_qos_def unsubscribe_roundtrip_def subscribe_rejects_invalid_wildcard_filter_def
    subscribe_accepts_valid_wildcard_filter_def
  by (simp_all add: decode_eval body_eval encoder_eval Let_def cong: and_then_weak_cong)

section \<open>PUBLISH and PUBACK\<close>

definition publish_qos0_roundtrip :: bool where
  "publish_qos0_roundtrip \<longleftrightarrow>
     (let bytes = encode (Publish \<lparr>pub_topic = ''weather'', pub_payload = as_bytes ''rain'', pub_qos = 0,
        pub_retain = False, pub_packet_id = None\<rparr>) in
      case decode bytes of
        Ok (Publish p, consumed) \<Rightarrow> consumed = length bytes \<and> pub_topic p = ''weather'' \<and>
          pub_payload p = as_bytes ''rain'' \<and> pub_qos p = 0 \<and> \<not> pub_retain p \<and> pub_packet_id p = None
      | _ \<Rightarrow> False)"

definition publish_empty_payload_is_valid :: bool where
  "publish_empty_payload_is_valid \<longleftrightarrow>
     (case decode (encode (Publish \<lparr>pub_topic = ''t'', pub_payload = [], pub_qos = 0, pub_retain = False,
        pub_packet_id = None\<rparr>)) of
        Ok (Publish p, _) \<Rightarrow> pub_payload p = []
      | _ \<Rightarrow> False)"

definition publish_rejects_qos2_reserved_value :: bool where
  "publish_rejects_qos2_reserved_value \<longleftrightarrow>
     is_malformed (decode (prepend_fixed_header PT_PUBLISH 6 (encode_utf8_string ''t'')))"

definition publish_rejects_qos2_as_unsupported :: bool where
  "publish_rejects_qos2_as_unsupported \<longleftrightarrow>
     is_unsupported (decode (prepend_fixed_header PT_PUBLISH 4 (encode_utf8_string ''t'' @ to_be_bytes 1)))"

definition publish_qos1_roundtrip :: bool where
  "publish_qos1_roundtrip \<longleftrightarrow>
     (let bytes = encode (Publish \<lparr>pub_topic = ''weather'', pub_payload = as_bytes ''rain'', pub_qos = 1,
        pub_retain = False, pub_packet_id = Some 42\<rparr>) in
      case decode bytes of
        Ok (Publish p, consumed) \<Rightarrow> consumed = length bytes \<and> pub_qos p = 1 \<and> pub_packet_id p = Some 42 \<and>
          pub_payload p = as_bytes ''rain''
      | _ \<Rightarrow> False)"

definition publish_qos1_rejects_truncated_packet_identifier :: bool where
  "publish_qos1_rejects_truncated_packet_identifier \<longleftrightarrow>
     is_malformed (decode (prepend_fixed_header PT_PUBLISH 2 (encode_utf8_string ''t'' @ [0x00])))"

definition publish_qos1_rejects_zero_packet_identifier :: bool where
  "publish_qos1_rejects_zero_packet_identifier \<longleftrightarrow>
     is_malformed (decode (prepend_fixed_header PT_PUBLISH 2 (encode_utf8_string ''t'' @ to_be_bytes 0)))"

definition puback_roundtrip :: bool where
  "puback_roundtrip \<longleftrightarrow>
     (let bytes = encode (PubAck \<lparr>puback_packet_id = 99\<rparr>) in
      case decode bytes of
        Ok (PubAck p, consumed) \<Rightarrow> consumed = length bytes \<and> puback_packet_id p = 99
      | _ \<Rightarrow> False)"

definition puback_rejects_wrong_body_length :: bool where
  "puback_rejects_wrong_body_length \<longleftrightarrow> is_malformed (decode (prepend_fixed_header PT_PUBACK 0 [0x00, 0x01, 0x02]))"

definition puback_rejects_zero_packet_identifier :: bool where
  "puback_rejects_zero_packet_identifier \<longleftrightarrow> is_malformed (decode (prepend_fixed_header PT_PUBACK 0 (to_be_bytes 0)))"

definition puback_rejects_nonzero_flags :: bool where
  "puback_rejects_nonzero_flags \<longleftrightarrow>
     (let bytes = prepend_fixed_header PT_PUBACK 0 (to_be_bytes 2) in is_malformed (decode (bytes[0 := bytes ! 0 OR 1])))"

definition publish_rejects_empty_topic_name :: bool where
  "publish_rejects_empty_topic_name \<longleftrightarrow>
     is_malformed (decode (prepend_fixed_header PT_PUBLISH 0 (encode_utf8_string [])))"

definition publish_rejects_wildcard_in_topic_name :: bool where
  "publish_rejects_wildcard_in_topic_name \<longleftrightarrow>
     is_malformed (decode (prepend_fixed_header PT_PUBLISH 0 (encode_utf8_string ''a/+/b'')))"

definition decode_large_publish_payload_roundtrip :: bool where
  "decode_large_publish_payload_roundtrip \<longleftrightarrow>
     (let payload = replicate (1024 * 1024) 0xAB;
          bytes = encode (Publish \<lparr>pub_topic = ''load/test'', pub_payload = payload, pub_qos = 0, pub_retain = False,
            pub_packet_id = None\<rparr>) in
      case decode bytes of
        Ok (Publish p, consumed) \<Rightarrow> consumed = length bytes \<and> pub_topic p = ''load/test'' \<and>
          length (pub_payload p) = length payload \<and> pub_payload p = payload \<and> pub_qos p = 0 \<and>
          \<not> pub_retain p \<and> pub_packet_id p = None
      | _ \<Rightarrow> False)"

lemma publish_tests:
  publish_qos0_roundtrip
  publish_empty_payload_is_valid
  publish_rejects_qos2_reserved_value
  publish_rejects_qos2_as_unsupported
  publish_qos1_roundtrip
  publish_qos1_rejects_truncated_packet_identifier
  publish_qos1_rejects_zero_packet_identifier
  publish_rejects_empty_topic_name
  publish_rejects_wildcard_in_topic_name
  unfolding publish_qos0_roundtrip_def publish_empty_payload_is_valid_def publish_rejects_qos2_reserved_value_def
    publish_rejects_qos2_as_unsupported_def publish_qos1_roundtrip_def
    publish_qos1_rejects_truncated_packet_identifier_def publish_qos1_rejects_zero_packet_identifier_def
    publish_rejects_empty_topic_name_def publish_rejects_wildcard_in_topic_name_def
  by (simp_all add: decode_eval body_eval encoder_eval Let_def cong: and_then_weak_cong)

lemma puback_tests:
  puback_roundtrip
  puback_rejects_wrong_body_length
  puback_rejects_zero_packet_identifier
  puback_rejects_nonzero_flags
  unfolding puback_roundtrip_def puback_rejects_wrong_body_length_def puback_rejects_zero_packet_identifier_def
    puback_rejects_nonzero_flags_def
  by (simp_all add: decode_eval body_eval encoder_eval Let_def cong: and_then_weak_cong)

text \<open>A payload of a mebibyte, by the round trip that holds for all.\<close>

lemma large_payload_test: decode_large_publish_payload_roundtrip
proof -
  let ?p = "\<lparr>pub_topic = ''load/test'', pub_payload = replicate (1024 * 1024) 0xAB, pub_qos = 0, pub_retain = False,
    pub_packet_id = None\<rparr>"
  have t: "wire_str ''load/test''" by (simp add: wire_str_def rust_str_def as_bytes_def)
  have "client_packet (Publish ?p)" by (simp add: publish_ok_def t is_wildcard_filter_def)
  moreover have "length (packet_body (Publish ?p)) \<le> max_remaining_length"
    by (simp add: publish_body_def wire_str_decode(2) [OF t] max_remaining_length_def)
  ultimately have "decode (encode (Publish ?p)) = Ok (Publish ?p, length (encode (Publish ?p)))"
    using decode_encode [of "Publish ?p" "[]"] by simp
  then show ?thesis by (simp only: decode_large_publish_payload_roundtrip_def Let_def) simp
qed

section \<open>Topic filters\<close>

definition validate_filter_accepts_plain_topic :: bool where
  "validate_filter_accepts_plain_topic \<longleftrightarrow> is_ok (validate_topic_filter ''sport/tennis/player1'')"

definition validate_filter_accepts_hash_alone :: bool where
  "validate_filter_accepts_hash_alone \<longleftrightarrow> is_ok (validate_topic_filter ''#'')"

definition validate_filter_accepts_hash_as_last_level :: bool where
  "validate_filter_accepts_hash_as_last_level \<longleftrightarrow> is_ok (validate_topic_filter ''sport/tennis/player1/#'')"

definition validate_filter_rejects_hash_not_last :: bool where
  "validate_filter_rejects_hash_not_last \<longleftrightarrow> is_malformed (validate_topic_filter ''sport/#/player1'')"

definition validate_filter_rejects_hash_not_alone_in_level :: bool where
  "validate_filter_rejects_hash_not_alone_in_level \<longleftrightarrow> is_malformed (validate_topic_filter ''sport/tennis#'')"

definition validate_filter_accepts_plus_at_any_level :: bool where
  "validate_filter_accepts_plus_at_any_level \<longleftrightarrow>
     is_ok (validate_topic_filter ''sport/+/player1'') \<and> is_ok (validate_topic_filter ''+/+'') \<and>
     is_ok (validate_topic_filter ''+'')"

definition validate_filter_rejects_plus_not_alone_in_level :: bool where
  "validate_filter_rejects_plus_not_alone_in_level \<longleftrightarrow> is_malformed (validate_topic_filter ''sport/+aa/player1'')"

definition validate_filter_rejects_empty_filter :: bool where
  "validate_filter_rejects_empty_filter \<longleftrightarrow> is_malformed (validate_topic_filter [])"

definition matches_exact_topic :: bool where
  "matches_exact_topic \<longleftrightarrow>
     topic_matches_filter ''sport/tennis/player1'' ''sport/tennis/player1'' \<and>
     \<not> topic_matches_filter ''sport/tennis/player1'' ''sport/tennis/player2''"

definition matches_multi_level_wildcard :: bool where
  "matches_multi_level_wildcard \<longleftrightarrow>
     topic_matches_filter ''sport/tennis/player1'' ''sport/tennis/player1/#'' \<and>
     topic_matches_filter ''sport/tennis/player1/ranking'' ''sport/tennis/player1/#'' \<and>
     topic_matches_filter ''sport'' ''sport/#'' \<and>
     topic_matches_filter ''sport/anything/at/all'' ''sport/#'' \<and>
     topic_matches_filter ''anything'' ''#''"

definition matches_single_level_wildcard :: bool where
  "matches_single_level_wildcard \<longleftrightarrow>
     topic_matches_filter ''sport/tennis/player1'' ''sport/+/player1'' \<and>
     topic_matches_filter ''sport/hockey/player1'' ''sport/+/player1'' \<and>
     \<not> topic_matches_filter ''sport/tennis/junior/player1'' ''sport/+/player1''"

definition matches_plus_does_not_match_missing_level :: bool where
  "matches_plus_does_not_match_missing_level \<longleftrightarrow> \<not> topic_matches_filter ''sport'' ''sport/+''"

definition matches_leading_slash_topics :: bool where
  "matches_leading_slash_topics \<longleftrightarrow> topic_matches_filter ''/finance'' ''+/+''"

definition matches_never_panics_on_adversarial_slash_counts :: bool where
  "matches_never_panics_on_adversarial_slash_counts \<longleftrightarrow>
     (let many_slashes = concat (replicate 10000 ''a/'') in
      \<not> topic_matches_filter many_slashes ''x/y/z'' \<and> topic_matches_filter many_slashes ''#'')"

lemmas filter_eval = validate_topic_filter_def topic_matches_filter_spec levels_def is_ok_def is_malformed_def

lemma validation_tests:
  validate_filter_accepts_plain_topic
  validate_filter_accepts_hash_alone
  validate_filter_accepts_hash_as_last_level
  validate_filter_rejects_hash_not_last
  validate_filter_rejects_hash_not_alone_in_level
  validate_filter_accepts_plus_at_any_level
  validate_filter_rejects_plus_not_alone_in_level
  validate_filter_rejects_empty_filter
  unfolding validate_filter_accepts_plain_topic_def validate_filter_accepts_hash_alone_def
    validate_filter_accepts_hash_as_last_level_def validate_filter_rejects_hash_not_last_def
    validate_filter_rejects_hash_not_alone_in_level_def validate_filter_accepts_plus_at_any_level_def
    validate_filter_rejects_plus_not_alone_in_level_def validate_filter_rejects_empty_filter_def
  by (simp_all add: filter_eval Let_def)

lemma matching_tests:
  matches_exact_topic
  matches_multi_level_wildcard
  matches_single_level_wildcard
  matches_plus_does_not_match_missing_level
  matches_leading_slash_topics
  unfolding matches_exact_topic_def matches_multi_level_wildcard_def matches_single_level_wildcard_def
    matches_plus_does_not_match_missing_level_def matches_leading_slash_topics_def
  by (simp_all add: filter_eval)

lemma adversarial_topic_test: matches_never_panics_on_adversarial_slash_counts
proof -
  obtain rest where many: "concat (replicate 10000 ''a/'') = CHR ''a'' # CHR ''/'' # rest"
    using replicate_Suc [of 9999 "''a/''"] by simp
  show ?thesis
    unfolding matches_never_panics_on_adversarial_slash_counts_def Let_def many by (simp add: filter_eval)
qed

end
