(* ===== verification/Client_Tests.thy ===== *)
theory Client_Tests
  imports Client_Wire Protocol_Tests
begin

text \<open>
  The unit tests of \<open>src/bin/blitzclient.rs\<close>, run on the model of the client's codec, in the way of
  \<open>Protocol_Tests\<close>.
\<close>

section \<open>Remaining length\<close>

definition remaining_length_single_byte_zero :: bool where
  "remaining_length_single_byte_zero \<longleftrightarrow>
     (let enc = encode_remaining_length_c 0 in enc = [0x00] \<and> decode_remaining_length_c enc = Ok (0, 1))"

definition remaining_length_127 :: bool where
  "remaining_length_127 \<longleftrightarrow>
     (let enc = encode_remaining_length_c 127 in enc = [0x7F] \<and> decode_remaining_length_c enc = Ok (127, 1))"

definition remaining_length_128 :: bool where
  "remaining_length_128 \<longleftrightarrow>
     (let enc = encode_remaining_length_c 128 in enc = [0x80, 0x01] \<and> decode_remaining_length_c enc = Ok (128, 2))"

definition remaining_length_16383 :: bool where
  "remaining_length_16383 \<longleftrightarrow>
     (let enc = encode_remaining_length_c 16383 in enc = [0xFF, 0x7F] \<and> decode_remaining_length_c enc = Ok (16383, 2))"

definition remaining_length_max :: bool where
  "remaining_length_max \<longleftrightarrow>
     (let enc = encode_remaining_length_c 268435455 in enc = [0xFF, 0xFF, 0xFF, 0x7F] \<and> decode_remaining_length_c enc = Ok (268435455, 4))"

definition remaining_length_rejects_five_continuation_bytes_c :: bool where
  "remaining_length_rejects_five_continuation_bytes_c \<longleftrightarrow>
     is_err (decode_remaining_length_c [0xFF, 0xFF, 0xFF, 0xFF, 0x01])"

definition remaining_length_truncated :: bool where
  "remaining_length_truncated \<longleftrightarrow>
     is_err (decode_remaining_length_c [0x80])"

lemmas rl_eval_c = encode_remaining_length_c_eq decode_remaining_length_c_eq rl_eval

lemma client_length_tests:
  remaining_length_single_byte_zero
  remaining_length_127
  remaining_length_128
  remaining_length_16383
  remaining_length_max
  remaining_length_rejects_five_continuation_bytes_c
  remaining_length_truncated
  unfolding remaining_length_single_byte_zero_def remaining_length_127_def remaining_length_128_def 
    remaining_length_16383_def remaining_length_max_def 
    remaining_length_rejects_five_continuation_bytes_c_def remaining_length_truncated_def
  by (simp_all add: rl_eval_c Let_def is_err_def cong: and_then_weak_cong)

section \<open>Encoders\<close>

definition connect_packet_fixed_header_and_body :: bool where
  "connect_packet_fixed_header_and_body \<longleftrightarrow>
     (let pkt = encode_connect_c ''test-client'' 60 in
      pkt ! 0 = 0x10 \<and> pkt ! 1 = 23 \<and> take 6 (drop 2 pkt) = [0x00, 0x04] @ as_bytes ''MQTT'' \<and> pkt ! 8 = 4 \<and> pkt ! 9 = 0x02 \<and>
      take 2 (drop 10 pkt) = [0x00, 0x3C] \<and> take 2 (drop 12 pkt) = [0x00, 0x0B] \<and> drop 14 pkt = as_bytes ''test-client'')"

definition connect_packet_total_length :: bool where
  "connect_packet_total_length \<longleftrightarrow>
     length (encode_connect_c ''abc'' 0) = 17"

definition subscribe_fixed_header_flags_are_0b0010 :: bool where
  "subscribe_fixed_header_flags_are_0b0010 \<longleftrightarrow>
     encode_subscribe_c 1 ''a/b'' 0 ! 0 = 0x82"

definition subscribe_packet_structure :: bool where
  "subscribe_packet_structure \<longleftrightarrow>
     (let pkt = encode_subscribe_c 42 ''test/#'' 0 in
      pkt ! 0 = 0x82 \<and> pkt ! 1 = 11 \<and> take 2 (drop 2 pkt) = [0x00, 0x2A] \<and> take 2 (drop 4 pkt) = [0x00, 0x06] \<and>
      take 6 (drop 6 pkt) = as_bytes ''test/#'' \<and> pkt ! 12 = 0x00)"

definition subscribe_wildcard_plus :: bool where
  "subscribe_wildcard_plus \<longleftrightarrow>
     (let pkt = encode_subscribe_c 1 ''sensors/+/temp'' 0 in
      pkt ! 1 = 19 \<and> take 2 (drop 4 pkt) = [0x00, 14] \<and> take 14 (drop 6 pkt) = as_bytes ''sensors/+/temp'' \<and> pkt ! 20 = 0x00)"

definition publish_qos0_no_packet_id :: bool where
  "publish_qos0_no_packet_id \<longleftrightarrow>
     (let pkt = encode_publish_c ''a/b'' (as_bytes ''hello'') 0 None in
      pkt ! 0 = 0x30 \<and> pkt ! 1 = 10 \<and> take 2 (drop 2 pkt) = [0x00, 0x03] \<and> take 3 (drop 4 pkt) = as_bytes ''a/b'' \<and>
      drop 7 pkt = as_bytes ''hello'')"

definition publish_qos1_has_packet_id :: bool where
  "publish_qos1_has_packet_id \<longleftrightarrow>
     (let pkt = encode_publish_c ''t'' (as_bytes ''v'') 1 (Some 42) in
      pkt ! 0 = 0x32 \<and> pkt ! 1 = 6 \<and> take 2 (drop 2 pkt) = [0x00, 0x01] \<and> pkt ! 4 = of_char CHR ''t'' \<and>
      take 2 (drop 5 pkt) = [0x00, 0x2A] \<and> pkt ! 7 = of_char CHR ''v'')"

definition publish_empty_payload :: bool where
  "publish_empty_payload \<longleftrightarrow>
     (let pkt = encode_publish_c ''x'' [] 0 None in pkt ! 1 = 3 \<and> length pkt = 2 + 3)"

definition disconnect_is_two_bytes :: bool where
  "disconnect_is_two_bytes \<longleftrightarrow>
     encode_disconnect_c = [0xE0, 0x00]"

lemmas client_encoder_eval = encode_connect_c_def encode_subscribe_c_def encode_publish_c_def encode_disconnect_c_def
  make_packet_def encode_utf8_str_def packet_type_defs to_be_bytes_def as_bytes_def rl_eval_c

lemma client_encoder_tests:
  connect_packet_fixed_header_and_body
  connect_packet_total_length
  subscribe_fixed_header_flags_are_0b0010
  subscribe_packet_structure
  subscribe_wildcard_plus
  publish_qos0_no_packet_id
  publish_qos1_has_packet_id
  publish_empty_payload
  disconnect_is_two_bytes
  unfolding connect_packet_fixed_header_and_body_def connect_packet_total_length_def 
    subscribe_fixed_header_flags_are_0b0010_def subscribe_packet_structure_def 
    subscribe_wildcard_plus_def publish_qos0_no_packet_id_def publish_qos1_has_packet_id_def 
    publish_empty_payload_def disconnect_is_two_bytes_def
  by (simp_all add: client_encoder_eval Let_def cong: and_then_weak_cong)

section \<open>Decoders of acknowledgements\<close>

definition decode_connack_accepted :: bool where
  "decode_connack_accepted \<longleftrightarrow>
     (case decode_connack_body [0x00, 0x00] of Ok (sp, rc) \<Rightarrow> \<not> sp \<and> rc = 0x00 | _ \<Rightarrow> False)"

definition decode_connack_refused_server_unavailable :: bool where
  "decode_connack_refused_server_unavailable \<longleftrightarrow>
     (case decode_connack_body [0x00, 0x03] of Ok (sp, rc) \<Rightarrow> \<not> sp \<and> rc = 0x03 | _ \<Rightarrow> False)"

definition decode_connack_session_present_bit :: bool where
  "decode_connack_session_present_bit \<longleftrightarrow>
     (case decode_connack_body [0x01, 0x00] of Ok (sp, rc) \<Rightarrow> sp \<and> rc = 0x00 | _ \<Rightarrow> False)"

definition decode_connack_body_too_short_does_not_panic :: bool where
  "decode_connack_body_too_short_does_not_panic \<longleftrightarrow>
     is_err (decode_connack_body []) \<and> is_err (decode_connack_body [0x00])"

definition decode_suback_single_subscription_granted :: bool where
  "decode_suback_single_subscription_granted \<longleftrightarrow>
     decode_suback_body [0x00, 0x01, 0x00] = Ok (1, [0x00])"

definition decode_suback_failure_return_code :: bool where
  "decode_suback_failure_return_code \<longleftrightarrow>
     decode_suback_body [0x00, 0x05, 0x80] = Ok (5, [0x80])"

definition decode_suback_multiple_return_codes :: bool where
  "decode_suback_multiple_return_codes \<longleftrightarrow>
     decode_suback_body [0x00, 0xFF, 0x00, 0x01, 0x80] = Ok (255, [0x00, 0x01, 0x80])"

definition decode_suback_max_packet_id :: bool where
  "decode_suback_max_packet_id \<longleftrightarrow>
     decode_suback_body [0xFF, 0xFF, 0x00] = Ok (0xFFFF, [0x00])"

definition decode_suback_too_short_does_not_panic :: bool where
  "decode_suback_too_short_does_not_panic \<longleftrightarrow>
     is_err (decode_suback_body []) \<and> is_err (decode_suback_body [0x00]) \<and> is_err (decode_suback_body [0x00, 0x01])"

definition decode_puback_packet_id :: bool where
  "decode_puback_packet_id \<longleftrightarrow>
     decode_puback_body_c [0x00, 0x2A] = Ok 42"

definition decode_puback_max_packet_id :: bool where
  "decode_puback_max_packet_id \<longleftrightarrow>
     decode_puback_body_c [0xFF, 0xFF] = Ok 0xFFFF"

definition decode_puback_body_too_short_does_not_panic :: bool where
  "decode_puback_body_too_short_does_not_panic \<longleftrightarrow>
     is_err (decode_puback_body_c []) \<and> is_err (decode_puback_body_c [0x00])"

lemma client_ack_tests:
  decode_connack_accepted
  decode_connack_refused_server_unavailable
  decode_connack_session_present_bit
  decode_connack_body_too_short_does_not_panic
  decode_suback_single_subscription_granted
  decode_suback_failure_return_code
  decode_suback_multiple_return_codes
  decode_suback_max_packet_id
  decode_suback_too_short_does_not_panic
  decode_puback_packet_id
  decode_puback_max_packet_id
  decode_puback_body_too_short_does_not_panic
  unfolding decode_connack_accepted_def decode_connack_refused_server_unavailable_def 
    decode_connack_session_present_bit_def decode_connack_body_too_short_does_not_panic_def 
    decode_suback_single_subscription_granted_def decode_suback_failure_return_code_def 
    decode_suback_multiple_return_codes_def decode_suback_max_packet_id_def 
    decode_suback_too_short_does_not_panic_def decode_puback_packet_id_def 
    decode_puback_max_packet_id_def decode_puback_body_too_short_does_not_panic_def
  by (simp_all add: decode_connack_body_def decode_suback_body_def decode_puback_body_c_def from_be_bytes_def is_err_def cong: and_then_weak_cong)

section \<open>Decoder of PUBLISH\<close>

definition decode_publish_body_qos0 :: bool where
  "decode_publish_body_qos0 \<longleftrightarrow>
     decode_publish_body 0 ([0x00, 0x03] @ as_bytes ''a/b'' @ as_bytes ''hello'') = Ok (''a/b'', as_bytes ''hello'', 0, None)"

definition decode_publish_body_qos1_with_packet_id :: bool where
  "decode_publish_body_qos1_with_packet_id \<longleftrightarrow>
     decode_publish_body 2 ([0x00, 0x01] @ as_bytes ''t'' @ [0x00, 0x2A] @ as_bytes ''v'') = Ok (''t'', as_bytes ''v'', 1, Some 42)"

definition decode_publish_body_empty_payload :: bool where
  "decode_publish_body_empty_payload \<longleftrightarrow>
     decode_publish_body 0 ([0x00, 0x05] @ as_bytes ''hello'') = Ok (''hello'', [], 0, None)"

definition decode_publish_body_wildcard_topic_delivered :: bool where
  "decode_publish_body_wildcard_topic_delivered \<longleftrightarrow>
     (case decode_publish_body 0 (to_be_bytes (of_nat (length ''sensors/kitchen/temp'')) @ as_bytes ''sensors/kitchen/temp'' @
        as_bytes ''21C'') of
        Ok (topic, payload, qos, _) \<Rightarrow> topic = ''sensors/kitchen/temp'' \<and> payload = as_bytes ''21C'' \<and> qos = 0
      | _ \<Rightarrow> False)"

definition decode_publish_body_truncated_topic_does_not_panic :: bool where
  "decode_publish_body_truncated_topic_does_not_panic \<longleftrightarrow>
     is_err (decode_publish_body 0 []) \<and> is_err (decode_publish_body 0 ([0x00, 0x05] @ as_bytes ''h''))"

definition decode_publish_body_qos1_missing_packet_id_does_not_panic :: bool where
  "decode_publish_body_qos1_missing_packet_id_does_not_panic \<longleftrightarrow>
     is_err (decode_publish_body 2 ([0x00, 0x01] @ as_bytes ''t''))"

definition publish_encode_decode_roundtrip_qos0 :: bool where
  "publish_encode_decode_roundtrip_qos0 \<longleftrightarrow>
     (let encoded = encode_publish_c ''home/sensors/temp'' (as_bytes ''22.5C'') 0 None; flags = encoded ! 0 AND 0x0F; body = drop 2 encoded in
      decode_publish_body flags body = Ok (''home/sensors/temp'', as_bytes ''22.5C'', 0, None))"

definition publish_encode_decode_roundtrip_qos1 :: bool where
  "publish_encode_decode_roundtrip_qos1 \<longleftrightarrow>
     (let encoded = encode_publish_c ''alerts/door'' (as_bytes ''open'') 1 (Some 7); flags = encoded ! 0 AND 0x0F; body = drop 2 encoded in
      decode_publish_body flags body = Ok (''alerts/door'', as_bytes ''open'', 1, (Some 7)))"

lemma client_publish_tests:
  decode_publish_body_qos0
  decode_publish_body_qos1_with_packet_id
  decode_publish_body_empty_payload
  decode_publish_body_wildcard_topic_delivered
  decode_publish_body_truncated_topic_does_not_panic
  decode_publish_body_qos1_missing_packet_id_does_not_panic
  publish_encode_decode_roundtrip_qos0
  publish_encode_decode_roundtrip_qos1
  unfolding decode_publish_body_qos0_def decode_publish_body_qos1_with_packet_id_def 
    decode_publish_body_empty_payload_def decode_publish_body_wildcard_topic_delivered_def 
    decode_publish_body_truncated_topic_does_not_panic_def 
    decode_publish_body_qos1_missing_packet_id_does_not_panic_def 
    publish_encode_decode_roundtrip_qos0_def publish_encode_decode_roundtrip_qos1_def
  by (simp_all add: client_encoder_eval decode_publish_body_def decode_utf8_str_def from_be_bytes_def from_utf8_def
      of_bytes_def char_of_def bit_0 is_err_def Let_def cong: and_then_weak_cong)

end
