(* ===== verification/Connection_Tests.thy ===== *)
theory Connection_Tests
  imports Connection
begin

text \<open>
  The unit tests of \<open>src/queue.rs\<close> and \<open>src/connection.rs\<close>, run on the model as in \<open>Protocol_Tests\<close>. A test of
  a connection dispatches packets over a plain channel, then looks at the messages the broker's end
  would receive and pop_times the queue after closing it.
\<close>

section \<open>The queue\<close>

definition drop_oldest_when_full :: bool where
  "drop_oldest_when_full \<longleftrightarrow>
     (let (q1, d1) = push (queue_new 2) (1 :: int); (q2, d2) = push q1 2; (q3, d3) = push q2 3;
          (r1, q4) = pop_blocking q3; (r2, q5) = pop_blocking q4
      in \<not> d1 \<and> \<not> d2 \<and> d3 \<and> r1 = PopItem 2 \<and> r2 = PopItem 3)"

definition close_wakes_blocked_consumer :: bool where
  "close_wakes_blocked_consumer \<longleftrightarrow>
     fst (pop_blocking (close_queue (queue_new 4 :: int queue))) = PopClosed"

fun pop_times :: "nat \<Rightarrow> 'a queue \<Rightarrow> 'a pop_result list" where
  "pop_times 0 q = []"
| "pop_times (Suc n) q = (case pop_blocking q of (r, q') \<Rightarrow> r # pop_times n q')"

definition fifo_order_preserved_under_capacity :: bool where
  "fifo_order_preserved_under_capacity \<longleftrightarrow>
     pop_times 5 (foldl (\<lambda>q i. fst (push q i)) (queue_new 10) [0, 1, 2, 3, 4 :: int]) = map PopItem [0, 1, 2, 3, 4]"

lemma pop_times_5: "pop_times 5 q = pop_times (Suc (Suc (Suc (Suc (Suc 0))))) q"
  by (simp add: eval_nat_numeral)

lemma queue_tests:
  drop_oldest_when_full
  close_wakes_blocked_consumer
  fifo_order_preserved_under_capacity
  unfolding drop_oldest_when_full_def close_wakes_blocked_consumer_def 
    fifo_order_preserved_under_capacity_def
  by (simp_all add: queue_new_def push_def pop_blocking_def close_queue_def pop_times_5 Let_def split_beta)

section \<open>Dispatching\<close>

text \<open>The packets in turn, from an empty channel and a new queue: the results, the channel, the closed queue.\<close>

fun dispatch_all ::
    "mqtt_packet list \<Rightarrow> channel \<times> queue_store \<Rightarrow> (unit, bool list \<times> channel \<times> queue_store) outcome" where
  "dispatch_all [] s = Ok ([], s)"
| "dispatch_all (p # ps) s =
     and_then (dispatch_packet chan_send 1 0 p s) (\<lambda>(r, s'). map_ok (\<lambda>(rs, s''). (r # rs, s'')) (dispatch_all ps s'))"

definition dispatched ::
    "mqtt_packet list \<Rightarrow> (bool list \<Rightarrow> broker_message list \<Rightarrow> outbound_event queue \<Rightarrow> bool) \<Rightarrow> bool" where
  "dispatched ps check \<longleftrightarrow>
     (case dispatch_all ps (channel_new, \<lambda>_. queue_new DEFAULT_CLIENT_QUEUE_CAPACITY) of
        Ok (results, tx, st) \<Rightarrow> check results (inbox tx) (close_queue (st 0))
      | _ \<Rightarrow> False)"

definition pop_packet :: "outbound_event queue \<Rightarrow> (mqtt_packet \<times> outbound_event queue) option" where
  "pop_packet q = (case pop_blocking q of (PopItem (Packet p), q') \<Rightarrow> Some (p, q') | _ \<Rightarrow> None)"

definition subscribe_single_topic_produces_suback_with_correct_packet_id_and_return_code :: bool where
  "subscribe_single_topic_produces_suback_with_correct_packet_id_and_return_code \<longleftrightarrow>
     dispatched [Subscribe \<lparr>sub_packet_id = 5, subscriptions = [(''sensors/temp'', 0)]\<rparr>] (\<lambda>results msgs q.
        results = [True] \<and> (case msgs of [SubscribeTo _ t0] \<Rightarrow> t0 = ''sensors/temp'' | _ \<Rightarrow> False) \<and>
        (case pop_packet q of Some (SubAck ack, q') \<Rightarrow> suback_packet_id ack = 5 \<and> return_codes ack = [0x00] | _ \<Rightarrow> False))"

definition subscribe_multiple_topics_produces_suback_with_one_code_per_topic_in_order :: bool where
  "subscribe_multiple_topics_produces_suback_with_one_code_per_topic_in_order \<longleftrightarrow>
     dispatched [Subscribe \<lparr>sub_packet_id = 99, subscriptions = [(''a/b'', 0), (''c/d'', 0), (''e/f'', 0)]\<rparr>] (\<lambda>results msgs q.
        (case msgs of [SubscribeTo _ t0, SubscribeTo _ t1, SubscribeTo _ t2] \<Rightarrow> t0 = ''a/b'' \<and> t1 = ''c/d'' \<and> t2 = ''e/f'' | _ \<Rightarrow> False) \<and>
        (case pop_packet q of Some (SubAck ack, q') \<Rightarrow> suback_packet_id ack = 99 \<and> return_codes ack = [0x00, 0x00, 0x00] | _ \<Rightarrow> False))"

definition subscribe_max_packet_id_echoed_in_suback :: bool where
  "subscribe_max_packet_id_echoed_in_suback \<longleftrightarrow>
     dispatched [Subscribe \<lparr>sub_packet_id = 0xFFFF, subscriptions = [(''t'', 0)]\<rparr>] (\<lambda>results msgs q.
        (case pop_packet q of Some (SubAck ack, q') \<Rightarrow> suback_packet_id ack = 0xFFFF | _ \<Rightarrow> False))"

definition unsubscribe_produces_unsuback_with_correct_packet_id :: bool where
  "unsubscribe_produces_unsuback_with_correct_packet_id \<longleftrightarrow>
     dispatched [Unsubscribe \<lparr>unsub_packet_id = 12, topic_filters = [''sensors/temp'']\<rparr>] (\<lambda>results msgs q.
        results = [True] \<and> (case msgs of [UnsubscribeFrom _ t0] \<Rightarrow> t0 = ''sensors/temp'' | _ \<Rightarrow> False) \<and>
        (case pop_packet q of Some (UnsubAck ack, q') \<Rightarrow> unsuback_packet_id ack = 12 | _ \<Rightarrow> False))"

definition unsubscribe_multiple_topics_sends_one_unsuback :: bool where
  "unsubscribe_multiple_topics_sends_one_unsuback \<longleftrightarrow>
     dispatched [Unsubscribe \<lparr>unsub_packet_id = 7, topic_filters = [''a/b'', ''c/d'']\<rparr>] (\<lambda>results msgs q.
        (case msgs of [UnsubscribeFrom _ t0, UnsubscribeFrom _ t1] \<Rightarrow> t0 = ''a/b'' \<and> t1 = ''c/d'' | _ \<Rightarrow> False) \<and>
        (case pop_packet q of Some (UnsubAck ack, q') \<Rightarrow> unsuback_packet_id ack = 7 \<and> fst (pop_blocking q') = PopClosed | _ \<Rightarrow> False))"

definition publish_qos1_produces_puback_with_matching_packet_id :: bool where
  "publish_qos1_produces_puback_with_matching_packet_id \<longleftrightarrow>
     dispatched [Publish \<lparr>pub_topic = ''sensors/temp'', pub_payload = as_bytes ''21C'', pub_qos = 1, pub_retain = False, pub_packet_id = Some 42\<rparr>] (\<lambda>results msgs q.
        results = [True] \<and> (case msgs of [PublishFrom _ p] \<Rightarrow> pub_topic p = ''sensors/temp'' \<and> pub_qos p = 1 | _ \<Rightarrow> False) \<and>
        (case pop_packet q of Some (PubAck ack, q') \<Rightarrow> puback_packet_id ack = 42 \<and> fst (pop_blocking q') = PopClosed | _ \<Rightarrow> False))"

definition publish_qos0_produces_no_puback :: bool where
  "publish_qos0_produces_no_puback \<longleftrightarrow>
     dispatched [Publish \<lparr>pub_topic = ''sensors/temp'', pub_payload = as_bytes ''21C'', pub_qos = 0, pub_retain = False, pub_packet_id = None\<rparr>] (\<lambda>results msgs q.
        results = [True] \<and> msgs \<noteq> [] \<and> fst (pop_blocking q) = PopClosed)"

definition multiple_qos1_publishes_each_get_correctly_matched_puback :: bool where
  "multiple_qos1_publishes_each_get_correctly_matched_puback \<longleftrightarrow>
     dispatched [Publish \<lparr>pub_topic = ''t'', pub_payload = [], pub_qos = 1, pub_retain = False, pub_packet_id = Some 1\<rparr>,
        Publish \<lparr>pub_topic = ''t'', pub_payload = [], pub_qos = 1, pub_retain = False, pub_packet_id = Some 2\<rparr>,
        Publish \<lparr>pub_topic = ''t'', pub_payload = [], pub_qos = 1, pub_retain = False, pub_packet_id = Some 3\<rparr>] (\<lambda>results msgs q.
        pop_times 4 q = [PopItem (Packet (PubAck \<lparr>puback_packet_id = 1\<rparr>)), PopItem (Packet (PubAck \<lparr>puback_packet_id = 2\<rparr>)),
          PopItem (Packet (PubAck \<lparr>puback_packet_id = 3\<rparr>)), PopClosed])"

lemma pop_times_4: "pop_times 4 q = pop_times (Suc (Suc (Suc (Suc 0)))) q"
  by (simp add: eval_nat_numeral)

lemma connection_tests:
  subscribe_single_topic_produces_suback_with_correct_packet_id_and_return_code
  subscribe_multiple_topics_produces_suback_with_one_code_per_topic_in_order
  subscribe_max_packet_id_echoed_in_suback
  unsubscribe_produces_unsuback_with_correct_packet_id
  unsubscribe_multiple_topics_sends_one_unsuback
  publish_qos1_produces_puback_with_matching_packet_id
  publish_qos0_produces_no_puback
  multiple_qos1_publishes_each_get_correctly_matched_puback
  unfolding subscribe_single_topic_produces_suback_with_correct_packet_id_and_return_code_def 
    subscribe_multiple_topics_produces_suback_with_one_code_per_topic_in_order_def 
    subscribe_max_packet_id_echoed_in_suback_def unsubscribe_produces_unsuback_with_correct_packet_id_def 
    unsubscribe_multiple_topics_sends_one_unsuback_def 
    publish_qos1_produces_puback_with_matching_packet_id_def publish_qos0_produces_no_puback_def 
    multiple_qos1_publishes_each_get_correctly_matched_puback_def
  by (simp_all add: dispatched_def dispatch_packet_def broker_send_def chan_send_def channel_new_def push_event_def
      pop_packet_def queue_new_def pop_blocking_def close_queue_def items_pushed pop_times_4 DEFAULT_CLIENT_QUEUE_CAPACITY_def)

end
