(* ===== verification/Broker_Tests.thy ===== *)
theory Broker_Tests
  imports Broker_Scripts Cli
begin

text \<open>
  The unit tests of \<open>src/broker.rs\<close>, run on the model in every interleaving: each definition is the test of
  that name, and each lemma says that it passes. A test that drives the concurrent broker is a script of
  \<open>Broker_Scripts\<close>, with the queues it makes as handles \<open>0\<close> and \<open>1\<close>; one channel with one
  \<open>run_broker\<close> thread is a sharded broker with one shard.
\<close>

section \<open>Packets and assertions\<close>

definition make_publish :: "string \<Rightarrow> string \<Rightarrow> bool \<Rightarrow> publish_packet" where
  "make_publish topic payload retain =
     \<lparr>pub_topic = topic, pub_payload = as_bytes payload, pub_qos = 0, pub_retain = retain, pub_packet_id = None\<rparr>"

definition SendPublish :: "connection_id \<Rightarrow> string \<Rightarrow> string \<Rightarrow> bool \<Rightarrow> test_action" where
  "SendPublish from topic payload retain = Send (PublishFrom from (make_publish topic payload retain))"

text \<open>The packet popped last from a queue.\<close>

definition AssertLast :: "handle \<Rightarrow> (publish_packet \<Rightarrow> bool) \<Rightarrow> test_action" where
  "AssertLast h P = Assert (\<lambda>got. got h \<noteq> [] \<and> P (last (got h)))"

section \<open>One shard\<close>

definition publish_fans_out_to_all_subscribers :: bool where
  "publish_fans_out_to_all_subscribers \<longleftrightarrow> (\<forall>hash. script_passes hash 1 (\<lambda>_. 4)
     [Send (Register 1 ''a'' 0), Send (Register 2 ''b'' 1),
      Send (SubscribeTo 1 ''weather''), Send (SubscribeTo 2 ''weather''),
      SendPublish 1 ''weather'' ''rain'' False,
      Pop 0, Pop 1,
      AssertLast 0 (\<lambda>p. pub_topic p = ''weather'' \<and> pub_payload p = as_bytes ''rain''),
      AssertLast 1 (\<lambda>p. pub_topic p = ''weather'' \<and> pub_payload p = as_bytes ''rain''),
      Join])"

definition disconnect_removes_all_subscriptions :: bool where
  "disconnect_removes_all_subscriptions \<longleftrightarrow> (\<forall>hash. script_passes hash 1 (\<lambda>_. 4)
     [Send (Register 1 ''a'' 0), Send (SubscribeTo 1 ''weather''), Send (DisconnectClient 1),
      SendPublish 99 ''weather'' ''rain'' False,
      Close 0, PopNone 0, Join])"

definition disconnect_removes_subscriptions_across_multiple_topics :: bool where
  "disconnect_removes_subscriptions_across_multiple_topics \<longleftrightarrow> (\<forall>hash. script_passes hash 1 (\<lambda>_. 4)
     ([Send (Register 10 ''multi-sub-client'' 0)] @
      map (\<lambda>topic. Send (SubscribeTo 10 topic)) [''alpha'', ''beta'', ''gamma''] @
      [Send (DisconnectClient 10)] @
      map (\<lambda>topic. SendPublish 99 topic ''should-not-arrive'' False) [''alpha'', ''beta'', ''gamma''] @
      [Join, Close 0, PopNone 0]))"

definition sharded_broker_num_shards_1_behaves_like_single_broker :: bool where
  "sharded_broker_num_shards_1_behaves_like_single_broker \<longleftrightarrow> (\<forall>hash. script_passes hash 1 (\<lambda>_. 4)
     [Send (Register 1 ''a'' 0), Send (Register 2 ''b'' 1),
      Send (SubscribeTo 1 ''news''), Send (SubscribeTo 2 ''news''),
      SendPublish 0 ''news'' ''headline'' False,
      Pop 0, AssertLast 0 (\<lambda>p. pub_topic p = ''news'' \<and> pub_payload p = as_bytes ''headline''),
      Pop 1, AssertLast 1 (\<lambda>p. pub_topic p = ''news'' \<and> pub_payload p = as_bytes ''headline''),
      Send (DisconnectClient 1), SendPublish 0 ''news'' ''late'' False,
      Pop 1, AssertLast 1 (\<lambda>p. pub_payload p = as_bytes ''late''),
      Close 0, PopNone 0])"

section \<open>Wildcards on one shard\<close>

definition wildcard_subscribe_same_shard_delivers :: bool where
  "wildcard_subscribe_same_shard_delivers \<longleftrightarrow> (\<forall>hash. script_passes hash 1 (\<lambda>_. 8)
     [Send (Register 1 ''wc-client'' 0), Send (SubscribeTo 1 ''sensors/+/temp''),
      SendPublish 0 ''sensors/kitchen/temp'' ''21C'' False,
      Join, Close 0,
      Pop 0, AssertLast 0 (\<lambda>p. pub_topic p = ''sensors/kitchen/temp'' \<and> pub_payload p = as_bytes ''21C''),
      PopNone 0])"

definition wildcard_subscribe_non_matching_not_delivered :: bool where
  "wildcard_subscribe_non_matching_not_delivered \<longleftrightarrow> (\<forall>hash. script_passes hash 1 (\<lambda>_. 8)
     [Send (Register 1 ''wc-client'' 0), Send (SubscribeTo 1 ''sensors/+/temp''),
      SendPublish 0 ''sensors/kitchen/humidity'' ''60%'' False,
      Join, Close 0, PopNone 0])"

definition wildcard_unsubscribe_stops_delivery :: bool where
  "wildcard_unsubscribe_stops_delivery \<longleftrightarrow> (\<forall>hash. script_passes hash 1 (\<lambda>_. 8)
     [Send (Register 1 ''wc-client'' 0), Send (SubscribeTo 1 ''sensors/+/temp''),
      Send (UnsubscribeFrom 1 ''sensors/+/temp''),
      SendPublish 0 ''sensors/kitchen/temp'' ''21C'' False,
      Join, Close 0, PopNone 0])"

section \<open>Retained messages on one shard\<close>

definition retain_then_subscribe_delivers_retained_message :: bool where
  "retain_then_subscribe_delivers_retained_message \<longleftrightarrow> (\<forall>hash. script_passes hash 1 (\<lambda>_. 8)
     [SendPublish 0 ''home/temp'' ''21C'' True,
      Send (Register 1 ''late-sub'' 0), Send (SubscribeTo 1 ''home/temp''),
      Join, Close 0,
      Pop 0, AssertLast 0 (\<lambda>p. pub_topic p = ''home/temp'' \<and> pub_payload p = as_bytes ''21C'' \<and> pub_retain p),
      PopNone 0])"

definition retain_overwrite_new_subscriber_gets_only_latest :: bool where
  "retain_overwrite_new_subscriber_gets_only_latest \<longleftrightarrow> (\<forall>hash. script_passes hash 1 (\<lambda>_. 8)
     [SendPublish 0 ''sensors/door'' ''closed'' True, SendPublish 0 ''sensors/door'' ''open'' True,
      Send (Register 1 ''late-sub'' 0), Send (SubscribeTo 1 ''sensors/door''),
      Join, Close 0,
      Pop 0, AssertLast 0 (\<lambda>p. pub_payload p = as_bytes ''open'' \<and> pub_retain p),
      PopNone 0])"

definition retain_empty_payload_clears_stored_message :: bool where
  "retain_empty_payload_clears_stored_message \<longleftrightarrow> (\<forall>hash. script_passes hash 1 (\<lambda>_. 8)
     [SendPublish 0 ''status/light'' ''on'' True, SendPublish 0 ''status/light'' '''' True,
      Send (Register 1 ''late-sub'' 0), Send (SubscribeTo 1 ''status/light''),
      Join, Close 0, PopNone 0])"

definition retain_wildcard_subscribe_receives_retained_message :: bool where
  "retain_wildcard_subscribe_receives_retained_message \<longleftrightarrow> (\<forall>hash. script_passes hash 1 (\<lambda>_. 8)
     [SendPublish 0 ''sensors/living/temp'' ''22C'' True,
      Send (Register 1 ''wildcard-sub'' 0), Send (SubscribeTo 1 ''sensors/+/temp''),
      Join, Close 0,
      Pop 0, AssertLast 0 (\<lambda>p. pub_topic p = ''sensors/living/temp'' \<and> pub_payload p = as_bytes ''22C'' \<and> pub_retain p),
      PopNone 0])"

section \<open>They pass\<close>

text \<open>What a queue with known deliveries can have handed out.\<close>

lemma popped_one: "length xs = Suc 0 \<Longrightarrow> mset xs \<subseteq># {#p#} \<Longrightarrow> xs = [p]"
  by (cases xs) auto

lemma popped_two:
  assumes "length xs = Suc (Suc 0)" and "mset xs \<subseteq># {#p, q#}"
  shows "xs = [p, q] \<or> xs = [q, p]"
proof -
  from assms have "mset xs = mset [p, q]" using mset_subset_size [of "mset xs" "{#p, q#}"]
    by (auto simp: subset_mset.le_less)
  moreover obtain x y where "xs = [x, y]" using assms(1) by (auto simp: length_Suc_conv)
  ultimately show ?thesis by (auto simp: add_eq_conv_ex)
qed

text \<open>The assertion on the last packet, for the first and for the second packet of a queue.\<close>

lemma assert_last_first [simp]:
  assumes "length (due_for h (fc_due F)) = Suc 0" and "fc_popped F h = Suc 0" and "P (hd (due_for h (fc_due F)))"
  shows "forecast_ok cap (AssertLast h P) F"
proof -
  from assms(1) obtain p where "due_for h (fc_due F) = [p]" by (auto simp: length_Suc_conv)
  with assms(2,3) show ?thesis by (auto simp: AssertLast_def dest!: spec [of _ h] popped_one)
qed

lemma assert_last_second [simp]:
  assumes "length (due_for h (fc_due F)) = Suc (Suc 0)" and "fc_popped F h = Suc (Suc 0)"
    and "P (last (due_for h (fc_due F)))" and "\<forall>g. g h = rev (due_for h (fc_due F)) \<longrightarrow> \<not> fc_known F g"
  shows "forecast_ok cap (AssertLast h P) F"
proof -
  from assms(1) obtain p q where pq: "due_for h (fc_due F) = [p, q]" by (auto simp: length_Suc_conv)
  have "g h = [p, q]" if "fc_known F g" "length (g h) = Suc (Suc 0)" "mset (g h) \<subseteq># {#p, q#}" for g
    using popped_two [OF that(2,3)] that(1) assms(4) pq by auto
  then have "g h \<noteq> [] \<and> P (last (g h))"
    if "fc_known F g" "\<forall>h. length (g h) = fc_popped F h \<and> mset (g h) \<subseteq># mset (due_for h (fc_due F))" for g
    using that(1) spec [OF that(2), of h] assms(2,3) pq by fastforce
  then show ?thesis unfolding AssertLast_def by simp
qed

lemma after_assert_last [simp]:
  "forecast_after (AssertLast h P) F = F\<lparr>fc_known := (\<lambda>g. fc_known F g \<and> g h \<noteq> [] \<and> P (last (g h)))\<rparr>"
  by (simp add: AssertLast_def)

lemmas script_eval =
  SendPublish_def make_publish_def forecast_init_def table_init_def forecast_send_def wants_def due_for_def
  fits_def is_wildcard_filter_def topic_matches_filter_spec levels_def as_bytes_def

lemma one_shard_tests:
  publish_fans_out_to_all_subscribers
  disconnect_removes_all_subscriptions
  disconnect_removes_subscriptions_across_multiple_topics
  sharded_broker_num_shards_1_behaves_like_single_broker
  unfolding publish_fans_out_to_all_subscribers_def disconnect_removes_all_subscriptions_def
    disconnect_removes_subscriptions_across_multiple_topics_def sharded_broker_num_shards_1_behaves_like_single_broker_def
  by (intro allI script_ok_passes, simp add: script_eval)+

lemma wildcard_tests:
  wildcard_subscribe_same_shard_delivers
  wildcard_subscribe_non_matching_not_delivered
  wildcard_unsubscribe_stops_delivery
  unfolding wildcard_subscribe_same_shard_delivers_def wildcard_subscribe_non_matching_not_delivered_def
    wildcard_unsubscribe_stops_delivery_def
  by (intro allI script_ok_passes, simp add: script_eval)+

lemma retain_tests:
  retain_then_subscribe_delivers_retained_message
  retain_overwrite_new_subscriber_gets_only_latest
  retain_empty_payload_clears_stored_message
  retain_wildcard_subscribe_receives_retained_message
  unfolding retain_then_subscribe_delivers_retained_message_def retain_overwrite_new_subscriber_gets_only_latest_def
    retain_empty_payload_clears_stored_message_def retain_wildcard_subscribe_receives_retained_message_def
  by (intro allI script_ok_passes, simp add: script_eval)+

section \<open>Topics on different shards\<close>

text \<open>The searches of the tests, which end only if the hash function hits another shard.\<close>

partial_function (option) find_cross_topic :: "(string \<Rightarrow> u64) \<Rightarrow> nat \<Rightarrow> nat \<Rightarrow> nat \<Rightarrow> string option" where
  "find_cross_topic hash n wildcard_shard i =
     (let t = ''sensors/'' @ dec_string i @ ''/temp''
      in if shard_for_topic hash t n \<noteq> wildcard_shard then Some t
         else find_cross_topic hash n wildcard_shard (Suc i))"

partial_function (option) find_topics ::
    "(string \<Rightarrow> u64) \<Rightarrow> nat \<Rightarrow> nat \<Rightarrow> string option \<Rightarrow> string option \<Rightarrow> (string \<times> string) option" where
  "find_topics hash n i r0 r1 =
     (let topic = ''t/'' @ dec_string i;
          s = shard_for_topic hash topic n;
          (r0', r1') = (if s = 0 \<and> r0 = None then (Some topic, r1)
                        else if s = 1 \<and> r1 = None then (r0, Some topic) else (r0, r1))
      in case (r0', r1') of
           (Some a, Some b) \<Rightarrow> Some (a, b)
         | _ \<Rightarrow> find_topics hash n (Suc i) r0' r1')"

definition find_two_topics_on_different_shards :: "(string \<Rightarrow> u64) \<Rightarrow> nat \<Rightarrow> (string \<times> string) option" where
  "find_two_topics_on_different_shards hash n = (if n \<ge> 2 then find_topics hash n 0 None None else None)"

lemma find_cross_topic_Some:
  assumes "find_cross_topic hash n w i = Some t"
  shows "shard_for_topic hash t n \<noteq> w \<and> (\<exists>k. t = ''sensors/'' @ dec_string k @ ''/temp'')"
proof (rule find_cross_topic.raw_induct
    [where P = "\<lambda>hash n w i t. shard_for_topic hash t n \<noteq> w \<and> (\<exists>k. t = ''sensors/'' @ dec_string k @ ''/temp'')", OF _ assms],
    goal_cases)
  case (1 find hash n w i t)
  show ?case
  proof (cases "shard_for_topic hash (''sensors/'' @ dec_string i @ ''/temp'') n = w")
    case True
    with 1 show ?thesis unfolding Let_def by presburger
  next
    case False
    with 1(2) have "t = ''sensors/'' @ dec_string i @ ''/temp''" unfolding Let_def by (metis option.inject)
    with False show ?thesis by blast
  qed
qed

definition short_topic_on :: "(string \<Rightarrow> u64) \<Rightarrow> nat \<Rightarrow> nat \<Rightarrow> string \<Rightarrow> bool" where
  "short_topic_on hash n s t \<longleftrightarrow> shard_for_topic hash t n = s \<and> (\<exists>k. t = ''t/'' @ dec_string k)"

lemma find_topics_Some:
  assumes "find_topics hash n i r0 r1 = Some ab"
    and "\<forall>t. r0 = Some t \<longrightarrow> short_topic_on hash n 0 t" and "\<forall>t. r1 = Some t \<longrightarrow> short_topic_on hash n 1 t"
  shows "short_topic_on hash n 0 (fst ab) \<and> short_topic_on hash n 1 (snd ab)"
proof -
  let ?P = "\<lambda>hash n i r0 r1 ab. (\<forall>t. r0 = Some t \<longrightarrow> short_topic_on hash n 0 t) \<longrightarrow>
    (\<forall>t. r1 = Some t \<longrightarrow> short_topic_on hash n 1 t) \<longrightarrow>
    short_topic_on hash n 0 (fst ab) \<and> short_topic_on hash n 1 (snd ab)"
  have "?P hash n i r0 r1 ab"
  proof (rule find_topics.raw_induct [where P = ?P, OF _ assms(1)], goal_cases)
    case (1 find hash n i r0 r1 ab)
    let ?t = "''t/'' @ dec_string i"
    have t: "shard_for_topic hash ?t n = s \<Longrightarrow> short_topic_on hash n s ?t" for s
      unfolding short_topic_on_def by blast
    from 1 t [of 0] t [of 1] show ?case
      by (auto simp: Let_def split: if_splits option.splits prod.splits)
  qed
  with assms(2,3) show ?thesis by blast
qed

text \<open>Both searches succeed for a hash that tells topics apart, so the tests below are about something.\<close>

lemma searches_succeed:
  "find_cross_topic (\<lambda>t. if t = ''sensors/+/temp'' then 0 else 1) 4 0 0 = Some ''sensors/0/temp''"
  "find_two_topics_on_different_shards (\<lambda>t. if t = ''t/0'' then 0 else 1) 4 = Some (''t/0'', ''t/1'')"
proof -
  have d: "dec_string 0 = ''0''" "dec_string (Suc 0) = ''1''" by (simp_all add: dec_string.simps digit_char_def char_of_def bit_simps)
  show "find_cross_topic (\<lambda>t. if t = ''sensors/+/temp'' then 0 else 1) 4 0 0 = Some ''sensors/0/temp''"
    by (subst find_cross_topic.simps) (simp add: d shard_for_topic_def)
  show "find_two_topics_on_different_shards (\<lambda>t. if t = ''t/0'' then 0 else 1) 4 = Some (''t/0'', ''t/1'')"
    unfolding find_two_topics_on_different_shards_def
    by (simp, subst find_topics.simps, simp add: d shard_for_topic_def, subst find_topics.simps, simp add: d shard_for_topic_def)
qed

section \<open>Several shards\<close>

definition wildcard_cross_shard_delivers :: bool where
  "wildcard_cross_shard_delivers \<longleftrightarrow>
     (\<forall>hash t. let wildcard_shard = shard_for_topic hash ''sensors/+/temp'' 4 in
       find_cross_topic hash 4 wildcard_shard 0 = Some t \<longrightarrow>
       shard_for_topic hash t 4 \<noteq> wildcard_shard \<and> topic_matches_filter t ''sensors/+/temp'' \<and>
       script_passes hash 4 (\<lambda>_. 8)
         [Send (Register 99 ''xshard-wc-client'' 0), Send (SubscribeTo 99 ''sensors/+/temp''),
          SendPublish 0 t ''cross-shard'' False,
          Pop 0, AssertLast 0 (\<lambda>p. pub_topic p = t \<and> pub_payload p = as_bytes ''cross-shard''),
          Close 0, PopNone 0])"

definition wildcard_cross_shard_unsubscribe_stops_delivery :: bool where
  "wildcard_cross_shard_unsubscribe_stops_delivery \<longleftrightarrow>
     (\<forall>hash t. find_cross_topic hash 4 (shard_for_topic hash ''sensors/+/temp'' 4) 0 = Some t \<longrightarrow>
       script_passes hash 4 (\<lambda>_. 8)
         [Send (Register 98 ''xshard-unsub-client'' 0), Send (SubscribeTo 98 ''sensors/+/temp''),
          Send (UnsubscribeFrom 98 ''sensors/+/temp''),
          SendPublish 0 t ''should-not-arrive'' False,
          Close 0, PopNone 0])"

definition retain_cross_shard_wildcard_subscribe_receives_retained_message :: bool where
  "retain_cross_shard_wildcard_subscribe_receives_retained_message \<longleftrightarrow>
     (\<forall>hash t. let wildcard_shard = shard_for_topic hash ''sensors/+/temp'' 4 in
       find_cross_topic hash 4 wildcard_shard 0 = Some t \<longrightarrow>
       shard_for_topic hash t 4 \<noteq> wildcard_shard \<and>
       script_passes hash 4 (\<lambda>h. if h = 0 then 4 else 8)
         [Send (Register 51 ''fence'' 0), Send (SubscribeTo 51 t),
          SendPublish 0 t ''99C'' True,
          Pop 0, AssertLast 0 (\<lambda>p. pub_topic p = t),
          Send (Register 50 ''xshard-retain-sub'' 1), Send (SubscribeTo 50 ''sensors/+/temp''),
          Pop 1, AssertLast 1 (\<lambda>p. pub_topic p = t \<and> pub_payload p = as_bytes ''99C'' \<and> pub_retain p),
          Close 1, PopNone 1])"

definition cross_shard_client_receives_from_both_shards :: bool where
  "cross_shard_client_receives_from_both_shards \<longleftrightarrow>
     (\<forall>hash a b. find_two_topics_on_different_shards hash 4 = Some (a, b) \<longrightarrow>
       shard_for_topic hash a 4 \<noteq> shard_for_topic hash b 4 \<and>
       script_passes hash 4 (\<lambda>_. 16)
         [Send (Register 77 ''cross-shard-client'' 0), Send (SubscribeTo 77 a), Send (SubscribeTo 77 b),
          SendPublish 0 a ''from-shard-a'' False, SendPublish 0 b ''from-shard-b'' False,
          Pop 0, Pop 0,
          Assert (\<lambda>got. list_all (\<lambda>p. if pub_topic p = a then pub_payload p = as_bytes ''from-shard-a''
              else pub_topic p = b \<and> pub_payload p = as_bytes ''from-shard-b'') (got 0)),
          Assert (\<lambda>got. list_ex (\<lambda>p. pub_topic p = a) (got 0) \<and> list_ex (\<lambda>p. pub_topic p = b) (got 0)),
          Close 0, PopNone 0])"

text \<open>Two shards driven over channels of their own; the second one can only push to queues it was told of.\<close>

definition shard_isolation_publish_only_reaches_subscribed_shard :: bool where
  "shard_isolation_publish_only_reaches_subscribed_shard \<longleftrightarrow>
     (\<forall>hash a b s0. find_two_topics_on_different_shards hash 2 = Some (a, b) \<and>
       run_broker [Register 50 ''isolated'' 0, SubscribeTo 50 a, PublishFrom 0 (make_publish a ''for-client'' False)]
         (shard_new, \<lambda>_. queue_new 8) s0 \<longrightarrow>
       (case pop_blocking (snd s0 0) of
          (PopItem (Packet (Publish p)), q) \<Rightarrow> pub_topic p = a \<and>
            (\<forall>s1. run_broker [PublishFrom 0 (make_publish b ''wrong-shard'' False)] (shard_new, (snd s0)(0 := q)) s1 \<longrightarrow>
               fst (pop_blocking (close_queue (snd s1 0))) = PopClosed)
        | _ \<Rightarrow> False))"

lemma levels_Cons: "CHR ''/'' \<notin> set xs \<Longrightarrow> levels (xs @ CHR ''/'' # ys) = xs # levels ys"
  unfolding levels_def by (induction xs) (auto split: list.split)

lemma dec_string_plain: "x \<in> set (dec_string k) \<Longrightarrow> x \<noteq> CHR ''/'' \<and> x \<noteq> CHR ''+'' \<and> x \<noteq> CHR ''#''"
  using dec_string_digits [of k] by (auto simp: list_all_iff is_digit_def)

lemma sensor_topic:
  assumes "t = ''sensors/'' @ dec_string k @ ''/temp''"
  shows "topic_matches_filter t ''sensors/+/temp''" and "\<not> is_wildcard_filter t"
proof -
  have "levels t = ''sensors'' # dec_string k # levels ''temp''"
    using levels_Cons [of "''sensors''" "dec_string k @ ''/temp''"] levels_Cons [of "dec_string k" "''temp''"]
      dec_string_plain [of "CHR ''/''" k] by (auto simp: assms)
  then show "topic_matches_filter t ''sensors/+/temp''"
    by (simp add: topic_matches_filter_spec) (simp add: levels_def)
  show "\<not> is_wildcard_filter t" using dec_string_plain by (auto simp: assms is_wildcard_filter_def)
qed

lemmas plain_eval =
  SendPublish_def make_publish_def forecast_init_def table_init_def forecast_send_def wants_def due_for_def fits_def

text \<open>The only facts about the topics found that the scripts need.\<close>

lemma cross_topic:
  assumes "find_cross_topic hash n w i = Some t"
  shows "shard_for_topic hash t n \<noteq> w" "topic_matches_filter t ''sensors/+/temp''" "topic_matches_filter t t"
    "\<not> is_wildcard_filter t"
  using find_cross_topic_Some [OF assms] sensor_topic topic_matches_refl by blast+

lemma two_topics:
  assumes "find_two_topics_on_different_shards hash n = Some (a, b)"
  shows "shard_for_topic hash a n \<noteq> shard_for_topic hash b n" "\<not> is_wildcard_filter a" "\<not> is_wildcard_filter b" "a \<noteq> b"
proof -
  from assms find_topics_Some [of hash n 0 None None "(a, b)"]
  have ab: "short_topic_on hash n 0 a" "short_topic_on hash n 1 b"
    by (simp_all add: find_two_topics_on_different_shards_def split: if_splits)
  have "\<not> is_wildcard_filter (''t/'' @ dec_string k)" for k
    using dec_string_plain by (auto simp: is_wildcard_filter_def)
  with ab show "\<not> is_wildcard_filter a" "\<not> is_wildcard_filter b" by (auto simp: short_topic_on_def simp del: append.simps)
  from ab show "shard_for_topic hash a n \<noteq> shard_for_topic hash b n" by (auto simp: short_topic_on_def)
  then show "a \<noteq> b" by blast
qed

lemma wildcard_cross_shard_tests:
  wildcard_cross_shard_delivers
  wildcard_cross_shard_unsubscribe_stops_delivery
  retain_cross_shard_wildcard_subscribe_receives_retained_message
proof -
  let ?w = "\<lambda>hash. shard_for_topic hash ''sensors/+/temp'' 4"
  have "find_cross_topic hash 4 (?w hash) 0 = Some t \<longrightarrow>
      shard_for_topic hash t 4 \<noteq> ?w hash \<and> topic_matches_filter t ''sensors/+/temp'' \<and>
      topic_matches_filter t t \<and> \<not> is_wildcard_filter t" for hash t
    using cross_topic by blast
  note t = this [rule_format]
  show wildcard_cross_shard_delivers unfolding wildcard_cross_shard_delivers_def Let_def
    by (intro allI impI, drule t, simp add: script_ok_passes plain_eval)
  show wildcard_cross_shard_unsubscribe_stops_delivery unfolding wildcard_cross_shard_unsubscribe_stops_delivery_def
    by (intro allI impI, drule t, simp add: script_ok_passes plain_eval)
  show retain_cross_shard_wildcard_subscribe_receives_retained_message
    unfolding retain_cross_shard_wildcard_subscribe_receives_retained_message_def Let_def
    by (intro allI impI, drule t, simp add: script_ok_passes plain_eval)
qed

lemma cross_shard_test: cross_shard_client_receives_from_both_shards
  unfolding cross_shard_client_receives_from_both_shards_def
proof (intro allI impI conjI script_ok_passes)
  fix hash a b
  assume "find_two_topics_on_different_shards hash 4 = Some (a, b)"
  note ab = two_topics [OF this]
  show "shard_for_topic hash a 4 \<noteq> shard_for_topic hash b 4" by (rule ab)
  show "script_ok (\<lambda>_. 16)
         [Send (Register 77 ''cross-shard-client'' 0), Send (SubscribeTo 77 a), Send (SubscribeTo 77 b),
          SendPublish 0 a ''from-shard-a'' False, SendPublish 0 b ''from-shard-b'' False,
          Pop 0, Pop 0,
          Assert (\<lambda>got. list_all (\<lambda>p. if pub_topic p = a then pub_payload p = as_bytes ''from-shard-a''
              else pub_topic p = b \<and> pub_payload p = as_bytes ''from-shard-b'') (got 0)),
          Assert (\<lambda>got. list_ex (\<lambda>p. pub_topic p = a) (got 0) \<and> list_ex (\<lambda>p. pub_topic p = b) (got 0)),
          Close 0, PopNone 0] forecast_init"
    using ab by (simp add: plain_eval topic_matches_exact) (auto dest!: spec [of _ 0] popped_two)
qed

lemma isolation_test: shard_isolation_publish_only_reaches_subscribed_shard
  unfolding shard_isolation_publish_only_reaches_subscribed_shard_def
proof (intro allI impI, elim conjE)
  fix hash a b s0
  let ?p = "make_publish a ''for-client'' False" and ?w = "make_publish b ''wrong-shard'' False"
  assume "find_two_topics_on_different_shards hash 2 = Some (a, b)"
    and run: "run_broker [Register 50 ''isolated'' 0, SubscribeTo 50 a, PublishFrom 0 ?p] (shard_new, \<lambda>_. queue_new 8) s0"
  note ab = two_topics [OF this(1)]
  have "reference_deliveries [Register 50 ''isolated'' 0, SubscribeTo 50 a, PublishFrom 0 ?p] table_init = [(0, ?p)]"
    using topic_matches_refl [OF ab(2)] by (simp add: table_init_def wants_def make_publish_def)
  moreover have "message_ok (PublishFrom 0 ?p)" using ab(2) by (simp add: make_publish_def)
  ultimately obtain ds where ds: "snd s0 = apply_log ds (\<lambda>_. queue_new 8)" "mset ds = mset [(0, ?p)]"
    using run_broker_deliveries [OF run] by fastforce
  from ds(2) have "ds = [(0, ?p)]" by simp
  with ds(1) have "snd s0 = apply_log [(0, ?p)] (\<lambda>_. queue_new 8)" by simp
  then have "items (snd s0 0) = [Packet (Publish ?p)]"
    by (simp add: apply_log_def push_event_def items_pushed queue_new_def)
  moreover have "snd s1 = st"
    if "run_broker [PublishFrom 0 ?w] (shard_new, st) s1" for st s1
  proof -
    have "reference_deliveries [PublishFrom 0 ?w] table_init = []" by (simp add: table_init_def)
    with run_broker_deliveries [OF that] ab(3) show ?thesis by (auto simp: make_publish_def table_init_def)
  qed
  ultimately show "case pop_blocking (snd s0 0) of
      (PopItem (Packet (Publish p)), q) \<Rightarrow> pub_topic p = a \<and>
        (\<forall>s1. run_broker [PublishFrom 0 ?w] (shard_new, (snd s0)(0 := q)) s1 \<longrightarrow>
           fst (pop_blocking (close_queue (snd s1 0))) = PopClosed)
    | _ \<Rightarrow> False"
    by (auto simp: pop_blocking_def close_queue_def make_publish_def)
qed

section \<open>The stress test\<close>

text \<open>The loop that counts what a closed queue still holds.\<close>

function count_items :: "'a queue \<Rightarrow> nat" where
  "count_items q = (case pop_blocking q of (PopItem x, q') \<Rightarrow> Suc (count_items q') | _ \<Rightarrow> 0)"
  by pat_completeness auto
termination
  by (relation "measure (\<lambda>q. length (items q))") (auto simp: pop_blocking_def split: list.splits if_splits)

declare count_items.simps [simp del]

definition stress_topic :: "nat \<Rightarrow> string" where
  "stress_topic t = ''stress/t'' @ dec_string t"

definition stress_packets :: "publish_packet list" where
  "stress_packets = concat (map (\<lambda>t. map (\<lambda>n. make_publish (stress_topic t) (''t'' @ dec_string t @ '':'' @ dec_string n) False)
     [0..<50]) [0..<5])"

definition stress_scenario_a :: "broker_message list" where
  "stress_scenario_a =
     map (\<lambda>i. Register (of_nat (i + 100)) (''stress-client-'' @ dec_string i) i) [0..<20] @
     map (\<lambda>i. SubscribeTo (of_nat (i + 100)) (stress_topic (i mod 5))) [0..<20] @
     map (PublishFrom 0) stress_packets"

definition stress_scenario_b :: "broker_message list" where
  "stress_scenario_b =
     [Register 200 ''stress-overflow'' 0, SubscribeTo 200 ''stress/overflow''] @
     map (\<lambda>n. PublishFrom 0 (make_publish ''stress/overflow'' (''msg:'' @ dec_string n) False))
       [0..<DEFAULT_CLIENT_QUEUE_CAPACITY + 20]"

definition stress_no_data_loss_beyond_drop_oldest :: bool where
  "stress_no_data_loss_beyond_drop_oldest \<longleftrightarrow>
     (\<forall>s. run_broker stress_scenario_a (shard_new, \<lambda>_. queue_new DEFAULT_CLIENT_QUEUE_CAPACITY) s \<longrightarrow>
        (\<forall>i < 20. count_items (close_queue (snd s i)) = 50)) \<and>
     (\<forall>s. run_broker stress_scenario_b (shard_new, \<lambda>_. queue_new DEFAULT_CLIENT_QUEUE_CAPACITY) s \<longrightarrow>
        count_items (close_queue (snd s 0)) = DEFAULT_CLIENT_QUEUE_CAPACITY)"

lemma count_items: "count_items q = length (items q)"
  by (induction q rule: count_items.induct)
    (subst count_items.simps, auto simp: pop_blocking_def split: list.split if_splits)

text \<open>How much a queue holds after a run depends on the number of deliveries to it only.\<close>

lemma run_broker_count:
  assumes "run_broker ms (shard_new, \<lambda>_. queue_new cap) s" and "\<forall>m \<in> set ms. message_ok m" and "0 < cap"
  shows "count_items (close_queue (snd s h)) = min cap (length (due_for h (reference_deliveries ms table_init)))"
proof -
  from run_broker_deliveries [OF assms(1,2)] obtain ds where ds: "snd s = apply_log ds (\<lambda>_. queue_new cap)"
    "mset ds = mset (reference_deliveries ms table_init)" by blast
  have "length (due_for h ds) = length (due_for h (reference_deliveries ms table_init))"
    using arg_cong [OF ds(2), of "\<lambda>M. size (filter_mset (\<lambda>d. fst d = h) M)"] by (simp add: due_for_def flip: mset_filter)
  moreover have "items (snd s h) = last_n cap (map (\<lambda>d. Packet (Publish (snd d))) (filter (\<lambda>d. fst d = h) ds))"
    using outq.contents_foldl_enq [OF queue_wf_new, of cap] assms(3)
    by (simp add: ds(1) apply_log_queue queue_bound_def) (simp add: queue_new_def)
  ultimately show ?thesis by (simp add: count_items close_queue_def due_for_def)
qed

lemma table_run_registers:
  "distinct (map fst (tb_clients T) @ map f xs) \<Longrightarrow>
   table_run (map (\<lambda>i. Register (f i) (c i) (h i)) xs) T =
     T\<lparr>tb_clients := tb_clients T @ map (\<lambda>i. (f i, \<lparr>cs_client_id = c i, cs_outbound = h i\<rparr>)) xs\<rparr>"
proof (induction xs arbitrary: T)
  case (Cons x xs)
  then have "filter (\<lambda>e. fst e \<noteq> f x) (tb_clients T) = tb_clients T" by (force simp: filter_id_conv)
  with Cons show ?case by simp
qed simp

lemma table_run_subscribes:
  "table_run (map (\<lambda>i. SubscribeTo (f i) (t i)) xs) T = T\<lparr>tb_subs := tb_subs T @ map (\<lambda>i. (f i, t i)) xs\<rparr>"
  by (induction xs arbitrary: T) simp_all

lemma no_early_deliveries:
  "reference_deliveries (map (\<lambda>i. Register (f i) (c i) (h i)) xs) T = []"
  "tb_retained T = [] \<Longrightarrow> reference_deliveries (map (\<lambda>i. SubscribeTo (f i) (t i)) xs) T = []"
  by (induction xs arbitrary: T) (simp_all split: option.split)

lemma deliveries_of_publishes:
  "\<forall>p \<in> set ps. \<not> pub_retain p \<Longrightarrow>
   reference_deliveries (map (PublishFrom 0) ps) T = concat (map (\<lambda>p. table_log (PublishFrom 0 p) T) ps)"
  by (induction ps arbitrary: T) auto

lemma length_due_concat: "length (due_for h (concat dss)) = sum_list (map (\<lambda>ds. length (due_for h ds)) dss)"
  by (induction dss) (simp_all add: due_for_def)

definition stress_table :: table where
  "stress_table =
     \<lparr>tb_clients = map (\<lambda>i. (of_nat (i + 100), \<lparr>cs_client_id = ''stress-client-'' @ dec_string i, cs_outbound = i\<rparr>)) [0..<20],
      tb_subs = map (\<lambda>i. (of_nat (i + 100), stress_topic (i mod 5))) [0..<20], tb_retained = []\<rparr>"

lemma stress_ids: "i < 20 \<Longrightarrow> j < 20 \<Longrightarrow> (of_nat (i + 100) :: u64) = of_nat (j + 100) \<longleftrightarrow> i = j"
proof -
  assume "i < 20" "j < 20"
  then have "unat (of_nat (i + 100) :: u64) = i + 100" "unat (of_nat (j + 100) :: u64) = j + 100"
    by (simp_all add: unat_of_nat del: of_nat_add)
  then show ?thesis by (metis add_right_cancel)
qed

lemma stress_topics: "\<not> is_wildcard_filter (stress_topic t)" "stress_topic t = stress_topic u \<longleftrightarrow> t = u"
proof -
  show "\<not> is_wildcard_filter (stress_topic t)"
    using dec_string_plain by (auto simp: stress_topic_def is_wildcard_filter_def)
  show "stress_topic t = stress_topic u \<longleftrightarrow> t = u"
    unfolding stress_topic_def by (metis digits_value_dec_string same_append_eq)
qed

lemma stress_wants:
  assumes "i < 20"
  shows "wants stress_table (stress_topic t) (of_nat (i + 100)) \<longleftrightarrow> t = i mod 5"
  using assms stress_ids
  by (force simp: wants_def stress_table_def list_ex_iff topic_matches_exact [OF stress_topics(1)] stress_topics(2)
      simp del: of_nat_add)

lemma length_filter_one:
  "distinct xs \<Longrightarrow> length (filter (\<lambda>x. P x \<and> x = i) xs) = (if i \<in> set xs \<and> P i then 1 else 0)"
  by (induction xs) auto

lemma stress_log:
  assumes "i < 20" and "pub_topic p = stress_topic t"
  shows "length (due_for i (table_log (PublishFrom 0 p) stress_table)) = (if t = i mod 5 then 1 else 0)"
proof -
  let ?c = "\<lambda>i. (of_nat (i + 100) :: u64, \<lparr>cs_client_id = ''stress-client-'' @ dec_string i, cs_outbound = i\<rparr>)"
  have "filter (\<lambda>i. wants stress_table (pub_topic p) (fst (?c i))) [0..<20] = filter (\<lambda>i. t = i mod 5) [0..<20]"
    using stress_wants [of _ t] by (intro filter_cong) (simp_all add: assms(2))
  moreover have "tb_clients stress_table = map ?c [0..<20]" by (simp only: stress_table_def table.simps)
  ultimately have "filter (\<lambda>c. wants stress_table (pub_topic p) (fst c)) (tb_clients stress_table) =
      map ?c (filter (\<lambda>i. t = i mod 5) [0..<20])"
    by (simp only: filter_map o_def)
  then show ?thesis
    using length_filter_one [of "[0..<20]" "\<lambda>j. t = j mod 5" i] assms(1)
    by (simp add: due_for_def filter_map o_def conj_commute del: of_nat_add)
qed

lemma sum_list_map_concat: "sum_list (map f (concat xss)) = sum_list (map (\<lambda>xs. sum_list (map f xs)) xss)"
  by (induction xss) simp_all

lemma stress_deliveries_a:
  assumes i: "i < (20 :: nat)"
  shows "length (due_for i (reference_deliveries stress_scenario_a table_init)) = 50"
proof -
  have ids: "distinct (map (\<lambda>i. of_nat (i + 100) :: u64) [0..<20])"
    using stress_ids by (simp add: distinct_map inj_on_def del: of_nat_add)
  let ?reg = "map (\<lambda>i. Register (of_nat (i + 100)) (''stress-client-'' @ dec_string i) i) [0..<20]"
    and ?sub = "map (\<lambda>i. SubscribeTo (of_nat (i + 100)) (stress_topic (i mod 5))) [0..<20]"
  have T: "table_run ?sub (table_run ?reg table_init) = stress_table"
    using ids by (simp add: table_run_registers table_run_subscribes table_init_def stress_table_def del: of_nat_add)
  have "tb_retained (table_run ?reg table_init) = []"
    using ids by (simp add: table_run_registers table_init_def del: of_nat_add)
  then have "reference_deliveries stress_scenario_a table_init = reference_deliveries (map (PublishFrom 0) stress_packets) stress_table"
    unfolding stress_scenario_a_def reference_deliveries_append table_run_append T
    by (simp add: no_early_deliveries del: of_nat_add)
  also have "\<dots> = concat (map (\<lambda>p. table_log (PublishFrom 0 p) stress_table) stress_packets)"
    by (rule deliveries_of_publishes) (auto simp: stress_packets_def make_publish_def)
  finally have "length (due_for i (reference_deliveries stress_scenario_a table_init)) =
      sum_list (map (\<lambda>p. length (due_for i (table_log (PublishFrom 0 p) stress_table))) stress_packets)"
    by (simp add: length_due_concat o_def)
  also have "\<dots> = (\<Sum>t \<leftarrow> [0..<5]. 50 * (if t = i mod 5 then 1 else 0))"
    using i by (simp add: stress_packets_def sum_list_map_concat o_def stress_log make_publish_def sum_list_triv
        del: upt_Suc table_log.simps cong: map_cong)
  also have "\<dots> = 50"
  proof -
    have "i mod 5 = 0 \<or> i mod 5 = 1 \<or> i mod 5 = 2 \<or> i mod 5 = 3 \<or> i mod 5 = 4" by presburger
    then show ?thesis by (auto simp: upt_rec)
  qed
  finally show ?thesis .
qed

lemma stress_deliveries_b:
  "length (due_for 0 (reference_deliveries stress_scenario_b table_init)) = DEFAULT_CLIENT_QUEUE_CAPACITY + 20"
proof -
  let ?T = "\<lparr>tb_clients = [(200, \<lparr>cs_client_id = ''stress-overflow'', cs_outbound = 0\<rparr>)],
    tb_subs = [(200, ''stress/overflow'')], tb_retained = []\<rparr>"
  have m: "topic_matches_filter ''stress/overflow'' ''stress/overflow''" by (simp add: topic_matches_refl is_wildcard_filter_def)
  let ?p = "\<lambda>n. make_publish ''stress/overflow'' (''msg:'' @ dec_string n) False"
  have "reference_deliveries stress_scenario_b table_init =
      reference_deliveries (map (PublishFrom 0) (map ?p [0..<DEFAULT_CLIENT_QUEUE_CAPACITY + 20])) ?T"
    by (simp add: stress_scenario_b_def table_init_def o_def del: upt_Suc)
  also have "\<dots> = concat (map (\<lambda>p. table_log (PublishFrom 0 p) ?T) (map ?p [0..<DEFAULT_CLIENT_QUEUE_CAPACITY + 20]))"
    by (rule deliveries_of_publishes) (auto simp: make_publish_def)
  also have "length (due_for 0 \<dots>) = DEFAULT_CLIENT_QUEUE_CAPACITY + 20"
    unfolding length_due_concat
    by (simp add: o_def due_for_def wants_def make_publish_def m sum_list_triv del: upt_Suc)
  finally show ?thesis .
qed

lemma stress_test: stress_no_data_loss_beyond_drop_oldest
  unfolding stress_no_data_loss_beyond_drop_oldest_def
proof (intro conjI allI impI)
  fix s i
  assume run: "run_broker stress_scenario_a (shard_new, \<lambda>_. queue_new DEFAULT_CLIENT_QUEUE_CAPACITY) s" and i: "i < (20 :: nat)"
  have "\<forall>m \<in> set stress_scenario_a. message_ok m"
    using stress_topics(1) by (auto simp: stress_scenario_a_def stress_packets_def make_publish_def)
  from run_broker_count [OF run this, of i] stress_deliveries_a [OF i] show "count_items (close_queue (snd s i)) = 50"
    by (simp add: DEFAULT_CLIENT_QUEUE_CAPACITY_def)
next
  fix s
  assume "run_broker stress_scenario_b (shard_new, \<lambda>_. queue_new DEFAULT_CLIENT_QUEUE_CAPACITY) s"
  then show "count_items (close_queue (snd s 0)) = DEFAULT_CLIENT_QUEUE_CAPACITY"
    using run_broker_count [of stress_scenario_b DEFAULT_CLIENT_QUEUE_CAPACITY s 0] stress_deliveries_b
    by (auto simp: DEFAULT_CLIENT_QUEUE_CAPACITY_def stress_scenario_b_def make_publish_def is_wildcard_filter_def)
qed

end
