(* ===== verification/Spec2Isabelle.thy ===== *)
theory Spec2Isabelle
  imports Errors Remaining_Length Topic_Filter Packets Decode Codec Outbound_Queue Queue_Threads
    Broker_Shard Registry_Spec Sharding Cluster Connection Client_Wire Client Cli Server Drain Step_Systems
    Logging Broker_Main Bench_Wire Bench_Run Bench_Setup Deliveries
    Reference_Broker Broker_Scripts Protocol_Tests Client_Tests Connection_Tests Broker_Tests
begin

text \<open>
  BlitzBroker is an MQTT 3.1.1 publish/subscribe broker in Rust without dependencies, with a command-line
  client and a benchmark. This development models its code and proves what makes it correct.

  \<^bold>\<open>The program.\<close> \<open>src/main.rs\<close> parses the command line, starts a number of broker shards and accepts
  connections. Each connection (\<open>src/connection.rs\<close>) has a reader, which decodes packets
  (\<open>src/protocol.rs\<close>) from the bytes of the socket, sends messages to the shards and queues
  acknowledgements, and a writer, which encodes what is queued. A shard (\<open>run_broker\<close> of
  \<open>src/broker.rs\<close>) is a thread that owns the clients, the subscriptions and the retained messages of its
  topics; \<open>ShardedBroker\<close> routes a message to the shard that owns its topic or to all. Shards push to the
  connections' queues (\<open>src/queue.rs\<close>), which are bounded and drop the oldest item.
  \<open>src/bin/blitzclient.rs\<close> and \<open>src/bin/shard_benchmark.rs\<close> are clients with wire formats of their own.

  \<^bold>\<open>The theories and the code they model.\<close>
  \<^item> \<open>Prelude\<close>: bytes and machine words; the outcome \<open>Ok\<close>, \<open>Err\<close> or \<open>Panic\<close> of a computation;
    indexing, slicing and \<open>u32\<close> arithmetic that panic where Rust's do; UTF-8; splitting; the iteration
    order of a hash map.
  \<^item> \<open>Errors\<close> (\<open>error.rs\<close>): the error enums and their texts.
  \<^item> \<open>Remaining_Length\<close> (\<open>protocol.rs\<close>): the variable-length field. The locale \<open>length_codec\<close> is its
    contract; the broker's codec and, in \<open>Client_Wire\<close>, the client's are interpretations of it. Both equal
    a reference codec over the naturals.
  \<^item> \<open>Topic_Filter\<close> (\<open>protocol.rs\<close>, \<open>is_wildcard_filter\<close> of \<open>broker.rs\<close>): validation and matching of topic
    filters and their meaning level by level.
  \<^item> \<open>Packets\<close>, \<open>Decode\<close>, \<open>Codec\<close> (\<open>protocol.rs\<close>): packets and encoders; decoders; absence of panics,
    well-formedness of decoded packets, incremental decoding, round trip.
  \<^item> \<open>Outbound_Queue\<close> (\<open>queue.rs\<close>): each operation as it is under its lock, with the contract
    \<open>bounded_queue\<close>. \<open>Queue_Threads\<close>: the same code one lock operation at a time, as a step relation over
    interleaved threads with the condition variable, spurious wake-ups included.
  \<^item> \<open>Broker_Shard\<close> (\<open>run_broker\<close>): the maps of a shard, a handler per message, the loop as a relation over
    the messages received, with any iteration order of the hash maps; the contract
    \<open>subscription_registry\<close> of the subscription map; who gets a publish and what a subscription replays.
  \<^item> \<open>Registry_Spec\<close>: the abstract broker, the refinement of one shard to it, and the part of it that one
    shard owns.
  \<^item> \<open>Sharding\<close> (\<open>ShardedBroker\<close>): channels, routing, broadcasting, spawning; the contract
    \<open>message_sink\<close> of a broker handle, kept by a plain channel and by the sharded broker.
    \<open>Cluster\<close>: the shards running concurrently on shared queues, and their simulation of the abstract
    broker. \<open>Deliveries\<close>: the deliveries of whole runs, counted shard by shard, against those of the
    abstract broker.
  \<^item> \<open>Connection\<close> (\<open>connection.rs\<close>): reader, dispatch, writer, handler. The locale \<open>broker_handle\<close> extends
    \<open>message_sink\<close> with what a connection sends through it. \<open>Server\<close>: connections, shards and writers
    together as a step relation, in which a reader performs one action at a time.
  \<^item> \<open>Client_Wire\<close>, \<open>Client\<close>, \<open>Cli\<close> (\<open>blitzclient.rs\<close>, \<open>parse_args\<close> of \<open>main.rs\<close>): the client's codec, its
    two modes over a socket, both command lines, and client and broker connection run against each other.
  \<^item> \<open>Step_Systems\<close>: the locale \<open>ranked_steps\<close> of step relations that keep an invariant and lower a rank, and
    so must end. \<open>Drain\<close>: the whole broker without further input as such a system, and the bounds on what a
    connection holds.
  \<^item> \<open>Logging\<close> (\<open>logging.rs\<close>), \<open>Broker_Main\<close> (\<open>main\<close> of \<open>main.rs\<close>): log lines; binding and the accept loop as
    a list of effects.
  \<^item> \<open>Bench_Wire\<close>, \<open>Bench_Setup\<close>, \<open>Bench_Run\<close> (\<open>shard_benchmark.rs\<close>): its codec, equal to the client's, and its
    command line; the set-up of its threads up to the barrier; the batches of publisher and subscriber. The
    last two are interpretations of \<open>ranked_steps\<close>.
  \<^item> \<open>Protocol_Tests\<close>, \<open>Client_Tests\<close>, \<open>Connection_Tests\<close>: the unit tests of \<open>protocol.rs\<close>, \<open>blitzclient.rs\<close>,
    \<open>queue.rs\<close> and \<open>connection.rs\<close>, each a definition of the test's name, all shown to pass on the model.
  \<^item> \<open>Reference_Broker\<close>: the abstract broker on lists, to be evaluated. \<open>Broker_Scripts\<close>: threads that send to the
    sharded broker and use queues while the shards run, as scripts that are interleaved with the shards
    (another \<open>ranked_steps\<close>); a script that is right against the reference broker passes in every
    interleaving. \<open>Broker_Tests\<close>: the unit tests of \<open>broker.rs\<close> as such scripts.

  \<^bold>\<open>How the code is represented.\<close> A Rust \<open>str\<close> is the string of its UTF-8 bytes; the characters the code
  looks for are ASCII. Positions and lengths of buffers are naturals, words keep their width where the
  code computes with them. A queue handle is an address in a store that shards and connections share.
  Handling one message by a shard, and one action by a reader, is one step of the concurrent models;
  \<open>Queue_Threads\<close> justifies that for each queue operation. The hash of a topic is a parameter, as the code
  leaves it to the standard library. Sockets are the list of results of their reads and writes. The loops
  over buffers are recursive functions with termination proofs (a decoded packet consumes at least two
  bytes); no model uses fuel but \<open>drain\<close>, whose bound only has to exceed the number of items. The searches of
  two tests for topics on different shards, which end only for some hash functions, are partial functions.

  \<^bold>\<open>What is not modelled.\<close> What connections and argument parsing log, the operating system's sockets beyond
  the results of their operations, the benchmark's clock and printed figures, and panics from poisoned
  locks, which cannot arise as no thread panics while it holds one.

  \<^bold>\<open>What is shown.\<close> Decoding never panics and inverts encoding; cutting the stream differently changes
  nothing; every shard is at any moment the abstract broker after a prefix of the messages, restricted to
  its topics; each publish reaches every recipient exactly once and nobody else; over a whole run the
  shards deliver what one sequential broker would; subscriptions are answered
  with the matching retained messages; queues keep the newest items in order under every interleaving; the
  client and the broker understand each other; without new input the broker comes to rest with everything
  handled and written. Three defects are theorems as well: closing a queue can be missed by its consumer, a
  retained message can overtake the SUBACK, which the client takes for an error, and a benchmark with a
  failed connection stays at its barrier.
\<close>

section \<open>Properties\<close>





text \<open>C11: A retained message can overtake the SUBACK. There is a run of the broker after which the queue of
  a new subscriber holds the CONNACK, the retained publish and only then the SUBACK, since the
  subscription is forwarded before its acknowledgement is queued; the client, given these bytes, ends
  with an error because it expects the SUBACK first.\<close>

theorem retained_message_can_overtake_suback:
  "\<exists>es s. server_run hash (server_init [channel_new]) es s \<and>
     items (cl_store (sv_cluster s) 1) = map Packet [accepted, Publish race_publish, granted] \<and>
     run_sub True pid ''t'' \<lparr>inp = wire_image (items (cl_store (sv_cluster s) 1)), outp = [], writes_left = 2\<rparr> =
       Err (UnexpectedType PT_SUBACK PT_PUBLISH)"
proof -
  obtain es s where run: "server_run hash (server_init [channel_new]) es s"
    and its: "items (cl_store (sv_cluster s) 1) = map Packet [accepted, Publish race_publish, granted]"
    using race_reachable by blast
  have "run_sub True pid ''t'' \<lparr>inp = wire_image (items (cl_store (sv_cluster s) 1)), outp = [], writes_left = 2\<rparr> =
      Err (UnexpectedType PT_SUBACK PT_PUBLISH)"
    unfolding its
    by (rule run_sub_overtaken [OF _ sendable_race(3), where rest = "encode granted"]) (simp_all del: encode.simps)
  with run its show ?thesis by blast
qed

end
